(* ===== verification/Prelude.thy ===== *)
theory Prelude
  imports Main "HOL-Library.Word"
begin

text \<open>
  Shared vocabulary of the development.

  \<^item> Conventions. A byte is \<open>8 word\<close>. A \<^verbatim>\<open>usize\<close> or a fixed-width unsigned integer that only
    counts or compares is a \<open>nat\<close>, with the wrap-around or the overflow check of the source
    written out where it matters. A function that can only panic returns an option, \<open>None\<close>
    being the panic; a function that returns a \<^verbatim>\<open>Result\<close> and can also panic returns an
    \<open>outcome\<close>.
  \<^item> Big-endian numbers: the bit length, the leading zeros and the byte strings that the RLP
    and the engine code build from them, with the lemmas the components share.
\<close>

named_theorems be_simps \<open>big-endian encodings and their values\<close>

type_synonym u8 = "8 word"
type_synonym bytes = "8 word list"

subsection \<open>Results, errors and panics\<close>

datatype ('e, 'a) outcome = Ok 'a | Err 'e | Panic

text \<open>The \<^verbatim>\<open>?\<close> operator: an error or a panic ends the computation.\<close>

definition try_ok :: "('e, 'a) outcome \<Rightarrow> ('a \<Rightarrow> ('e, 'b) outcome) \<Rightarrow> ('e, 'b) outcome" where
  "try_ok m f = (case m of Ok a \<Rightarrow> f a | Err e \<Rightarrow> Err e | Panic \<Rightarrow> Panic)"

definition map_ok :: "('a \<Rightarrow> 'b) \<Rightarrow> ('e, 'a) outcome \<Rightarrow> ('e, 'b) outcome" where
  "map_ok f m = (case m of Ok a \<Rightarrow> Ok (f a) | Err e \<Rightarrow> Err e | Panic \<Rightarrow> Panic)"

lemma try_ok_simps [simp]:
  "try_ok (Ok a) f = f a"
  "try_ok (Err e) f = Err e"
  "try_ok Panic f = Panic"
  by (simp_all add: try_ok_def)

lemma map_ok_simps [simp]:
  "map_ok g (Ok a) = Ok (g a)"
  "map_ok g (Err e) = Err e"
  "map_ok g Panic = Panic"
  by (simp_all add: map_ok_def)

lemma try_ok_assoc: "try_ok (try_ok m f) g = try_ok m (\<lambda>a. try_ok (f a) g)"
  by (cases m) simp_all

lemma map_ok_comp: "map_ok f (map_ok g m) = map_ok (\<lambda>x. f (g x)) m"
  by (cases m) simp_all

lemma try_ok_eq_Ok_iff: "try_ok m f = Ok b \<longleftrightarrow> (\<exists>a. m = Ok a \<and> f a = Ok b)"
  by (cases m) auto

lemma try_ok_eq_Panic_iff: "try_ok m f = Panic \<longleftrightarrow> m = Panic \<or> (\<exists>a. m = Ok a \<and> f a = Panic)"
  by (cases m) auto

lemma map_ok_eq_Ok_iff: "map_ok g m = Ok b \<longleftrightarrow> (\<exists>a. m = Ok a \<and> b = g a)"
  by (cases m) auto

lemma map_ok_eq_Panic_iff [simp]: "map_ok g m = Panic \<longleftrightarrow> m = Panic"
  by (cases m) auto

text \<open>\<^verbatim>\<open>usize::max_value()\<close> on the 64-bit targets the node builds for, and \<^verbatim>\<open>checked_add\<close>.\<close>

definition usize_max :: nat where
  "usize_max = 2 ^ 64 - 1"

definition checked_add :: "nat \<Rightarrow> nat \<Rightarrow> nat option" where
  "checked_add a b = (if a + b \<le> usize_max then Some (a + b) else None)"

subsection \<open>Bit length and leading zeros\<close>

fun nbits :: "nat \<Rightarrow> nat" where
  "nbits n = (if n = 0 then 0 else Suc (nbits (n div 2)))"

declare nbits.simps [simp del]

definition leading_zeros :: "nat \<Rightarrow> nat \<Rightarrow> nat" where
  "leading_zeros w n = w - nbits n"

lemma nbits_0 [simp]: "nbits 0 = 0"
  by (simp add: nbits.simps)

lemma nbits_less: "n < 2 ^ nbits n"
proof (induction n rule: nbits.induct)
  case (1 n)
  show ?case
  proof (cases "n = 0")
    case False
    with 1 have "n div 2 < 2 ^ nbits (n div 2)" by simp
    then show ?thesis using False by (subst nbits.simps) simp
  qed simp
qed

lemma nbits_ge: "0 < n \<Longrightarrow> 2 ^ (nbits n - 1) \<le> n"
proof (induction n rule: nbits.induct)
  case (1 n)
  show ?case
  proof (cases "n div 2 = 0")
    case True
    with 1 have "n = 1" by linarith
    then show ?thesis by (simp add: nbits.simps)
  next
    case False
    with 1 have IH: "2 ^ (nbits (n div 2) - 1) \<le> n div 2" by simp
    have "nbits n = Suc (nbits (n div 2))" using 1 by (subst nbits.simps) simp
    moreover have "0 < nbits (n div 2)" using False by (subst nbits.simps) simp
    then obtain k where k: "nbits (n div 2) = Suc k" by (cases "nbits (n div 2)") auto
    ultimately have "nbits n - 1 = Suc k" by simp
    moreover have "2 * 2 ^ k \<le> n" using IH k by simp
    ultimately show ?thesis by simp
  qed
qed

lemma nbits_le_iff: "nbits n \<le> k \<longleftrightarrow> n < 2 ^ k"
proof
  assume "nbits n \<le> k"
  then have "(2::nat) ^ nbits n \<le> 2 ^ k" by (simp add: power_increasing)
  with nbits_less [of n] show "n < 2 ^ k" by linarith
next
  assume less: "n < 2 ^ k"
  show "nbits n \<le> k"
  proof (rule ccontr)
    assume "\<not> nbits n \<le> k"
    then have k: "k \<le> nbits n - 1" and "nbits n \<noteq> 0" by auto
    then have "0 < n" by (cases "n = 0") auto
    then have "2 ^ (nbits n - 1) \<le> n" by (rule nbits_ge)
    moreover have "(2::nat) ^ k \<le> 2 ^ (nbits n - 1)" using k by (simp add: power_increasing)
    ultimately show False using less by linarith
  qed
qed

lemma nbits_gt_iff: "k < nbits n \<longleftrightarrow> 2 ^ k \<le> n"
  using nbits_le_iff [of n k] by linarith

lemma nbits_eqI: "2 ^ k \<le> n \<Longrightarrow> n < 2 ^ Suc k \<Longrightarrow> nbits n = Suc k"
  using nbits_le_iff [of n "Suc k"] nbits_gt_iff [of k n] by simp

subsection \<open>Big-endian byte strings\<close>

definition byte_of :: "nat \<Rightarrow> u8" where
  "byte_of n = word_of_nat n"

lemma unat_byte_of [simp]: "unat (byte_of n) = n mod 256"
  by (simp add: byte_of_def unat_of_nat)

lemma byte_of_unat [simp]: "byte_of (unat b) = b"
  by (simp add: byte_of_def)

lemma byte_less_256 [simp]: "unat (b :: u8) < 256"
  using unsigned_less [of b] by simp

text \<open>The \<open>k\<close> bytes \<^verbatim>\<open>to_big_endian\<close> and the \<^verbatim>\<open>write_uNN\<close> functions store.\<close>

definition be_fixed :: "nat \<Rightarrow> nat \<Rightarrow> bytes" where
  "be_fixed k n = map (\<lambda>i. byte_of (n div 256 ^ (k - 1 - i))) [0..<k]"

text \<open>The value of a big-endian byte string.\<close>

definition be_val :: "bytes \<Rightarrow> nat" where
  "be_val bs = foldl (\<lambda>a b. a * 256 + unat b) 0 bs"

lemma length_be_fixed [simp]: "length (be_fixed k n) = k"
  by (simp add: be_fixed_def)

lemma be_fixed_0 [simp]: "be_fixed 0 n = []"
  by (simp add: be_fixed_def)

lemma nth_be_fixed: "i < k \<Longrightarrow> be_fixed k n ! i = byte_of (n div 256 ^ (k - 1 - i))"
  by (simp add: be_fixed_def)

lemma drop_be_fixed: "j \<le> k \<Longrightarrow> drop j (be_fixed k n) = be_fixed (k - j) n"
  by (rule nth_equalityI) (simp_all add: nth_be_fixed)

lemma be_fixed_Suc: "be_fixed (Suc k) n = be_fixed k (n div 256) @ [byte_of n]"
proof -
  have "n div 256 ^ (Suc k - 1 - i) = n div 256 div 256 ^ (k - 1 - i)" if "i < k" for i
  proof -
    have "Suc k - 1 - i = Suc (k - 1 - i)" using that by simp
    then show ?thesis by (simp add: div_mult2_eq)
  qed
  then show ?thesis by (simp add: be_fixed_def)
qed

lemma be_val_Nil [simp]: "be_val [] = 0"
  by (simp add: be_val_def)

lemma be_val_append1 [simp]: "be_val (bs @ [b]) = be_val bs * 256 + unat b"
  by (simp add: be_val_def)

lemma be_val_append: "be_val (xs @ ys) = be_val xs * 256 ^ length ys + be_val ys"
proof (induction ys rule: rev_induct)
  case (snoc y ys)
  have "be_val (xs @ ys @ [y]) = be_val (xs @ ys) * 256 + unat y"
    using be_val_append1 [of "xs @ ys" y] by simp
  then show ?case using snoc.IH by (simp add: algebra_simps)
qed simp

lemma be_val_Cons: "be_val (b # bs) = unat b * 256 ^ length bs + be_val bs"
  using be_val_append [of "[b]" bs] by (simp add: be_val_def)

lemma be_val_less: "be_val bs < 256 ^ length bs"
proof (induction bs rule: rev_induct)
  case (snoc b bs)
  then have "be_val bs + 1 \<le> 256 ^ length bs" by simp
  then have "(be_val bs + 1) * 256 \<le> 256 ^ length bs * 256" by (rule mult_le_mono1)
  moreover have "be_val (bs @ [b]) < (be_val bs + 1) * 256"
    using byte_less_256 [of b] by simp
  ultimately have "be_val (bs @ [b]) < 256 ^ length bs * 256" by (rule order.strict_trans2 [rotated])
  then show ?case by (simp add: mult.commute)
qed simp

lemma be_val_be_fixed [be_simps]: "be_val (be_fixed k n) = n mod 256 ^ k"
proof (induction k arbitrary: n)
  case (Suc k)
  have "n mod 256 ^ Suc k = n div 256 mod 256 ^ k * 256 + n mod 256"
    by (simp add: mod_mult2_eq)
  then show ?case using Suc.IH [of "n div 256"] by (simp add: be_fixed_Suc)
qed simp

lemma be_fixed_be_val [be_simps]: "length bs = k \<Longrightarrow> be_fixed k (be_val bs) = bs"
proof (induction k arbitrary: bs)
  case (Suc k)
  then obtain xs x where bs: "bs = xs @ [x]" by (cases bs rule: rev_cases) auto
  have "(be_val xs * 256 + unat x) div 256 = be_val xs" by simp
  moreover have "byte_of (be_val xs * 256 + unat x) = x"
  proof -
    have "unat (byte_of (be_val xs * 256 + unat x)) = unat x" by simp
    then show ?thesis by (simp only: word_unat_eq_iff)
  qed
  ultimately show ?case using Suc bs by (simp add: be_fixed_Suc)
qed simp

lemma be_val_inject: "length xs = length ys \<Longrightarrow> be_val xs = be_val ys \<Longrightarrow> xs = ys"
  by (metis be_fixed_be_val)

text \<open>The minimal big-endian form: the significant bytes only.\<close>

definition be_size :: "nat \<Rightarrow> nat" where
  "be_size n = (nbits n + 7) div 8"

definition be_min :: "nat \<Rightarrow> bytes" where
  "be_min n = be_fixed (be_size n) n"

lemma power_256: "(256::nat) ^ k = 2 ^ (8 * k)"
  by (simp add: power_mult)

lemma be_size_le_iff: "be_size n \<le> k \<longleftrightarrow> n < 256 ^ k"
proof -
  have "be_size n \<le> k \<longleftrightarrow> nbits n \<le> 8 * k" unfolding be_size_def by linarith
  then show ?thesis by (simp add: nbits_le_iff power_256)
qed

lemma be_size_gt_iff: "k < be_size n \<longleftrightarrow> 256 ^ k \<le> n"
  using be_size_le_iff [of n k] by linarith

lemma be_size_0 [simp]: "be_size 0 = 0"
  by (simp add: be_size_def)

lemma be_size_eq_0_iff [simp]: "be_size n = 0 \<longleftrightarrow> n = 0"
  using be_size_le_iff [of n 0] by simp

lemma be_size_pos_iff [simp]: "0 < be_size n \<longleftrightarrow> 0 < n"
  by (simp flip: neq0_conv)

lemma length_be_min [simp]: "length (be_min n) = be_size n"
  by (simp add: be_min_def)

lemma be_min_0 [simp]: "be_min 0 = []"
  by (simp add: be_min_def)

lemma be_min_eq_Nil_iff [simp]: "be_min n = [] \<longleftrightarrow> n = 0"
  by (metis be_min_0 be_size_eq_0_iff length_be_min list.size(3))

lemma be_val_be_min [simp]: "be_val (be_min n) = n"
proof -
  have "n < 256 ^ be_size n" using be_size_le_iff [of n "be_size n"] by simp
  then show ?thesis by (simp add: be_min_def be_val_be_fixed)
qed

lemma be_min_leading: "0 < n \<Longrightarrow> hd (be_min n) \<noteq> 0"
proof
  assume n: "0 < n" and z: "hd (be_min n) = 0"
  have "be_min n \<noteq> []" using n by simp
  then obtain b bs where bs: "be_min n = b # bs" by (cases "be_min n") auto
  then have "b = 0" using z by simp
  then have "n = be_val bs" using bs be_val_be_min [of n] by (simp add: be_val_Cons)
  then have "n < 256 ^ length bs" using be_val_less [of bs] by simp
  moreover have "length bs < be_size n" using bs length_be_min [of n] by simp
  ultimately show False using be_size_gt_iff [of "length bs" n] by simp
qed

text \<open>
  The source drops the \<open>leading_zeros / 8\<close> leading bytes of a \<open>k\<close>-byte buffer; what is left is
  the minimal form.
\<close>

lemma leading_zero_bytes: "n < 256 ^ k \<Longrightarrow> k - leading_zeros (8 * k) n div 8 = be_size n"
proof -
  assume "n < 256 ^ k"
  then have "nbits n \<le> 8 * k" by (simp add: nbits_le_iff power_256)
  then show ?thesis unfolding leading_zeros_def be_size_def by linarith
qed

lemma drop_leading_zero_bytes:
  assumes "n < 256 ^ k"
  shows "drop (leading_zeros (8 * k) n div 8) (be_fixed k n) = be_min n"
proof -
  have "leading_zeros (8 * k) n div 8 \<le> k" unfolding leading_zeros_def by linarith
  then show ?thesis using leading_zero_bytes [OF assms] by (simp add: drop_be_fixed be_min_def)
qed

lemma be_min_be_val: "bs \<noteq> [] \<Longrightarrow> hd bs \<noteq> 0 \<Longrightarrow> be_min (be_val bs) = bs"
proof -
  assume "bs \<noteq> []" and hd: "hd bs \<noteq> 0"
  then obtain b cs where bs: "bs = b # cs" by (cases bs) auto
  have "0 < unat b" using hd bs by (simp add: unat_gt_0)
  then have "256 ^ length cs \<le> be_val bs" using bs by (simp add: be_val_Cons trans_le_add1)
  then have "length cs < be_size (be_val bs)" by (simp add: be_size_gt_iff)
  moreover have "be_size (be_val bs) \<le> length bs" by (simp add: be_size_le_iff be_val_less)
  ultimately have "be_size (be_val bs) = length bs" using bs by simp
  then show ?thesis by (simp add: be_min_def be_fixed_be_val)
qed

end
