(* ===== verification/Rlp_Stream.thy ===== *)
theory Rlp_Stream
  imports Prelude "HOL-Library.Monad_Syntax"
begin

text \<open>
  The RLP encoder of \<^verbatim>\<open>src/util/rlp/src/stream.rs\<close>: an appendable buffer with a stack of
  unfinished lists, which reserves one byte for a list's header and patches the header (and
  inserts the length bytes) when the list is complete. The reference is the recursive RLP
  encoding of an item tree; the lemmas show that streaming an item appends exactly its
  encoding and counts exactly one item of the enclosing list.
\<close>

subsection \<open>State\<close>

record list_info =
  li_position :: nat
  li_current :: nat
  li_max :: "nat option"

definition list_info_new :: "nat \<Rightarrow> nat option \<Rightarrow> list_info" where
  "list_info_new pos mx = \<lparr>li_position = pos, li_current = 0, li_max = mx\<rparr>"

record rlp_stream =
  unfinished_lists :: "list_info list"
  buffer :: bytes
  finished_list :: bool

text \<open>Updates of different fields commute; the normal form is the order of the declaration.\<close>

lemma stream_upd:
  "s\<lparr>finished_list := f, buffer := b\<rparr> = s\<lparr>buffer := b, finished_list := f\<rparr>"
  "s\<lparr>finished_list := f, unfinished_lists := u\<rparr> = s\<lparr>unfinished_lists := u, finished_list := f\<rparr>"
  "s\<lparr>buffer := b, unfinished_lists := u\<rparr> = s\<lparr>unfinished_lists := u, buffer := b\<rparr>"
  by simp_all

definition stream_new :: rlp_stream where
  "stream_new = \<lparr>unfinished_lists = [], buffer = [], finished_list = False\<rparr>"

subsection \<open>The basic encoder\<close>

text \<open>The vector operations the encoder uses, with the panic of an index out of range.\<close>

definition insert_slice :: "nat \<Rightarrow> bytes \<Rightarrow> bytes \<Rightarrow> bytes option" where
  "insert_slice pos xs buf =
     (if pos \<le> length buf then Some (take pos buf @ xs @ drop pos buf) else None)"

definition set_byte_before :: "nat \<Rightarrow> u8 \<Rightarrow> bytes \<Rightarrow> bytes option" where
  "set_byte_before pos v buf =
     (if 0 < pos \<and> pos \<le> length buf then Some (buf[pos - 1 := v]) else None)"

definition insert_size :: "nat \<Rightarrow> nat \<Rightarrow> bytes \<Rightarrow> (bytes \<times> u8) option" where
  "insert_size sz position buf =
     (let size32 = sz mod 2 ^ 32;
          leading_empty_bytes = leading_zeros 32 size32 div 8;
          size_bytes = 4 - leading_empty_bytes
      in do {
        buf' \<leftarrow> insert_slice position (drop leading_empty_bytes (be_fixed 4 size32)) buf;
        Some (buf', byte_of size_bytes)
      })"

definition insert_list_payload :: "nat \<Rightarrow> nat \<Rightarrow> bytes \<Rightarrow> bytes option" where
  "insert_list_payload len pos buf =
     (if len \<le> 55 then set_byte_before pos (0xc0 + byte_of len) buf
      else do {
        (buf', inserted_bytes) \<leftarrow> insert_size len pos buf;
        set_byte_before pos (0xf7 + inserted_bytes) buf'
      })"

definition encode_value :: "bytes \<Rightarrow> bytes \<Rightarrow> bytes option" where
  "encode_value value buf =
     (if length value = 0 then Some (buf @ [0x80])
      else if length value = 1 \<and> value ! 0 < 0x80 then Some (buf @ [value ! 0])
      else if length value \<le> 55 then Some ((buf @ [0x80 + byte_of (length value)]) @ value)
      else let buf1 = buf @ [0]; position = length buf1
           in do {
             (buf2, inserted_bytes) \<leftarrow> insert_size (length value) position buf1;
             buf3 \<leftarrow> set_byte_before position (0xb7 + inserted_bytes) buf2;
             Some (buf3 @ value)
           })"

subsection \<open>Appending items\<close>

function note_appended :: "rlp_stream \<Rightarrow> nat \<Rightarrow> rlp_stream option" where
  "note_appended s inserted_items =
     (if unfinished_lists s = [] then Some s
      else let x = last (unfinished_lists s);
               x' = x\<lparr>li_current := li_current x + inserted_items\<rparr>;
               s_open = s\<lparr>unfinished_lists := butlast (unfinished_lists s) @ [x'],
                          finished_list := False\<rparr>
           in (case li_max x of
                 None \<Rightarrow> Some s_open
               | Some mx \<Rightarrow>
                   if mx < li_current x' then None
                   else if li_current x' = mx then do {
                     buf \<leftarrow> insert_list_payload (length (buffer s) - li_position x') (li_position x')
                              (buffer s);
                     s' \<leftarrow> note_appended
                            (s\<lparr>unfinished_lists := butlast (unfinished_lists s), buffer := buf\<rparr>) 1;
                     Some (s'\<lparr>finished_list := True\<rparr>)
                   }
                   else Some s_open))"
  by pat_completeness auto
termination
  by (relation "measure (\<lambda>(s, n). length (unfinished_lists s))") auto

declare note_appended.simps [simp del]

text \<open>
  \<^verbatim>\<open>append\<close> takes what the value's \<^verbatim>\<open>rlp_append\<close> does to the stream; \<open>append_rlp app s v\<close> is the call
  \<^verbatim>\<open>s.append(&v)\<close> for a type whose \<^verbatim>\<open>rlp_append\<close> is \<open>app\<close>.
\<close>

definition append_with :: "(rlp_stream \<Rightarrow> rlp_stream option) \<Rightarrow> rlp_stream \<Rightarrow> rlp_stream option" where
  "append_with f s = do {
     s' \<leftarrow> f (s\<lparr>finished_list := False\<rparr>);
     if \<not> finished_list s' then note_appended s' 1 else Some s'
   }"

definition append_rlp :: "('e \<Rightarrow> rlp_stream \<Rightarrow> rlp_stream option) \<Rightarrow> rlp_stream \<Rightarrow> 'e \<Rightarrow> rlp_stream option"
  where "append_rlp app s v = append_with (app v) s"

definition begin_list :: "nat \<Rightarrow> rlp_stream \<Rightarrow> rlp_stream option" where
  "begin_list len s =
     (let s0 = s\<lparr>finished_list := False\<rparr> in
      if len = 0 then do {
        s1 \<leftarrow> note_appended (s0\<lparr>buffer := buffer s0 @ [0xc0]\<rparr>) 1;
        Some (s1\<lparr>finished_list := True\<rparr>)
      }
      else let buf = buffer s0 @ [0]
           in Some (s0\<lparr>buffer := buf,
                       unfinished_lists := unfinished_lists s0 @ [list_info_new (length buf) (Some len)]\<rparr>))"

definition stream_new_list :: "nat \<Rightarrow> rlp_stream option" where
  "stream_new_list len = begin_list len stream_new"

definition append_internal :: "('e \<Rightarrow> rlp_stream \<Rightarrow> rlp_stream option) \<Rightarrow> rlp_stream \<Rightarrow> 'e \<Rightarrow>
    rlp_stream option" where
  "append_internal app s v = app v s"

definition begin_unbounded_list :: "rlp_stream \<Rightarrow> rlp_stream" where
  "begin_unbounded_list s =
     (let buf = buffer s @ [0]
      in s\<lparr>finished_list := False, buffer := buf,
           unfinished_lists := unfinished_lists s @ [list_info_new (length buf) None]\<rparr>)"

definition complete_unbounded_list :: "rlp_stream \<Rightarrow> rlp_stream option" where
  "complete_unbounded_list s =
     (if unfinished_lists s = [] then None
      else let x = last (unfinished_lists s) in
           if li_max x \<noteq> None then None
           else do {
             buf \<leftarrow> insert_list_payload (length (buffer s) - li_position x) (li_position x) (buffer s);
             note_appended (s\<lparr>unfinished_lists := butlast (unfinished_lists s), buffer := buf\<rparr>) 1
           })"

fun append_each :: "(rlp_stream \<Rightarrow> rlp_stream option) list \<Rightarrow> rlp_stream \<Rightarrow> rlp_stream option" where
  "append_each [] s = Some s"
| "append_each (f # fs) s = append_with f s \<bind> append_each fs"

definition append_list :: "('e \<Rightarrow> rlp_stream \<Rightarrow> rlp_stream option) \<Rightarrow> rlp_stream \<Rightarrow> 'e list \<Rightarrow>
    rlp_stream option" where
  "append_list app s values = begin_list (length values) s \<bind> append_each (map app values)"

definition append_empty_data :: "rlp_stream \<Rightarrow> rlp_stream option" where
  "append_empty_data s = note_appended (s\<lparr>buffer := buffer s @ [0x80]\<rparr>) 1"

definition append_raw :: "bytes \<Rightarrow> nat \<Rightarrow> rlp_stream \<Rightarrow> rlp_stream option" where
  "append_raw bs item_count s = note_appended (s\<lparr>buffer := buffer s @ bs\<rparr>) item_count"

text \<open>The loop of \<^verbatim>\<open>estimate_size\<close> adds the length bytes of every list that is already long.\<close>

definition estimate_size :: "nat \<Rightarrow> rlp_stream \<Rightarrow> nat" where
  "estimate_size add s =
     (let total_size = length (buffer s) + add
      in foldl (\<lambda>base_size l.
           let len = total_size - li_position l
           in if len > 55 then base_size + (8 - leading_zeros 64 len div 8) else base_size)
         total_size (unfinished_lists s))"

definition stream_len :: "rlp_stream \<Rightarrow> nat" where
  "stream_len s = estimate_size 0 s"

definition append_raw_checked :: "bytes \<Rightarrow> nat \<Rightarrow> nat \<Rightarrow> rlp_stream \<Rightarrow> (rlp_stream \<times> bool) option" where
  "append_raw_checked bs item_count max_size s =
     (if max_size < estimate_size (length bs) s then Some (s, False)
      else do { s' \<leftarrow> append_raw bs item_count s; Some (s', True) })"

definition stream_clear :: "rlp_stream \<Rightarrow> rlp_stream" where
  "stream_clear s = s\<lparr>buffer := [], unfinished_lists := []\<rparr>"

definition is_finished :: "rlp_stream \<Rightarrow> bool" where
  "is_finished s \<longleftrightarrow> length (unfinished_lists s) = 0"

definition stream_out :: "rlp_stream \<Rightarrow> bytes option" where
  "stream_out s = (if is_finished s then Some (buffer s) else None)"

text \<open>\<^verbatim>\<open>rlp::encode\<close> and \<^verbatim>\<open>rlp::encode_list\<close> of \<^verbatim>\<open>lib.rs\<close>.\<close>

definition encode :: "('e \<Rightarrow> rlp_stream \<Rightarrow> rlp_stream option) \<Rightarrow> 'e \<Rightarrow> bytes option" where
  "encode app v = append_rlp app stream_new v \<bind> stream_out"

definition encode_list :: "('e \<Rightarrow> rlp_stream \<Rightarrow> rlp_stream option) \<Rightarrow> 'e list \<Rightarrow> bytes option" where
  "encode_list app vs = append_list app stream_new vs \<bind> stream_out"

subsection \<open>The reference encoding of an item tree\<close>

datatype item = Data bytes | Seq "item list"

definition data_enc :: "bytes \<Rightarrow> bytes" where
  "data_enc v =
     (if v = [] then [0x80]
      else if length v = 1 \<and> hd v < 0x80 then v
      else if length v \<le> 55 then (0x80 + byte_of (length v)) # v
      else (0xb7 + byte_of (be_size (length v))) # be_min (length v) @ v)"

definition list_enc :: "bytes \<Rightarrow> bytes" where
  "list_enc payload =
     (if length payload \<le> 55 then (0xc0 + byte_of (length payload)) # payload
      else (0xf7 + byte_of (be_size (length payload))) # be_min (length payload) @ payload)"

primrec item_enc :: "item \<Rightarrow> bytes" where
  "item_enc (Data v) = data_enc v"
| "item_enc (Seq ts) = list_enc (concat (map item_enc ts))"

text \<open>Streaming a tree: data by \<^verbatim>\<open>encode_value\<close>, a list by \<^verbatim>\<open>append_list\<close> of its elements.\<close>

primrec item_append :: "item \<Rightarrow> rlp_stream \<Rightarrow> rlp_stream option" where
  "item_append (Data v) = (\<lambda>s. do { buf \<leftarrow> encode_value v (buffer s); Some (s\<lparr>buffer := buf\<rparr>) })"
| "item_append (Seq ts) = (\<lambda>s. begin_list (length ts) s \<bind> append_each (map item_append ts))"

lemma item_append_Seq: "item_append (Seq ts) s = append_list item_append s ts"
  by (simp add: append_list_def)

subsection \<open>The basic encoder writes the reference headers\<close>

abbreviation fits32 :: "bytes \<Rightarrow> bool" where
  "fits32 bs \<equiv> length bs < 2 ^ 32"

lemma insert_size_fits:
  assumes "n < 2 ^ 32" and "pos \<le> length buf"
  shows "insert_size n pos buf = Some (take pos buf @ be_min n @ drop pos buf, byte_of (be_size n))"
proof -
  have n: "n < 256 ^ 4" using assms(1) by simp
  have "n mod 2 ^ 32 = n" using assms(1) by simp
  moreover have "drop (leading_zeros 32 n div 8) (be_fixed 4 n) = be_min n"
    using drop_leading_zero_bytes [OF n] by simp
  moreover have "4 - leading_zeros 32 n div 8 = be_size n"
    using leading_zero_bytes [OF n] by simp
  ultimately show ?thesis
    using assms(2) by (simp add: insert_size_def insert_slice_def Let_def)
qed

lemma insert_list_payload_enc:
  assumes "fits32 payload"
  shows "insert_list_payload (length payload) (Suc (length b)) (b @ 0 # payload) = Some (b @ list_enc payload)"
proof (cases "length payload \<le> 55")
  case True
  then show ?thesis
    by (simp add: insert_list_payload_def set_byte_before_def list_enc_def)
next
  case False
  have "insert_size (length payload) (Suc (length b)) (b @ 0 # payload)
        = Some ((b @ [0]) @ be_min (length payload) @ payload, byte_of (be_size (length payload)))"
    using insert_size_fits [OF assms, of "Suc (length b)" "b @ 0 # payload"] by simp
  then show ?thesis using False
    by (simp add: insert_list_payload_def set_byte_before_def list_enc_def)
qed

lemma encode_value_enc:
  assumes "fits32 v"
  shows "encode_value v b = Some (b @ data_enc v)"
proof -
  consider (empty) "v = []" | (single) x where "v = [x]" "x < 0x80"
    | (short) "v \<noteq> []" "\<not> (length v = 1 \<and> hd v < 0x80)" "length v \<le> 55"
    | (long) "length v > 55"
  proof (cases v)
    case (Cons x xs)
    then show ?thesis using single short long by (cases xs) force+
  qed (use empty in simp)
  then show ?thesis
  proof cases
    case short
    then have "\<not> (length v = 1 \<and> v ! 0 < 0x80)" by (auto simp: hd_conv_nth)
    with short show ?thesis by (auto simp: encode_value_def data_enc_def)
  next
    case long
    have "insert_size (length v) (Suc (length b)) (b @ [0])
          = Some ((b @ [0]) @ be_min (length v), byte_of (be_size (length v)))"
      using insert_size_fits [OF assms, of "Suc (length b)" "b @ [0]"] by simp
    then show ?thesis using long
      by (auto simp: encode_value_def data_enc_def set_byte_before_def Let_def)
  qed (simp_all add: encode_value_def data_enc_def)
qed

subsection \<open>Counting items\<close>

lemma note_appended_Nil: "unfinished_lists s = [] \<Longrightarrow> note_appended s n = Some s"
  by (simp add: note_appended.simps)

text \<open>
  With a list open the result does not depend on the flag: every branch sets it.
\<close>

lemma note_appended_flag:
  "note_appended (s\<lparr>finished_list := b\<rparr>) n =
     (if unfinished_lists s = [] then Some (s\<lparr>finished_list := b\<rparr>) else note_appended s n)"
proof (induction "length (unfinished_lists s)" arbitrary: s n rule: less_induct)
  case less
  let ?pop = "\<lambda>buf. s\<lparr>unfinished_lists := butlast (unfinished_lists s), buffer := buf\<rparr>"
  have pop: "note_appended (s\<lparr>unfinished_lists := butlast (unfinished_lists s), buffer := buf,
                              finished_list := b\<rparr>) (Suc 0)
               \<bind> (\<lambda>s'. Some (s'\<lparr>finished_list := True\<rparr>))
      = note_appended (?pop buf) (Suc 0) \<bind> (\<lambda>s'. Some (s'\<lparr>finished_list := True\<rparr>))"
    if "unfinished_lists s \<noteq> []" for buf
    using less [of "?pop buf" "Suc 0"] that by (simp add: note_appended_Nil)
  show ?case
    by (subst (1 2) note_appended.simps)
       (auto simp: Let_def pop stream_upd split: option.splits)
qed

text \<open>The two ways an item can land in the innermost open list: it is not the last, or it is.\<close>

lemma note_appended_open:
  assumes "unfinished_lists s = us @ [x]" and "case li_max x of None \<Rightarrow> True | Some m \<Rightarrow> li_current x + n < m"
  shows "note_appended s n =
     Some (s\<lparr>unfinished_lists := us @ [x\<lparr>li_current := li_current x + n\<rparr>], finished_list := False\<rparr>)"
  using assms by (subst note_appended.simps) (auto simp: Let_def split: option.splits)

lemma note_appended_full:
  assumes "unfinished_lists s = us @ [x]" and "li_max x = Some (li_current x + n)"
    and "insert_list_payload (length (buffer s) - li_position x) (li_position x) (buffer s) = Some buf"
  shows "note_appended s n =
     note_appended (s\<lparr>unfinished_lists := us, buffer := buf\<rparr>) 1 \<bind> (\<lambda>s'. Some (s'\<lparr>finished_list := True\<rparr>))"
  using assms by (subst note_appended.simps) (auto simp: Let_def)

lemma note_appended_too_many:
  assumes "unfinished_lists s = us @ [x]" and "li_max x = Some m" and "m < li_current x + n"
  shows "note_appended s n = None"
  using assms by (subst note_appended.simps) (auto simp: Let_def)

subsection \<open>The contract of an encodable type\<close>

text \<open>
  Pushing one complete item: its bytes land at the end and it is counted once. The second form
  leaves the flag set, which is how a type that streams a list tells \<^verbatim>\<open>append\<close> that the item is
  already counted.
\<close>

definition push_item :: "bytes \<Rightarrow> rlp_stream \<Rightarrow> rlp_stream option" where
  "push_item bs s = note_appended (s\<lparr>buffer := buffer s @ bs, finished_list := False\<rparr>) 1"

definition push_list :: "bytes \<Rightarrow> rlp_stream \<Rightarrow> rlp_stream option" where
  "push_list bs s = push_item bs s \<bind> (\<lambda>s'. Some (s'\<lparr>finished_list := True\<rparr>))"

lemma push_item_flag: "push_item bs (s\<lparr>finished_list := b\<rparr>) = push_item bs s"
  by (simp add: push_item_def)

lemma push_list_flag: "push_list bs (s\<lparr>finished_list := b\<rparr>) = push_list bs s"
  by (simp add: push_list_def push_item_flag)

lemma push_list_bind_finished [simp]:
  "push_list bs s \<bind> (\<lambda>s'. Some (s'\<lparr>finished_list := True\<rparr>)) = push_list bs s"
  by (simp add: push_list_def)

lemma bind_append_each_Nil [simp]: "m \<bind> append_each [] = m"
  by (cases m) simp_all

text \<open>What \<^verbatim>\<open>append\<close> may do with a value whose encoding is \<open>bs\<close>: one of the two, from every stream.\<close>

definition streams :: "(rlp_stream \<Rightarrow> rlp_stream option) \<Rightarrow> bytes \<Rightarrow> bool" where
  "streams f bs \<longleftrightarrow> (\<forall>s. append_with f s = push_item bs s \<or> append_with f s = push_list bs s)"

lemma streamsD: "streams f bs \<Longrightarrow> append_with f s = push_item bs s \<or> append_with f s = push_list bs s"
  by (simp add: streams_def)

text \<open>
  Filling a list: \<open>k\<close> of \<open>n\<close> items are in, their bytes are \<open>pre\<close>, and the rest follows.
\<close>

abbreviation filling :: "nat \<Rightarrow> nat \<Rightarrow> bytes \<Rightarrow> bytes \<Rightarrow> list_info list \<Rightarrow> bool \<Rightarrow> rlp_stream" where
  "filling k n b pre us f \<equiv> \<lparr>unfinished_lists = us @
      [\<lparr>li_position = Suc (length b), li_current = k, li_max = Some n\<rparr>],
    buffer = b @ 0 # pre, finished_list = f\<rparr>"

lemma push_item_filling_last:
  assumes "fits32 (pre @ bs)"
  shows "push_item bs (filling k (k + 1) b pre us f) =
    push_list (list_enc (pre @ bs)) \<lparr>unfinished_lists = us, buffer = b, finished_list = f'\<rparr>"
proof -
  have "insert_list_payload (length (pre @ bs)) (Suc (length b)) (b @ 0 # (pre @ bs))
      = Some (b @ list_enc (pre @ bs))"
    by (rule insert_list_payload_enc [OF assms])
  then show ?thesis
    unfolding push_list_def push_item_def
    by (subst note_appended_full [where us = us and x = "\<lparr>li_position = Suc (length b), li_current = k,
          li_max = Some (k + 1)\<rparr>"]) simp_all
qed

lemma append_each_filling:
  assumes "list_all2 streams fs bss" and "fs \<noteq> []" and "k + length fs = n"
    and "fits32 (pre @ concat bss)"
  shows "append_each fs (filling k n b pre us f) =
    push_list (list_enc (pre @ concat bss)) \<lparr>unfinished_lists = us, buffer = b, finished_list = f'\<rparr>"
  using assms
proof (induction fs bss arbitrary: k pre f rule: list_all2_induct)
  case (Cons g fs bs bss)
  note app = streamsD [OF Cons.hyps(1), of "filling k n b pre us f"]
  show ?case
  proof (cases "fs = []")
    case True
    then have n: "n = k + 1" and bss: "bss = []"
      using Cons.prems(2) Cons.hyps(2) by simp_all
    have item: "push_item bs (filling k n b pre us f) =
        push_list (list_enc (pre @ bs)) \<lparr>unfinished_lists = us, buffer = b, finished_list = f'\<rparr>"
      using Cons.prems(3) bss unfolding n by (intro push_item_filling_last) simp
    have "push_list bs (filling k n b pre us f) = push_item bs (filling k n b pre us f)"
      unfolding push_list_def [of bs] item by simp
    then show ?thesis using app True bss item by auto
  next
    case False
    then have "k + 1 < n" using Cons.prems(2) by (cases fs) simp_all
    then have "push_item bs (filling k n b pre us f) = Some (filling (k + 1) n b (pre @ bs) us False)"
      unfolding push_item_def 
      by (subst note_appended_open [where us = us and x = "\<lparr>li_position = Suc (length b), li_current = k,
            li_max = Some n\<rparr>"]) simp_all
    then obtain h where "append_with g (filling k n b pre us f) = Some (filling (k + 1) n b (pre @ bs) us h)"
      using app by (auto simp: push_list_def)
    moreover have "append_each fs (filling (k + 1) n b (pre @ bs) us h) =
        push_list (list_enc ((pre @ bs) @ concat bss)) \<lparr>unfinished_lists = us, buffer = b, finished_list = f'\<rparr>"
      using Cons.prems(2,3) False by (intro Cons.IH) simp_all
    ultimately show ?thesis by simp
  qed
qed simp

lemma begin_list_append_each:
  assumes "list_all2 streams fs bss" and "fits32 (concat bss)"
  shows "begin_list (length fs) s \<bind> append_each fs = push_list (list_enc (concat bss)) s"
proof (cases "fs = []")
  case True
  then show ?thesis using assms(1)
    by (simp add: begin_list_def push_list_def push_item_def list_enc_def byte_of_def stream_upd Let_def)
next
  case False
  have s: "s = \<lparr>unfinished_lists = unfinished_lists s, buffer = buffer s, finished_list = finished_list s\<rparr>"
    by simp
  have "begin_list (length fs) s = Some (filling 0 (length fs) (buffer s) [] (unfinished_lists s) False)"
    using False by (subst s) (simp add: begin_list_def list_info_new_def Let_def)
  then show ?thesis
    using append_each_filling [OF assms(1) False, where k = 0 and pre = "[]" and b = "buffer s"
        and us = "unfinished_lists s" and f = False and f' = "finished_list s"] assms(2)
    by (simp add: s [symmetric])
qed

lemma streams_list:
  assumes "list_all2 streams fs bss" and "fits32 (concat bss)"
  shows "streams (\<lambda>s. begin_list (length fs) s \<bind> append_each fs) (list_enc (concat bss))"
  unfolding streams_def append_with_def begin_list_append_each [OF assms]
  by (auto simp: push_list_def push_item_def bind_eq_Some_conv split: bind_splits)

text \<open>
  The interface of a type that can be encoded: what \<^verbatim>\<open>append\<close> does with a value is to push its
  encoding as one item.
\<close>

locale rlp_encodable =
  fixes app :: "'e \<Rightarrow> rlp_stream \<Rightarrow> rlp_stream option"
    and enc :: "'e \<Rightarrow> bytes"
  assumes streams_enc: "fits32 (enc v) \<Longrightarrow> streams (app v) (enc v)"
begin

lemma list_all2_streams: "fits32 (concat (map enc vs)) \<Longrightarrow> list_all2 streams (map app vs) (map enc vs)"
  by (induction vs) (simp_all add: streams_enc)

lemma append_list_enc:
  "fits32 (concat (map enc vs)) \<Longrightarrow> append_list app s vs = push_list (list_enc (concat (map enc vs))) s"
  using begin_list_append_each [OF list_all2_streams, of vs s] by (simp add: append_list_def)

lemma encode_enc: "fits32 (enc v) \<Longrightarrow> encode app v = Some (enc v)"
  using streamsD [OF streams_enc, of v stream_new]
  by (auto simp: encode_def append_rlp_def push_list_def push_item_def note_appended_Nil stream_new_def
      stream_out_def is_finished_def)

lemma encode_list_enc:
  "fits32 (concat (map enc vs)) \<Longrightarrow> encode_list app vs = Some (list_enc (concat (map enc vs)))"
  by (simp add: encode_list_def append_list_enc push_list_def push_item_def note_appended_Nil
      stream_new_def stream_out_def is_finished_def)

end

subsection \<open>Item trees are encodable\<close>

lemma length_data_enc: "length v \<le> length (data_enc v)"
  by (simp add: data_enc_def)

lemma length_list_enc: "length p < length (list_enc p)"
  by (simp add: list_enc_def)

lemma streams_value: "fits32 v \<Longrightarrow> streams (\<lambda>s. encode_value v (buffer s) \<bind> (\<lambda>b. Some (s\<lparr>buffer := b\<rparr>))) (data_enc v)"
  by (simp add: streams_def append_with_def encode_value_enc push_item_def stream_upd)

lemma streams_item: "fits32 (item_enc t) \<Longrightarrow> streams (item_append t) (item_enc t)"
proof (induction t)
  case (Data v)
  then show ?case using streams_value [of v] length_data_enc [of v] by simp
next
  case (Seq ts)
  then have fits: "fits32 (concat (map item_enc ts))"
    using length_list_enc [of "concat (map item_enc ts)"] by simp
  have "fits32 (item_enc t)" if "t \<in> set ts" for t
  proof -
    have "length (item_enc t) \<le> length (concat (map item_enc ts))"
      using that by (auto simp: length_concat dest!: split_list)
    then show ?thesis using fits by simp
  qed
  then have "list_all2 streams (map item_append ts) (map item_enc ts)"
    using Seq.IH by (simp add: list_all2_map1 list_all2_map2 list.rel_refl_strong)
  then show ?case using streams_list [of "map item_append ts" "map item_enc ts"] fits by simp
qed

interpretation item: rlp_encodable item_append item_enc
  by unfold_locales (rule streams_item)

subsection \<open>Properties\<close>

text \<open>
  C15 (the stream computes the RLP encoding). Streaming a tree of items through the encoder, which
  writes every list header only when the list's last item has arrived and moves the bytes behind
  it, yields exactly the recursively defined encoding, for every encoding below 4 GiB.
\<close>

theorem stream_encodes_tree:
  assumes "fits32 (item_enc t)"
  shows "encode item_append t = Some (item_enc t)"
  using assms by (rule item.encode_enc)

theorem stream_encodes_tree_witness:
  "encode item_append (Seq [Data [1], Seq [Data [0x85], Seq []]]) = Some [0xc5, 1, 0xc3, 0x81, 0x85, 0xc0]"
  using stream_encodes_tree [of "Seq [Data [1], Seq [Data [0x85], Seq []]]"]
  by (simp add: data_enc_def list_enc_def byte_of_def)

text \<open>
  The length header is cut to 32 bits. A value of \<open>2 ^ 32 + n\<close> bytes is written under a header
  that announces \<open>n\<close> bytes.
\<close>

theorem value_length_truncated:
  assumes "length v = 2 ^ 32 + n" and "n < 2 ^ 32"
  shows "encode_value v b = Some (b @ (0xb7 + byte_of (be_size n)) # be_min n @ v)"
proof -
  have "insert_size (length v) pos buf = insert_size n pos buf" for pos buf
    using assms by (simp add: insert_size_def)
  then have "insert_size (length v) (Suc (length b)) (b @ [0]) = Some ((b @ [0]) @ be_min n, byte_of (be_size n))"
    using insert_size_fits [OF assms(2), of "Suc (length b)" "b @ [0]"] by simp
  then show ?thesis using assms(1) by (simp add: encode_value_def set_byte_before_def Let_def)
qed

theorem value_length_truncated_witness:
  "encode_value (replicate (2 ^ 32 + 0) 0) [] = Some (0xb7 # replicate (2 ^ 32 + 0) 0)"
  using value_length_truncated [of "replicate (2 ^ 32 + 0) 0" 0 "[]"] by (simp add: byte_of_def)

lemma be_size_leading_64: "n < 2 ^ 64 \<Longrightarrow> 8 - leading_zeros 64 n div 8 = be_size n"
  using leading_zero_bytes [of n 8] by simp

text \<open>
  The size estimate is exact. With one bounded list open, \<^verbatim>\<open>estimate_size\<close> announces the exact size
  of the finished output when the raw bytes appended next complete the list.
\<close>

theorem estimate_size_exact:
  assumes "unfinished_lists s = [x]" and "li_max x = Some (li_current x + n)"
    and "0 < li_position x" and "li_position x \<le> length (buffer s)"
    and "length (buffer s) + length bs < 2 ^ 32"
  shows "\<exists>s'. append_raw bs n s = Some s' \<and> unfinished_lists s' = [] \<and>
    length (buffer s') = estimate_size (length bs) s"
proof -
  let ?buf = "buffer s @ bs"
  let ?len = "length ?buf - li_position x"
  have len: "?len < 2 ^ 32" using assms(5) by simp
  obtain buf where buf: "insert_list_payload ?len (li_position x) ?buf = Some buf"
    and size: "length buf = estimate_size (length bs) s"
  proof (cases "?len \<le> 55")
    case True
    then show ?thesis using assms that
      by (simp add: insert_list_payload_def set_byte_before_def estimate_size_def Let_def)
  next
    case False
    have "8 - leading_zeros 64 ?len div 8 = be_size ?len" using len by (intro be_size_leading_64) simp
    then show ?thesis using assms that False insert_size_fits [OF len, of "li_position x" ?buf]
      by (simp add: insert_list_payload_def set_byte_before_def estimate_size_def Let_def)
  qed
  have "append_raw bs n s = Some (s\<lparr>unfinished_lists := [], buffer := buf, finished_list := True\<rparr>)"
    using assms(1,2) buf unfolding append_raw_def
    by (subst note_appended_full [where us = "[]" and x = x and buf = buf]) (simp_all add: note_appended_Nil)
  then show ?thesis using size by simp
qed

theorem estimate_size_exact_witness:
  "\<exists>s'. append_raw [7] 1 \<lparr>unfinished_lists = [\<lparr>li_position = 1, li_current = 0, li_max = Some 1\<rparr>],
      buffer = [0], finished_list = False\<rparr> = Some s' \<and> unfinished_lists s' = [] \<and> length (buffer s') = Suc 1"
  using estimate_size_exact [of "\<lparr>unfinished_lists = [\<lparr>li_position = 1, li_current = 0, li_max = Some 1\<rparr>],
      buffer = [0], finished_list = False\<rparr>" "\<lparr>li_position = 1, li_current = 0, li_max = Some 1\<rparr>" 1 "[7]"]
  by (simp add: estimate_size_def)

end
