(* ===== verification/Rlp_Decode.thy ===== *)
theory Rlp_Decode
  imports Rlp_Stream
begin

text \<open>
  The RLP reader of \<^verbatim>\<open>src/util/rlp/src/untrusted_rlp.rs\<close>: headers, the view with its offset and
  count caches, the iterator and the value decoder. A view keeps its caches in cells, so the
  operations that write them return the view as well. The lemmas show that the caches are
  transparent (the cached lookup is the plain one), that no input makes the reader panic, and
  that it reads back the items of an encoded tree.
\<close>

subsection \<open>Errors and headers\<close>

datatype decoder_error =
    RlpIsTooBig
  | RlpIsTooShort
  | RlpExpectedToBeList
  | RlpExpectedToBeData
  | RlpIncorrectListLen
  | RlpDataLenWithZeroPrefix
  | RlpListLenWithZeroPrefix
  | RlpInvalidIndirection
  | RlpInconsistentLengthAndData
  | RlpInvalidLength
  | Custom string

type_synonym 'a decoded = "(decoder_error, 'a) outcome"

text \<open>The loop that adds the shifted bytes, for a slice of \<open>l\<close> bytes.\<close>

definition shifted_sum :: "bytes \<Rightarrow> nat" where
  "shifted_sum bs =
     (let l = length bs in foldl (\<lambda>res i. res + unat (bs ! i) * 2 ^ ((l - 1 - i) * 8)) 0 [0..<l])"

definition decode_usize :: "bytes \<Rightarrow> nat decoded" where
  "decode_usize bs =
     (if length bs \<le> 8 then
        (if bs = [] then Panic
         else if bs ! 0 = 0 \<and> length bs > 1 then Err RlpInvalidIndirection
         else Ok (shifted_sum bs))
      else Err RlpIsTooBig)"

record payload_info =
  header_len :: nat
  value_len :: nat

definition payload_info_new :: "nat \<Rightarrow> nat \<Rightarrow> payload_info" where
  "payload_info_new h v = \<lparr>header_len = h, value_len = v\<rparr>"

definition payload_total :: "payload_info \<Rightarrow> nat" where
  "payload_total p = header_len p + value_len p"

definition calculate_payload_info :: "bytes \<Rightarrow> nat \<Rightarrow> payload_info decoded" where
  "calculate_payload_info header_bytes len_of_len =
     (let hl = 1 + len_of_len in
      if length header_bytes \<le> 1 then Err RlpIsTooShort
      else if header_bytes ! 1 = 0 then Err RlpDataLenWithZeroPrefix
      else if length header_bytes < hl then Err RlpIsTooShort
      else try_ok (decode_usize (take (hl - 1) (drop 1 header_bytes)))
             (\<lambda>vl. Ok (payload_info_new hl vl)))"

definition payload_info_from :: "bytes \<Rightarrow> payload_info decoded" where
  "payload_info_from header_bytes =
     (case header_bytes of
        [] \<Rightarrow> Err RlpIsTooShort
      | l # _ \<Rightarrow>
          if l \<le> 0x7f then Ok (payload_info_new 0 1)
          else if l \<le> 0xb7 then Ok (payload_info_new 1 (unat l - 0x80))
          else if l \<le> 0xbf then calculate_payload_info header_bytes (unat l - 0xb7)
          else if l \<le> 0xf7 then Ok (payload_info_new 1 (unat l - 0xc0))
          else calculate_payload_info header_bytes (unat l - 0xf7))"

text \<open>\<^verbatim>\<open>BasicDecoder::payload_info\<close>: the header, and that the item fits into the bytes.\<close>

definition payload_info_of :: "bytes \<Rightarrow> payload_info decoded" where
  "payload_info_of bs =
     try_ok (payload_info_from bs) (\<lambda>item.
       (case checked_add (header_len item) (value_len item) of
          Some x \<Rightarrow> if x \<le> length bs then Ok item else Err RlpIsTooShort
        | None \<Rightarrow> Err RlpIsTooShort))"

definition consume :: "bytes \<Rightarrow> nat \<Rightarrow> bytes decoded" where
  "consume bs len = (if len \<le> length bs then Ok (drop len bs) else Err RlpIsTooShort)"

fun consume_items :: "bytes \<Rightarrow> nat \<Rightarrow> bytes decoded" where
  "consume_items bs 0 = Ok bs"
| "consume_items bs (Suc n) =
     try_ok (payload_info_of bs) (\<lambda>i.
       try_ok (consume bs (header_len i + value_len i)) (\<lambda>rest. consume_items rest n))"

subsection \<open>The view and its caches\<close>

record offset_cache =
  oc_index :: nat
  oc_offset :: nat

record untrusted_rlp =
  raw :: bytes
  offset_cache :: offset_cache
  count_cache :: "nat option"

definition rlp_new :: "bytes \<Rightarrow> untrusted_rlp" where
  "rlp_new bs = \<lparr>raw = bs, offset_cache = \<lparr>oc_index = usize_max, oc_offset = 0\<rparr>, count_cache = None\<rparr>"

definition is_null :: "untrusted_rlp \<Rightarrow> bool" where
  "is_null r \<longleftrightarrow> length (raw r) = 0"

definition is_list :: "untrusted_rlp \<Rightarrow> bool" where
  "is_list r \<longleftrightarrow> \<not> is_null r \<and> 0xc0 \<le> raw r ! 0"

definition is_data :: "untrusted_rlp \<Rightarrow> bool" where
  "is_data r \<longleftrightarrow> \<not> is_null r \<and> raw r ! 0 < 0xc0"

definition is_empty :: "untrusted_rlp \<Rightarrow> bool" where
  "is_empty r \<longleftrightarrow> \<not> is_null r \<and> (raw r ! 0 = 0xc0 \<or> raw r ! 0 = 0x80)"

text \<open>\<^verbatim>\<open>is_int\<close> reads past the end of a truncated view, which panics.\<close>

definition is_int :: "untrusted_rlp \<Rightarrow> bool option" where
  "is_int r =
     (if is_null r then Some False
      else let b = raw r ! 0 in
        if b \<le> 0x80 then Some True
        else if b \<le> 0xb7 then (if 1 < length (raw r) then Some (raw r ! 1 \<noteq> 0) else None)
        else if b \<le> 0xbf then
          (let i = 1 + unat b - 0xb7
           in if i < length (raw r) then Some (raw r ! i \<noteq> 0) else None)
        else Some False)"

definition rlp_data :: "untrusted_rlp \<Rightarrow> bytes decoded" where
  "rlp_data r =
     try_ok (payload_info_of (raw r)) (\<lambda>pi. Ok (take (value_len pi) (drop (header_len pi) (raw r))))"

definition rlp_size :: "untrusted_rlp \<Rightarrow> nat" where
  "rlp_size r =
     (if is_data r then (case payload_info_of (raw r) of Ok b \<Rightarrow> value_len b | _ \<Rightarrow> 0) else 0)"

definition consume_list_payload :: "bytes \<Rightarrow> bytes decoded" where
  "consume_list_payload bs = try_ok (payload_info_of bs) (\<lambda>item. consume bs (header_len item))"

definition rlp_at :: "untrusted_rlp \<Rightarrow> nat \<Rightarrow> untrusted_rlp \<times> untrusted_rlp decoded" where
  "rlp_at r index =
     (if \<not> is_list r then (r, Err RlpExpectedToBeList)
      else let c = offset_cache r;
               start = (if oc_index c \<le> index
                        then map_ok (\<lambda>bs. (bs, index - oc_index c)) (consume (raw r) (oc_offset c))
                        else map_ok (\<lambda>bs. (bs, index)) (consume_list_payload (raw r)))
           in (case try_ok start (\<lambda>(bs, to_skip). consume_items bs to_skip) of
                 Err e \<Rightarrow> (r, Err e)
               | Panic \<Rightarrow> (r, Panic)
               | Ok bs \<Rightarrow>
                   (r\<lparr>offset_cache := \<lparr>oc_index = index, oc_offset = length (raw r) - length bs\<rparr>\<rparr>,
                    map_ok (\<lambda>found. rlp_new (take (header_len found + value_len found) bs))
                      (payload_info_of bs))))"

text \<open>
  The iterator calls \<^verbatim>\<open>at\<close> for 0, 1, \<dots> and ends at the first error. \<open>iter_from fuel r i\<close> collects
  what it yields from index \<open>i\<close> in at most \<open>fuel\<close> steps, with the view as the calls leave it;
  an item takes at least one byte, so the number of bytes is fuel enough (\<open>iter_from_items\<close>).
\<close>

fun iter_from :: "nat \<Rightarrow> untrusted_rlp \<Rightarrow> nat \<Rightarrow> untrusted_rlp \<times> untrusted_rlp list" where
  "iter_from 0 r i = (r, [])"
| "iter_from (Suc fuel) r i =
     (case rlp_at r i of
        (r', Ok x) \<Rightarrow> (case iter_from fuel r' (i + 1) of (r'', xs) \<Rightarrow> (r'', x # xs))
      | (r', _) \<Rightarrow> (r', []))"

definition rlp_iter :: "untrusted_rlp \<Rightarrow> untrusted_rlp \<times> untrusted_rlp list" where
  "rlp_iter r = iter_from (length (raw r)) r 0"

definition item_count :: "untrusted_rlp \<Rightarrow> untrusted_rlp \<times> nat decoded" where
  "item_count r =
     (if is_list r then
        (case count_cache r of
           Some c \<Rightarrow> (r, Ok c)
         | None \<Rightarrow> (case rlp_iter r of (r', xs) \<Rightarrow>
             (r'\<lparr>count_cache := Some (length xs)\<rparr>, Ok (length xs))))
      else (r, Err RlpExpectedToBeList))"

datatype prototype = Null | PData nat | PList nat

definition rlp_prototype :: "untrusted_rlp \<Rightarrow> untrusted_rlp \<times> prototype decoded" where
  "rlp_prototype r =
     (if is_data r then (r, Ok (PData (rlp_size r)))
      else if is_list r then (case item_count r of (r', n) \<Rightarrow> (r', map_ok PList n))
      else (r, Ok Null))"

subsection \<open>Values\<close>

definition decode_value :: "(bytes \<Rightarrow> 'a decoded) \<Rightarrow> bytes \<Rightarrow> 'a decoded" where
  "decode_value f bs =
     (case bs of
        [] \<Rightarrow> Err RlpIsTooShort
      | l # _ \<Rightarrow>
          if l \<le> 0x7f then f [l]
          else if l \<le> 0xb7 then
            (let last_index_of = 1 + unat l - 0x80 in
             if length bs < last_index_of then Err RlpInconsistentLengthAndData
             else let d = take (last_index_of - 1) (drop 1 bs) in
               if l = 0x81 \<and> d ! 0 < 0x80 then Err RlpInvalidIndirection else f d)
          else if l \<le> 0xbf then
            (let len_of_len = unat l - 0xb7; begin_of_value = 1 + len_of_len in
             if length bs < begin_of_value then Err RlpInconsistentLengthAndData
             else try_ok (decode_usize (take len_of_len (drop 1 bs))) (\<lambda>len.
               (case checked_add begin_of_value len of
                  None \<Rightarrow> Err RlpInvalidLength
                | Some last_index_of_value \<Rightarrow>
                    if length bs < last_index_of_value then Err RlpInconsistentLengthAndData
                    else f (take len (drop begin_of_value bs)))))
          else Err RlpExpectedToBeData)"

text \<open>\<^verbatim>\<open>as_list\<close>: every element the iterator yields is decoded; the first error is the result.\<close>

fun decode_all :: "(bytes \<Rightarrow> 'a decoded) \<Rightarrow> untrusted_rlp list \<Rightarrow> 'a list decoded" where
  "decode_all dec [] = Ok []"
| "decode_all dec (x # xs) =
     try_ok (dec (raw x)) (\<lambda>a. try_ok (decode_all dec xs) (\<lambda>as. Ok (a # as)))"

definition rlp_as_list :: "(bytes \<Rightarrow> 'a decoded) \<Rightarrow> untrusted_rlp \<Rightarrow> 'a list decoded" where
  "rlp_as_list dec r = decode_all dec (snd (rlp_iter r))"

definition val_at :: "(bytes \<Rightarrow> 'a decoded) \<Rightarrow> untrusted_rlp \<Rightarrow> nat \<Rightarrow> 'a decoded" where
  "val_at dec r index = try_ok (snd (rlp_at r index)) (\<lambda>x. dec (raw x))"

subsection \<open>Headers of encoded items\<close>

lemma foldl_upt_shift:
  "foldl (\<lambda>res i. res + unat ((xs @ [x]) ! i) * 2 ^ ((length xs - i) * 8)) a [0..<n]
   = a + 256 * foldl (\<lambda>res i. res + unat (xs ! i) * 2 ^ ((length xs - 1 - i) * 8)) 0 [0..<n]"
  if "n \<le> length xs" for xs :: bytes
  using that
proof (induction n)
  case (Suc n)
  then have "length xs - n = Suc (length xs - 1 - n)" by simp
  then have "(2::nat) ^ ((length xs - n) * 8) = 256 * 2 ^ ((length xs - 1 - n) * 8)"
    by (simp add: power_add)
  with Suc show ?case by (simp add: nth_append algebra_simps)
qed simp

lemma shifted_sum_be_val [be_simps]: "shifted_sum bs = be_val bs"
proof (induction bs rule: rev_induct)
  case Nil
  show ?case by (simp add: shifted_sum_def)
next
  case (snoc x xs)
  have "shifted_sum (xs @ [x]) = 256 * shifted_sum xs + unat x"
    using foldl_upt_shift [of "length xs" xs x 0] by (simp add: shifted_sum_def Let_def)
  with snoc show ?case by simp
qed

lemma decode_usize_be_min: "0 < n \<Longrightarrow> n < 2 ^ 64 \<Longrightarrow> decode_usize (be_min n) = Ok n"
proof -
  assume n: "0 < n" "n < 2 ^ 64"
  have "be_size n \<le> 8" using n(2) by (simp add: be_size_le_iff)
  moreover have "be_min n ! 0 \<noteq> 0" using be_min_leading [OF n(1)] n(1) by (simp add: hd_conv_nth)
  ultimately show ?thesis using n(1) by (simp add: decode_usize_def shifted_sum_be_val)
qed

lemma unat_byte_add: "unat c + k < 256 \<Longrightarrow> unat (c + byte_of k) = unat c + k"
  by (simp add: unat_word_ariths)

lemmas byte_le = word_le_nat_alt word_less_nat_alt

lemma calculate_payload_info_be_min:
  assumes "0 < n" and "n < 2 ^ 32"
  shows "calculate_payload_info (l # be_min n @ rest) (be_size n) = Ok (payload_info_new (1 + be_size n) n)"
proof -
  have ne: "be_min n \<noteq> []" using assms(1) by simp
  then have "(l # be_min n @ rest) ! 1 = hd (be_min n)" by (simp add: nth_append hd_conv_nth)
  then have "(l # be_min n @ rest) ! 1 \<noteq> 0" using be_min_leading [OF assms(1)] by simp
  moreover have "\<not> length (l # be_min n @ rest) \<le> 1" using assms(1) by simp
  moreover have "decode_usize (be_min n) = Ok n" using assms by (intro decode_usize_be_min) simp_all
  ultimately show ?thesis by (simp add: calculate_payload_info_def)
qed

lemma be_size_32: "n < 2 ^ 32 \<Longrightarrow> be_size n \<le> 4"
  by (simp add: be_size_le_iff)

lemma payload_info_from_data:
  assumes "fits32 v"
  shows "payload_info_from (data_enc v @ rest) =
    Ok (payload_info_new (length (data_enc v) - length v) (length v))"
proof -
  consider (empty) "v = []" | (single) x where "v = [x]" "x < 0x80"
    | (short) "v \<noteq> []" "\<not> (length v = 1 \<and> hd v < 0x80)" "length v \<le> 55"
    | (long) "length v > 55"
  proof (cases v)
    case (Cons x xs)
    then show ?thesis using single short long by (cases xs) force+
  qed (use empty in simp)
  then show ?thesis
  proof cases
    case (single x)
    then show ?thesis by (simp add: payload_info_from_def data_enc_def byte_le)
  next
    case short
    then have "unat (0x80 + byte_of (length v)) = 128 + length v" by (subst unat_byte_add) simp_all
    with short show ?thesis by (auto simp: payload_info_from_def data_enc_def byte_le)
  next
    case long
    let ?k = "be_size (length v)"
    have k: "0 < ?k" "?k \<le> 4" using long assms be_size_32 by auto
    then have "unat (0xb7 + byte_of ?k) = 183 + ?k" by (subst unat_byte_add) simp_all
    moreover have "calculate_payload_info ((0xb7 + byte_of ?k) # be_min (length v) @ v @ rest) ?k
        = Ok (payload_info_new (1 + ?k) (length v))"
      using assms long by (intro calculate_payload_info_be_min) auto
    ultimately show ?thesis using long k
      by (auto simp: payload_info_from_def data_enc_def byte_le)
  qed (simp add: payload_info_from_def data_enc_def byte_le)
qed

lemma payload_info_from_list:
  assumes "fits32 p"
  shows "payload_info_from (list_enc p @ rest) =
    Ok (payload_info_new (length (list_enc p) - length p) (length p))"
proof (cases "length p \<le> 55")
  case True
  then have "unat (0xc0 + byte_of (length p)) = 192 + length p" by (subst unat_byte_add) simp_all
  with True show ?thesis by (simp add: payload_info_from_def list_enc_def byte_le)
next
  case False
  let ?k = "be_size (length p)"
  have k: "0 < ?k" "?k \<le> 4" using False assms be_size_32 by auto
  then have "unat (0xf7 + byte_of ?k) = 247 + ?k" by (subst unat_byte_add) simp_all
  moreover have "calculate_payload_info ((0xf7 + byte_of ?k) # be_min (length p) @ p @ rest) ?k
      = Ok (payload_info_new (1 + ?k) (length p))"
    using assms False by (intro calculate_payload_info_be_min) auto
  ultimately show ?thesis using False k
    by (simp add: payload_info_from_def list_enc_def byte_le)
qed

lemma payload_info_of_intro:
  assumes "payload_info_from (bs @ rest) = Ok pi" and "header_len pi + value_len pi = length bs"
    and "fits32 bs"
  shows "payload_info_of (bs @ rest) = Ok pi"
  using assms by (simp add: payload_info_of_def checked_add_def usize_max_def)

lemma payload_info_of_data:
  assumes "fits32 (data_enc v)"
  shows "payload_info_of (data_enc v @ rest) = Ok (payload_info_new (length (data_enc v) - length v) (length v))"
  using assms length_data_enc [of v]
  by (intro payload_info_of_intro payload_info_from_data) (simp_all add: payload_info_new_def)

lemma payload_info_of_list:
  assumes "fits32 (list_enc p)"
  shows "payload_info_of (list_enc p @ rest) = Ok (payload_info_new (length (list_enc p) - length p) (length p))"
  using assms length_list_enc [of p]
  by (intro payload_info_of_intro payload_info_from_list) (simp_all add: payload_info_new_def)

text \<open>A byte string that the reader takes for exactly one item, whatever follows.\<close>

definition framed :: "bytes \<Rightarrow> bool" where
  "framed bs \<longleftrightarrow> (\<forall>rest. \<exists>pi. payload_info_of (bs @ rest) = Ok pi \<and> header_len pi + value_len pi = length bs)"

lemma framed_item: "fits32 (item_enc t) \<Longrightarrow> framed (item_enc t)"
proof (cases t)
  case (Data v)
  assume "fits32 (item_enc t)"
  then show ?thesis using Data length_data_enc [of v]
    by (simp add: framed_def payload_info_of_data payload_info_new_def)
next
  case (Seq ts)
  assume "fits32 (item_enc t)"
  then show ?thesis using Seq length_list_enc [of "concat (map item_enc ts)"]
    by (simp add: framed_def payload_info_of_list payload_info_new_def)
qed

subsection \<open>No input makes the reader panic\<close>

lemma decode_usize_no_panic: "bs \<noteq> [] \<Longrightarrow> decode_usize bs \<noteq> Panic"
  by (simp add: decode_usize_def)

lemma calculate_payload_info_no_panic: "0 < n \<Longrightarrow> calculate_payload_info bs n \<noteq> Panic"
  by (auto simp: calculate_payload_info_def Let_def try_ok_eq_Panic_iff decode_usize_no_panic)

lemma payload_info_from_no_panic: "payload_info_from bs \<noteq> Panic"
  by (auto simp: payload_info_from_def calculate_payload_info_no_panic byte_le split: list.splits)

lemma payload_info_of_no_panic: "payload_info_of bs \<noteq> Panic"
  by (auto simp: payload_info_of_def try_ok_eq_Panic_iff payload_info_from_no_panic split: option.splits)

lemma consume_no_panic: "consume bs n \<noteq> Panic"
  by (simp add: consume_def)

lemma consume_items_no_panic: "consume_items bs n \<noteq> Panic"
  by (induction n arbitrary: bs) (simp_all add: try_ok_eq_Panic_iff payload_info_of_no_panic consume_no_panic)

lemma consume_list_payload_no_panic: "consume_list_payload bs \<noteq> Panic"
  by (simp add: consume_list_payload_def try_ok_eq_Panic_iff payload_info_of_no_panic consume_no_panic)

lemma rlp_at_no_panic: "snd (rlp_at r i) \<noteq> Panic"
  by (auto simp: rlp_at_def Let_def consume_no_panic consume_items_no_panic consume_list_payload_no_panic
      payload_info_of_no_panic try_ok_eq_Panic_iff split: outcome.splits if_splits)

lemma item_count_no_panic: "snd (item_count r) \<noteq> Panic"
  by (simp add: item_count_def split: option.splits prod.splits)

lemma rlp_data_no_panic: "rlp_data r \<noteq> Panic"
  by (simp add: rlp_data_def try_ok_eq_Panic_iff payload_info_of_no_panic)

lemma decode_value_no_panic:
  assumes "\<And>d. f d \<noteq> Panic"
  shows "decode_value f bs \<noteq> Panic"
  using assms
  by (auto simp: decode_value_def Let_def try_ok_eq_Panic_iff decode_usize_no_panic byte_le
      split: list.splits option.splits)

subsection \<open>The plain reader\<close>

text \<open>What the reader means without its caches: the items that follow a list's header.\<close>

lemma payload_info_from_pos: "payload_info_from bs = Ok pi \<Longrightarrow> 0 < header_len pi + value_len pi"
  by (auto simp: payload_info_from_def calculate_payload_info_def payload_info_new_def Let_def
      try_ok_eq_Ok_iff split: list.splits if_splits)

lemma payload_info_of_bounds:
  assumes "payload_info_of bs = Ok pi"
  shows "0 < header_len pi + value_len pi" and "header_len pi + value_len pi \<le> length bs"
  using assms
  by (auto simp: payload_info_of_def try_ok_eq_Ok_iff checked_add_def
      dest: payload_info_from_pos split: option.splits if_splits)

function split_items :: "bytes \<Rightarrow> bytes list" where
  "split_items bs =
     (case payload_info_of bs of
        Ok pi \<Rightarrow> let n = header_len pi + value_len pi in take n bs # split_items (drop n bs)
      | _ \<Rightarrow> [])"
  by pat_completeness auto
termination
proof (relation "measure length")
  fix bs pi n
  assume "payload_info_of bs = Ok pi" and "n = header_len pi + value_len pi"
  then show "(drop n bs, bs) \<in> measure length" using payload_info_of_bounds [of bs pi] by (simp, linarith)
qed simp

declare split_items.simps [simp del]

lemma split_items_Ok:
  "payload_info_of bs = Ok pi \<Longrightarrow>
   split_items bs = take (header_len pi + value_len pi) bs # split_items (drop (header_len pi + value_len pi) bs)"
  by (subst split_items.simps) (simp add: Let_def)

lemma split_items_Nil: "(\<And>pi. payload_info_of bs \<noteq> Ok pi) \<Longrightarrow> split_items bs = []"
  by (subst split_items.simps) (auto split: outcome.splits)

definition rlp_at_spec :: "bytes \<Rightarrow> nat \<Rightarrow> bytes decoded" where
  "rlp_at_spec bs index =
     (if is_list (rlp_new bs)
      then try_ok (consume_list_payload bs) (\<lambda>p. try_ok (consume_items p index) (\<lambda>rest.
        map_ok (\<lambda>found. take (header_len found + value_len found) rest) (payload_info_of rest)))
      else Err RlpExpectedToBeList)"

lemma consume_items_Ok_suffix: "consume_items bs n = Ok rest \<Longrightarrow> \<exists>k. rest = drop k bs"
proof (induction n arbitrary: bs)
  case 0
  then show ?case by (metis consume_items.simps(1) drop0 outcome.inject(1))
next
  case (Suc n)
  then show ?case by (fastforce simp: try_ok_eq_Ok_iff consume_def split: if_splits)
qed

lemma consume_list_payload_suffix: "consume_list_payload bs = Ok p \<Longrightarrow> \<exists>k. p = drop k bs"
  by (auto simp: consume_list_payload_def try_ok_eq_Ok_iff consume_def split: if_splits)

lemma suffix_by_length: "rest = drop k bs \<Longrightarrow> drop (length bs - length rest) bs = rest"
  by (cases "k \<le> length bs") simp_all

lemma consume_items_add:
  "consume_items bs (m + n) = try_ok (consume_items bs m) (\<lambda>rest. consume_items rest n)"
proof (induction m arbitrary: bs)
  case (Suc m)
  then show ?case by (simp add: try_ok_def split: outcome.splits)
qed simp

lemma length_split_items: "length (split_items bs) \<le> length bs"
proof (induction bs rule: split_items.induct)
  case (1 bs)
  show ?case
  proof (cases "payload_info_of bs")
    case (Ok pi)
    let ?n = "header_len pi + value_len pi"
    have "length (split_items (drop ?n bs)) \<le> length bs - ?n" using 1 [OF Ok refl] by simp
    then show ?thesis using payload_info_of_bounds [OF Ok] unfolding split_items_Ok [OF Ok] length_Cons
      by linarith
  qed (simp_all add: split_items_Nil)
qed

text \<open>Looking an item up by its index is indexing the list of items.\<close>

lemma consume_items_nth:
  "try_ok (consume_items p i) (\<lambda>rest.
     map_ok (\<lambda>f. take (header_len f + value_len f) rest) (payload_info_of rest)) = Ok x
   \<longleftrightarrow> i < length (split_items p) \<and> x = split_items p ! i"
proof (induction i arbitrary: p)
  case 0
  show ?case
    by (cases "payload_info_of p") (auto simp: split_items_Ok split_items_Nil)
next
  case (Suc i)
  show ?case
  proof (cases "payload_info_of p")
    case (Ok pi)
    let ?n = "header_len pi + value_len pi"
    have "consume p ?n = Ok (drop ?n p)" using payload_info_of_bounds [OF Ok] by (simp add: consume_def)
    then show ?thesis using Suc.IH [of "drop ?n p"] by (simp add: Ok split_items_Ok [OF Ok])
  qed (simp_all add: split_items_Nil)
qed

lemma rlp_at_spec_Ok_iff:
  assumes "is_list (rlp_new bs)" and "consume_list_payload bs = Ok p"
  shows "rlp_at_spec bs i = Ok x \<longleftrightarrow> i < length (split_items p) \<and> x = split_items p ! i"
  using assms by (simp add: rlp_at_spec_def consume_items_nth)

subsection \<open>The caches are transparent\<close>

text \<open>A view is coherent when its cached offset is where the plain reader would be.\<close>

definition offset_coherent :: "untrusted_rlp \<Rightarrow> bool" where
  "offset_coherent r \<longleftrightarrow> oc_index (offset_cache r) = usize_max \<or>
     (\<exists>p rest. consume_list_payload (raw r) = Ok p \<and> consume_items p (oc_index (offset_cache r)) = Ok rest \<and>
        oc_offset (offset_cache r) = length (raw r) - length rest)"

definition count_spec :: "bytes \<Rightarrow> nat" where
  "count_spec bs = (case consume_list_payload bs of Ok p \<Rightarrow> length (split_items p) | _ \<Rightarrow> 0)"

definition coherent :: "untrusted_rlp \<Rightarrow> bool" where
  "coherent r \<longleftrightarrow> offset_coherent r \<and> (count_cache r = None \<or> count_cache r = Some (count_spec (raw r)))"

lemma coherent_new: "coherent (rlp_new bs)"
  by (simp add: coherent_def offset_coherent_def rlp_new_def)

lemma offset_coherent_resume:
  assumes "offset_coherent r" and "i < usize_max" and "oc_index (offset_cache r) \<le> i"
    and "consume_list_payload (raw r) = Ok p"
  shows "try_ok (consume (raw r) (oc_offset (offset_cache r)))
           (\<lambda>bs. consume_items bs (i - oc_index (offset_cache r))) = consume_items p i"
proof -
  let ?k = "oc_index (offset_cache r)"
  obtain rest where rest: "consume_items p ?k = Ok rest"
    and off: "oc_offset (offset_cache r) = length (raw r) - length rest"
    using assms by (auto simp: offset_coherent_def)
  obtain k where "rest = drop k (raw r)"
    using consume_items_Ok_suffix [OF rest] consume_list_payload_suffix [OF assms(4)] by auto
  then have "consume (raw r) (oc_offset (offset_cache r)) = Ok rest"
    using suffix_by_length [of rest k "raw r"] by (simp add: consume_def off)
  moreover have "consume_items p i = consume_items rest (i - ?k)"
    using consume_items_add [of p ?k "i - ?k"] rest assms(3) by simp
  ultimately show ?thesis by simp
qed

lemma rlp_at_spec_start:
  assumes "coherent r" and "i < usize_max" and "is_list r"
  shows "try_ok (if oc_index (offset_cache r) \<le> i
           then map_ok (\<lambda>bs. (bs, i - oc_index (offset_cache r))) (consume (raw r) (oc_offset (offset_cache r)))
           else map_ok (\<lambda>bs. (bs, i)) (consume_list_payload (raw r))) (\<lambda>(bs, to_skip). consume_items bs to_skip)
    = try_ok (consume_list_payload (raw r)) (\<lambda>p. consume_items p i)"
proof -
  have bind_map: "try_ok (map_ok (\<lambda>bs. (bs, n)) m) (\<lambda>(bs, to_skip). consume_items bs to_skip)
      = try_ok m (\<lambda>bs. consume_items bs n)" for m n
    by (cases m) simp_all
  show ?thesis
  proof (cases "oc_index (offset_cache r) \<le> i")
    case True
    then obtain p where p: "consume_list_payload (raw r) = Ok p"
      using assms(1,2) by (auto simp: coherent_def offset_coherent_def)
    have "offset_coherent r" using assms(1) by (simp add: coherent_def)
    from offset_coherent_resume [OF this assms(2) True p] True p show ?thesis by (simp add: bind_map)
  qed (simp add: bind_map)
qed

lemma is_list_raw: "is_list (rlp_new (raw r)) = is_list r"
  by (simp add: is_list_def is_null_def rlp_new_def)

lemma rlp_at_list:
  assumes "coherent r" and "i < usize_max" and "is_list r"
  shows "rlp_at r i =
    (case try_ok (consume_list_payload (raw r)) (\<lambda>p. consume_items p i) of
       Err e \<Rightarrow> (r, Err e)
     | Panic \<Rightarrow> (r, Panic)
     | Ok bs \<Rightarrow>
         (r\<lparr>offset_cache := \<lparr>oc_index = i, oc_offset = length (raw r) - length bs\<rparr>\<rparr>,
          map_ok (\<lambda>found. rlp_new (take (header_len found + value_len found) bs)) (payload_info_of bs)))"
  using assms(3) by (simp only: rlp_at_def Let_def rlp_at_spec_start [OF assms] not_True_eq_False if_False)

lemma rlp_at_refines:
  assumes "coherent r" and "i < usize_max"
  shows "snd (rlp_at r i) = map_ok rlp_new (rlp_at_spec (raw r) i)"
proof (cases "is_list r")
  case True
  let ?m = "try_ok (consume_list_payload (raw r)) (\<lambda>p. consume_items p i)"
  have "rlp_at_spec (raw r) i = try_ok ?m (\<lambda>rest.
      map_ok (\<lambda>found. take (header_len found + value_len found) rest) (payload_info_of rest))"
    using True by (simp add: rlp_at_spec_def is_list_raw try_ok_assoc)
  then show ?thesis
    by (cases ?m) (simp_all add: rlp_at_list [OF assms True] map_ok_comp)
qed (simp add: rlp_at_def rlp_at_spec_def is_list_raw)

lemma rlp_at_view [simp]: "raw (fst (rlp_at r i)) = raw r" "count_cache (fst (rlp_at r i)) = count_cache r"
  by (simp_all add: rlp_at_def Let_def split: outcome.splits)

lemma rlp_at_coherent:
  assumes "coherent r" and "i < usize_max"
  shows "coherent (fst (rlp_at r i))"
proof (cases "is_list r \<and> (\<exists>bs. try_ok (consume_list_payload (raw r)) (\<lambda>p. consume_items p i) = Ok bs)")
  case True
  then obtain bs where bs: "try_ok (consume_list_payload (raw r)) (\<lambda>p. consume_items p i) = Ok bs"
    and list: "is_list r" by auto
  have r': "fst (rlp_at r i) = r\<lparr>offset_cache := \<lparr>oc_index = i, oc_offset = length (raw r) - length bs\<rparr>\<rparr>"
    by (simp add: rlp_at_list [OF assms list] bs)
  obtain p where "consume_list_payload (raw r) = Ok p" "consume_items p i = Ok bs"
    using bs unfolding try_ok_eq_Ok_iff by blast
  then have "offset_coherent (fst (rlp_at r i))" unfolding r' offset_coherent_def by simp
  moreover have "count_cache (fst (rlp_at r i)) = None \<or>
      count_cache (fst (rlp_at r i)) = Some (count_spec (raw (fst (rlp_at r i))))"
    using assms(1) unfolding r' coherent_def by simp
  ultimately show ?thesis unfolding coherent_def by blast
next
  case False
  then have "fst (rlp_at r i) = r"
  proof (cases "is_list r")
    case True
    then show ?thesis using False by (auto simp: rlp_at_list [OF assms True] split: outcome.splits)
  qed (simp add: rlp_at_def)
  then show ?thesis using assms(1) by simp
qed

lemma rlp_at_item:
  assumes "coherent r" and "is_list r" and "consume_list_payload (raw r) = Ok p" and "i < usize_max"
  shows "i < length (split_items p) \<Longrightarrow> snd (rlp_at r i) = Ok (rlp_new (split_items p ! i))"
    and "length (split_items p) \<le> i \<Longrightarrow> \<exists>e. snd (rlp_at r i) = Err e"
proof -
  have "is_list (rlp_new (raw r))" using assms(2) by (simp add: is_list_raw)
  note ok = rlp_at_spec_Ok_iff [OF this assms(3)]
  note ref = rlp_at_refines [OF assms(1,4)]
  show "i < length (split_items p) \<Longrightarrow> snd (rlp_at r i) = Ok (rlp_new (split_items p ! i))"
    using ok [of i "split_items p ! i"] ref by simp
  show "length (split_items p) \<le> i \<Longrightarrow> \<exists>e. snd (rlp_at r i) = Err e"
    using ok [of i] ref rlp_at_no_panic [of r i] by (cases "rlp_at_spec (raw r) i") auto
qed

lemma iter_from_items:
  assumes "coherent r" and "is_list r" and "consume_list_payload (raw r) = Ok p"
    and "length (raw r) < usize_max" and "length (split_items p) \<le> fuel + i" and "i \<le> length (split_items p)"
  shows "snd (iter_from fuel r i) = map rlp_new (drop i (split_items p))
    \<and> coherent (fst (iter_from fuel r i))"
  using assms
proof (induction fuel arbitrary: r i)
  case (Suc fuel)
  obtain k where "p = drop k (raw r)" using consume_list_payload_suffix [OF Suc.prems(3)] by blast
  then have "length (split_items p) \<le> length (raw r)"
    using length_split_items [of p] by simp
  then have i: "i < usize_max" using Suc.prems(4,6) by simp
  note item = rlp_at_item [OF Suc.prems(1-3) i]
  have view: "coherent (fst (rlp_at r i))" "is_list (fst (rlp_at r i)) = is_list r"
    using rlp_at_coherent [OF Suc.prems(1) i] by (simp_all add: is_list_def is_null_def)
  obtain r' x where at: "rlp_at r i = (r', x)" by (cases "rlp_at r i")
  show ?case
  proof (cases "i < length (split_items p)")
    case True
    then have x: "x = Ok (rlp_new (split_items p ! i))" using item(1) at by simp
    have "raw r' = raw r" using rlp_at_view(1) [of r i] at by simp
    then have "snd (iter_from fuel r' (i + 1)) = map rlp_new (drop (i + 1) (split_items p))
        \<and> coherent (fst (iter_from fuel r' (i + 1)))"
      using view at Suc.prems True by (intro Suc.IH) simp_all
    then show ?thesis using True at x
      by (cases "iter_from fuel r' (i + 1)") (simp add: Cons_nth_drop_Suc [symmetric])
  next
    case False
    then obtain e where "x = Err e" using item(2) at by auto
    then show ?thesis using False view(1) at by simp
  qed
qed simp

lemma rlp_iter_items:
  assumes "coherent r" and "is_list r" and "consume_list_payload (raw r) = Ok p" and "length (raw r) < usize_max"
  shows "snd (rlp_iter r) = map rlp_new (split_items p)"
proof -
  obtain k where "p = drop k (raw r)" using consume_list_payload_suffix [OF assms(3)] by blast
  then have "length (split_items p) \<le> length (raw r)" using length_split_items [of p] by simp
  then show ?thesis using iter_from_items [OF assms, of "length (raw r)" 0] by (simp add: rlp_iter_def)
qed

lemma iter_from_view [simp]: "raw (fst (iter_from fuel r i)) = raw r"
proof (induction fuel arbitrary: r i)
  case (Suc fuel)
  obtain r' x where at: "rlp_at r i = (r', x)" by (cases "rlp_at r i")
  then have "raw r' = raw r" using rlp_at_view(1) [of r i] by simp
  then show ?case using Suc.IH [of r' "i + 1"] at
    by (cases x; cases "iter_from fuel r' (i + 1)") simp_all
qed simp

text \<open>The count, cached or not, is the number of items, and counting leaves the view coherent.\<close>

lemma rlp_iter_count:
  assumes "coherent r" and "is_list r" and "length (raw r) < usize_max"
  shows "length (snd (rlp_iter r)) = count_spec (raw r) \<and> coherent (fst (rlp_iter r))"
proof (cases "consume_list_payload (raw r)")
  case (Ok p)
  obtain k where "p = drop k (raw r)" using consume_list_payload_suffix [OF Ok] by blast
  then have "length (split_items p) \<le> length (raw r)" using length_split_items [of p] by simp
  then show ?thesis
    using iter_from_items [OF assms(1,2) Ok assms(3), of "length (raw r)" 0] Ok
    by (simp add: rlp_iter_def count_spec_def)
next
  case (Err e)
  have max: "0 < usize_max" by (simp add: usize_max_def)
  then have "snd (rlp_at r 0) = Err e"
    by (simp add: rlp_at_list [OF assms(1) max assms(2)] Err)
  moreover obtain r' x where "rlp_at r 0 = (r', x)" by (cases "rlp_at r 0")
  moreover have "coherent (fst (rlp_at r 0))" by (rule rlp_at_coherent [OF assms(1) max])
  ultimately have "iter_from n r 0 = (fst (iter_from n r 0), []) \<and> coherent (fst (iter_from n r 0))" for n
    using assms(1) by (cases n) simp_all
  then show ?thesis by (simp add: rlp_iter_def count_spec_def Err) (metis length_0_conv snd_conv)
next
  case Panic
  then show ?thesis using consume_list_payload_no_panic by blast
qed

lemma item_count_spec:
  assumes "coherent r" and "is_list r" and "length (raw r) < usize_max"
  shows "snd (item_count r) = Ok (count_spec (raw r)) \<and> coherent (fst (item_count r))"
proof (cases "count_cache r")
  case None
  obtain r' xs where iter: "rlp_iter r = (r', xs)" by (cases "rlp_iter r")
  have "length xs = count_spec (raw r)" and "coherent r'"
    using rlp_iter_count [OF assms] iter by simp_all
  moreover have "raw r' = raw r" using iter by (metis fst_conv iter_from_view rlp_iter_def)
  ultimately show ?thesis using assms(2) None iter
    by (simp add: item_count_def coherent_def offset_coherent_def)
next
  case (Some c)
  then show ?thesis using assms by (simp add: item_count_def coherent_def)
qed

subsection \<open>Reading an encoded tree back\<close>

lemma split_items_framed:
  "(\<And>b. b \<in> set bss \<Longrightarrow> framed b) \<Longrightarrow> split_items (concat bss) = bss"
proof (induction bss)
  case Nil
  have "payload_info_of [] = Err RlpIsTooShort" by (simp add: payload_info_of_def payload_info_from_def)
  then show ?case by (simp add: split_items_Nil)
next
  case (Cons b bss)
  then obtain pi where "payload_info_of (b @ concat bss) = Ok pi" "header_len pi + value_len pi = length b"
    using Cons.prems [of b] unfolding framed_def by auto
  with Cons show ?case by (simp add: split_items_Ok)
qed

lemma fits32_elem: "fits32 (item_enc (Seq ts)) \<Longrightarrow> t \<in> set ts \<Longrightarrow> fits32 (item_enc t)"
proof -
  assume fits: "fits32 (item_enc (Seq ts))" and t: "t \<in> set ts"
  have "length (item_enc t) \<le> length (concat (map item_enc ts))"
    using t by (auto simp: length_concat dest!: split_list)
  then show ?thesis using fits length_list_enc [of "concat (map item_enc ts)"] by simp
qed

lemma list_enc_hd: "list_enc p \<noteq> []" "fits32 p \<Longrightarrow> 0xc0 \<le> list_enc p ! 0"
proof -
  assume "fits32 p"
  then show "0xc0 \<le> list_enc p ! 0"
    using be_size_32 [of "length p"]
    by (auto simp: list_enc_def byte_le unat_byte_add)
qed (simp add: list_enc_def)

lemma read_list:
  assumes "fits32 (list_enc p)"
  shows "is_list (rlp_new (list_enc p))" and "consume_list_payload (list_enc p) = Ok p"
proof -
  have p: "fits32 p" using assms length_list_enc [of p] by simp
  show "is_list (rlp_new (list_enc p))"
    using list_enc_hd(1) [of p] list_enc_hd(2) [OF p] by (simp add: is_list_def is_null_def rlp_new_def)
  have "\<exists>h. list_enc p = h @ p" by (auto simp: list_enc_def)
  then obtain h where h: "list_enc p = h @ p" by blast
  show "consume_list_payload (list_enc p) = Ok p"
    using payload_info_of_list [OF assms, of "[]"] h
    by (simp add: consume_list_payload_def payload_info_new_def consume_def)
qed

lemma framed_elems: "fits32 (item_enc (Seq ts)) \<Longrightarrow> b \<in> set (map item_enc ts) \<Longrightarrow> framed b"
  using framed_item fits32_elem [of ts] by (metis image_iff list.set_map)

lemma split_items_Seq:
  assumes "fits32 (item_enc (Seq ts))"
  shows "split_items (concat (map item_enc ts)) = map item_enc ts"
  using framed_elems [OF assms] by (rule split_items_framed)

text \<open>A list of framed items read through a fresh view, or through any coherent one.\<close>

lemma read_framed:
  assumes "\<And>b. b \<in> set bss \<Longrightarrow> framed b" and "fits32 (list_enc (concat bss))"
    and "coherent r" and "raw r = list_enc (concat bss)"
  shows "i < length bss \<Longrightarrow> snd (rlp_at r i) = Ok (rlp_new (bss ! i))"
    and "snd (item_count r) = Ok (length bss) \<and> coherent (fst (item_count r))"
    and "snd (rlp_iter r) = map rlp_new bss"
proof -
  have split: "split_items (concat bss) = bss" using assms(1) by (rule split_items_framed)
  have payload: "consume_list_payload (raw r) = Ok (concat bss)"
    using read_list(2) [OF assms(2)] assms(4) by simp
  have list: "is_list r" using read_list(1) [OF assms(2)] is_list_raw [of r] assms(4) by simp
  have len: "length (raw r) < usize_max" using assms(2,4) by (simp add: usize_max_def)
  have "length bss \<le> length (concat bss)" using length_split_items [of "concat bss"] split by simp
  then have "length bss < usize_max"
    using assms(2) length_list_enc [of "concat bss"] by (simp add: usize_max_def)
  then show "i < length bss \<Longrightarrow> snd (rlp_at r i) = Ok (rlp_new (bss ! i))"
    using rlp_at_item(1) [OF assms(3) list payload] split by simp
  show "snd (item_count r) = Ok (length bss) \<and> coherent (fst (item_count r))"
    using item_count_spec [OF assms(3) list len] payload split by (simp add: count_spec_def)
  show "snd (rlp_iter r) = map rlp_new bss"
    using rlp_iter_items [OF assms(3) list payload len] split by simp
qed

lemma raw_new [simp]: "raw (rlp_new bs) = bs"
  by (simp add: rlp_new_def)

lemma read_item_at:
  assumes "fits32 (item_enc (Seq ts))" and "i < length ts"
  shows "snd (rlp_at (rlp_new (item_enc (Seq ts))) i) = Ok (rlp_new (item_enc (ts ! i)))"
  using read_framed(1) [OF framed_elems [OF assms(1)] assms(1) [unfolded item_enc.simps] coherent_new,
      where i = i] assms(2) by simp

lemma read_item_count:
  assumes "fits32 (item_enc (Seq ts))"
  shows "snd (item_count (rlp_new (item_enc (Seq ts)))) = Ok (length ts)"
  using read_framed(2) [OF framed_elems [OF assms] assms [unfolded item_enc.simps] coherent_new] by simp

lemma read_item_data:
  assumes "fits32 (item_enc (Data v))"
  shows "rlp_data (rlp_new (item_enc (Data v))) = Ok v"
proof -
  have "\<exists>h. data_enc v = h @ v \<or> (v = [] \<and> data_enc v = h)" by (auto simp: data_enc_def)
  then obtain h where h: "data_enc v = h @ v" by auto
  then show ?thesis
    using payload_info_of_data [of v "[]"] assms
    by (simp add: rlp_data_def payload_info_new_def rlp_new_def)
qed

lemma data_enc_hd: "fits32 v \<Longrightarrow> data_enc v ! 0 < 0xc0"
  using be_size_32 [of "length v"]
  by (cases v) (auto simp: data_enc_def byte_le unat_byte_add)

lemma data_enc_inj:
  assumes "data_enc v = data_enc w" and "fits32 (data_enc v)"
  shows "v = w"
proof -
  have "rlp_data (rlp_new (data_enc u)) = Ok u" if "fits32 (data_enc u)" for u
    using read_item_data [of u, unfolded item_enc.simps, OF that] .
  from this [of v] this [of w] show ?thesis using assms(2) unfolding assms(1) by simp
qed

lemma list_enc_inj:
  assumes "list_enc p = list_enc q" and "fits32 (list_enc p)"
  shows "p = q"
proof -
  have "consume_list_payload (list_enc q) = Ok q"
    using assms(2) unfolding assms(1) by (rule read_list(2))
  then show ?thesis using read_list(2) [OF assms(2)] assms(1) by simp
qed

lemma data_enc_neq_list_enc:
  assumes "fits32 (data_enc v)"
  shows "data_enc v \<noteq> list_enc p"
proof
  assume eq: "data_enc v = list_enc p"
  have "fits32 v" using assms length_data_enc [of v] by simp
  moreover have "fits32 p" using assms length_list_enc [of p] unfolding eq by simp
  ultimately show False using data_enc_hd [of v] list_enc_hd(2) [of p] unfolding eq by simp
qed

lemma map_eq_pointwise:
  "map f xs = map f ys \<Longrightarrow> (\<And>x y. x \<in> set xs \<Longrightarrow> f x = f y \<Longrightarrow> x = y) \<Longrightarrow> xs = ys"
proof (induction xs arbitrary: ys)
  case (Cons x xs)
  then obtain y ys' where ys: "ys = y # ys'" "f x = f y" "map f xs = map f ys'" by (cases ys) auto
  show ?case using Cons.prems(2) [of x y] Cons.IH [OF ys(3)] Cons.prems(2) ys by simp
qed simp

lemma item_enc_inj:
  assumes "item_enc a = item_enc b" and "fits32 (item_enc a)"
  shows "a = b"
  using assms
proof (induction a arbitrary: b)
  case (Data v)
  then have "data_enc v = item_enc b" and v: "fits32 (data_enc v)" by simp_all
  then show ?case
    using data_enc_inj [OF _ v] data_enc_neq_list_enc [OF v] by (cases b) simp_all
next
  case (Seq ts)
  let ?p = "concat (map item_enc ts)"
  have p: "fits32 (list_enc ?p)" using Seq.prems(2) by simp
  show ?case
  proof (cases b)
    case (Data v)
    then have eq: "data_enc v = list_enc ?p" using Seq.prems(1) by simp
    have "fits32 (data_enc v)" using p unfolding eq .
    then show ?thesis using data_enc_neq_list_enc eq by blast
  next
    case b: (Seq us)
    then have eq: "list_enc ?p = list_enc (concat (map item_enc us))" using Seq.prems(1) by simp
    have us: "fits32 (item_enc (Seq us))" using p unfolding eq by simp
    have "map item_enc ts = map item_enc us"
      using split_items_Seq [OF Seq.prems(2)] split_items_Seq [OF us]
      unfolding list_enc_inj [OF eq p] by simp
    then have "ts = us"
      by (rule map_eq_pointwise) (rule Seq.IH, assumption+, rule fits32_elem [OF Seq.prems(2)])
    then show ?thesis using b by simp
  qed
qed

subsection \<open>Queries against one view\<close>

text \<open>
  A caller asks one view for items and for the count in any order; each query writes the caches
  the next one reads.
\<close>

datatype query = At nat | Count

datatype answer = AtIs "bytes decoded" | CountIs "nat decoded"

fun rlp_query :: "untrusted_rlp \<Rightarrow> query \<Rightarrow> untrusted_rlp \<times> answer" where
  "rlp_query r (At i) = (case rlp_at r i of (r', x) \<Rightarrow> (r', AtIs (map_ok raw x)))"
| "rlp_query r Count = (case item_count r of (r', n) \<Rightarrow> (r', CountIs n))"

fun rlp_queries :: "untrusted_rlp \<Rightarrow> query list \<Rightarrow> answer list" where
  "rlp_queries r [] = []"
| "rlp_queries r (q # qs) = (case rlp_query r q of (r', a) \<Rightarrow> a # rlp_queries r' qs)"

fun plain_answer :: "bytes \<Rightarrow> query \<Rightarrow> answer" where
  "plain_answer bs (At i) = AtIs (rlp_at_spec bs i)"
| "plain_answer bs Count =
     CountIs (if is_list (rlp_new bs) then Ok (count_spec bs) else Err RlpExpectedToBeList)"

lemma item_count_raw [simp]: "raw (fst (item_count r)) = raw r"
proof -
  obtain r' xs where iter: "rlp_iter r = (r', xs)" by (cases "rlp_iter r")
  then have "raw r' = raw r" by (metis fst_conv iter_from_view rlp_iter_def)
  then show ?thesis using iter by (simp add: item_count_def split: option.splits)
qed

lemma rlp_query_plain:
  assumes "coherent r" and "length (raw r) < usize_max" and "\<And>i. q = At i \<Longrightarrow> i < usize_max"
  shows "snd (rlp_query r q) = plain_answer (raw r) q \<and> coherent (fst (rlp_query r q))
    \<and> raw (fst (rlp_query r q)) = raw r"
proof (cases q)
  case (At i)
  have i: "i < usize_max" using assms(3) At by blast
  obtain r' x where at: "rlp_at r i = (r', x)" by (cases "rlp_at r i")
  have "x = map_ok rlp_new (rlp_at_spec (raw r) i)" using rlp_at_refines [OF assms(1) i] at by simp
  then have "map_ok raw x = rlp_at_spec (raw r) i"
    by (cases "rlp_at_spec (raw r) i") (simp_all add: rlp_new_def)
  then show ?thesis
    using rlp_at_coherent [OF assms(1) i] rlp_at_view(1) [of r i] at At by simp
next
  case Count
  obtain r' n where count: "item_count r = (r', n)" by (cases "item_count r")
  have raw: "raw r' = raw r" using item_count_raw [of r] count by simp
  show ?thesis
  proof (cases "is_list r")
    case True
    then show ?thesis using item_count_spec [OF assms(1) True assms(2)] count raw Count
      by (simp add: is_list_raw)
  next
    case False
    then have "r' = r" "n = Err RlpExpectedToBeList" using count by (simp_all add: item_count_def)
    then show ?thesis using assms(1) False count Count by (simp add: is_list_raw)
  qed
qed

lemma rlp_queries_plain:
  assumes "coherent r" and "length (raw r) < usize_max" and "\<And>i. At i \<in> set qs \<Longrightarrow> i < usize_max"
  shows "rlp_queries r qs = map (plain_answer (raw r)) qs"
  using assms
proof (induction qs arbitrary: r)
  case (Cons q qs)
  obtain r' a where qa: "rlp_query r q = (r', a)" by (cases "rlp_query r q")
  have "a = plain_answer (raw r) q" "coherent r'" "raw r' = raw r"
    using rlp_query_plain [of r q] Cons.prems qa by auto
  moreover have "rlp_queries r' qs = map (plain_answer (raw r')) qs"
    using Cons.prems calculation by (intro Cons.IH) simp_all
  ultimately show ?case using qa by simp
qed simp

subsection \<open>Properties\<close>

lemma read_list_trailing:
  assumes "fits32 (list_enc p)"
  shows "is_list (rlp_new (list_enc p @ rest))" and "consume_list_payload (list_enc p @ rest) = Ok (p @ rest)"
proof -
  have p: "fits32 p" using assms length_list_enc [of p] by simp
  show "is_list (rlp_new (list_enc p @ rest))"
    using list_enc_hd(1) [of p] list_enc_hd(2) [OF p]
    by (simp add: is_list_def is_null_def rlp_new_def nth_append)
  have "\<exists>h. list_enc p = h @ p" by (auto simp: list_enc_def)
  then obtain h where h: "list_enc p = h @ p" by blast
  show "consume_list_payload (list_enc p @ rest) = Ok (p @ rest)"
    using payload_info_of_list [OF assms, of rest] h
    by (simp add: consume_list_payload_def payload_info_new_def consume_def)
qed


text \<open>
  C25 (the caches are invisible). A fresh view answers any sequence of lookups and counts, in any
  order, as the reader without caches answers each of them alone.
\<close>

theorem caches_invisible:
  assumes "length bs < usize_max" and "\<And>i. At i \<in> set qs \<Longrightarrow> i < usize_max"
  shows "rlp_queries (rlp_new bs) qs = map (plain_answer bs) qs"
  using rlp_queries_plain [OF coherent_new, of bs qs] assms by simp

theorem caches_invisible_witness:
  "rlp_queries (rlp_new [0xc2, 1, 2]) [At 1, Count, At 0, At 1] =
     map (plain_answer [0xc2, 1, 2]) [At 1, Count, At 0, At 1]"
  by (rule caches_invisible) (auto simp: usize_max_def)

text \<open>
  C31 (reading a streamed tree). The view of the bytes streamed for a list has as many items as the
  list, and the item at every index is what streaming the element there gives.
\<close>

theorem tree_read_back:
  assumes "fits32 (item_enc (Seq ts))"
  shows "\<exists>bs. encode item_append (Seq ts) = Some bs \<and> snd (item_count (rlp_new bs)) = Ok (length ts) \<and>
    (\<forall>i < length ts. \<exists>b. encode item_append (ts ! i) = Some b \<and> snd (rlp_at (rlp_new bs) i) = Ok (rlp_new b))"
  using item.encode_enc [OF assms] read_item_count [OF assms] read_item_at [OF assms]
    item.encode_enc [OF fits32_elem [OF assms]]
  by (metis nth_mem)

theorem tree_read_back_witness:
  "\<exists>bs. encode item_append (Seq [Data [1], Data [2]]) = Some bs \<and> snd (item_count (rlp_new bs)) = Ok 2"
proof -
  have "fits32 (item_enc (Seq [Data [1], Data [2]]))" by (simp add: data_enc_def list_enc_def)
  from tree_read_back [OF this] show ?thesis unfolding numeral_2_eq_2 by auto
qed

text \<open>
  The encoding is injective. Two item trees that stream to the same bytes are the same tree.
\<close>

theorem encoding_injective:
  assumes "fits32 (item_enc a)" and "fits32 (item_enc b)"
    and "encode item_append a = encode item_append b"
  shows "a = b"
  using assms item.encode_enc [of a] item.encode_enc [of b] by (metis item_enc_inj option.inject)

theorem encoding_injective_witness:
  "encode item_append (Data [1]) = encode item_append (Data [1]) \<and> Data [1] = Data [1]"
proof -
  have "fits32 (item_enc (Data [1]))" by (simp add: data_enc_def)
  from encoding_injective [OF this this refl] show ?thesis by simp
qed

text \<open>
  A list does not end where its header says. Bytes that follow a complete list in the view are
  read as further items of it: an item after the list counts as one more element and is found
  under the next index.
\<close>

theorem trailing_item_read:
  assumes "fits32 (item_enc (Seq ts))" and "fits32 (item_enc t)"
  shows "snd (item_count (rlp_new (item_enc (Seq ts) @ item_enc t))) = Ok (length ts + 1)"
proof -
  let ?p = "concat (map item_enc ts)"
  let ?r = "rlp_new (item_enc (Seq ts) @ item_enc t)"
  have fits: "fits32 (list_enc ?p)" using assms(1) by simp
  have len: "length (raw ?r) < usize_max" using assms by (simp add: usize_max_def)
  have "split_items (concat (map item_enc ts @ [item_enc t])) = map item_enc ts @ [item_enc t]"
  proof (rule split_items_framed)
    fix b
    assume "b \<in> set (map item_enc ts @ [item_enc t])"
    then show "framed b" using framed_elems [OF assms(1), of b] framed_item [OF assms(2)] by auto
  qed
  then have "count_spec (raw ?r) = length ts + 1"
    using read_list_trailing(2) [OF fits, of "item_enc t"] by (simp add: count_spec_def)
  moreover have "is_list ?r" using read_list_trailing(1) [OF fits, of "item_enc t"] by simp
  ultimately show ?thesis using item_count_spec [OF coherent_new _ len] by simp
qed

theorem trailing_item_read_witness: "snd (item_count (rlp_new [0xc0, 0x01])) = Ok 1"
  using trailing_item_read [of "[]" "Data [1]"] by (simp add: data_enc_def list_enc_def byte_of_def)

text \<open>
  A panic of \<^verbatim>\<open>is_int\<close>. Unlike every other query, \<^verbatim>\<open>is_int\<close> reads a byte behind the header
  without looking at the length: it panics on the one byte \<^verbatim>\<open>0x81\<close>.
\<close>

theorem is_int_panics: "is_int (rlp_new [0x81]) = None"
  by (simp add: is_int_def is_null_def rlp_new_def byte_le)

end
