(* ===== verification/Rlp_Impls.thy ===== *)
theory Rlp_Impls
  imports Rlp_Decode
begin

text \<open>
  The \<^verbatim>\<open>Encodable\<close>/\<^verbatim>\<open>Decodable\<close> implementations of \<^verbatim>\<open>src/util/rlp/src/impls.rs\<close>, the trusted view of
  \<^verbatim>\<open>rlpin.rs\<close> and the shortcuts of \<^verbatim>\<open>lib.rs\<close>. Fixed-width integers are naturals with the width as a
  parameter, as the macros take it; the big integers of the \<^verbatim>\<open>bigint\<close> crate are naturals whose
  \<^verbatim>\<open>bits\<close>, \<^verbatim>\<open>to_big_endian\<close> and \<^verbatim>\<open>from\<close> are their documented meaning. The locale \<open>rlp_codec\<close> is the
  contract of a type that has both traits; its lemmas give every such type the round trips
  through a value, a list and an option.
\<close>

subsection \<open>Encodable and Decodable\<close>

definition value_append :: "bytes \<Rightarrow> rlp_stream \<Rightarrow> rlp_stream option" where
  "value_append v s = do { buf \<leftarrow> encode_value v (buffer s); Some (s\<lparr>buffer := buf\<rparr>) }"

definition bool_append :: "bool \<Rightarrow> rlp_stream \<Rightarrow> rlp_stream option" where
  "bool_append b s = (if b then value_append [1] s else value_append [0] s)"

definition bool_decode :: "bytes \<Rightarrow> bool decoded" where
  "bool_decode = decode_value (\<lambda>bs.
     if length bs = 0 then Ok False
     else if length bs = 1 then Ok (bs ! 0 \<noteq> 0)
     else Err RlpIsTooBig)"

definition vec_append :: "bytes \<Rightarrow> rlp_stream \<Rightarrow> rlp_stream option" where
  "vec_append v s = value_append v s"

definition vec_decode :: "bytes \<Rightarrow> bytes decoded" where
  "vec_decode = decode_value Ok"

definition option_append :: "('e \<Rightarrow> rlp_stream \<Rightarrow> rlp_stream option) \<Rightarrow> 'e option \<Rightarrow>
    rlp_stream \<Rightarrow> rlp_stream option" where
  "option_append app v s =
     (case v of
        None \<Rightarrow> begin_list 0 s
      | Some x \<Rightarrow> do { s' \<leftarrow> begin_list 1 s; append_rlp app s' x })"

definition option_decode :: "(bytes \<Rightarrow> 'e decoded) \<Rightarrow> bytes \<Rightarrow> 'e option decoded" where
  "option_decode dec bs =
     (case item_count (rlp_new bs) of (r, n) \<Rightarrow>
        try_ok n (\<lambda>items.
          if items = 1 then map_ok Some (val_at dec r 0)
          else if items = 0 then Ok None
          else Err RlpIncorrectListLen))"

definition u8_append :: "u8 \<Rightarrow> rlp_stream \<Rightarrow> rlp_stream option" where
  "u8_append v s = (if v \<noteq> 0 then value_append [v] s else value_append [] s)"

definition u8_decode :: "bytes \<Rightarrow> u8 decoded" where
  "u8_decode = decode_value (\<lambda>bs.
     if length bs = 1 \<and> bs ! 0 \<noteq> 0 then Ok (bs ! 0)
     else if length bs = 0 then Ok 0
     else if length bs = 1 then Err RlpInvalidIndirection
     else Err RlpIsTooBig)"

text \<open>The macros for \<^verbatim>\<open>u16\<close>, \<^verbatim>\<open>u32\<close> and \<^verbatim>\<open>u64\<close>, with the size in bytes.\<close>

definition u_append :: "nat \<Rightarrow> nat \<Rightarrow> rlp_stream \<Rightarrow> rlp_stream option" where
  "u_append sz v s =
     (let leading_empty_bytes = leading_zeros (8 * sz) v div 8
      in value_append (drop leading_empty_bytes (be_fixed sz v)) s)"

definition u_decode :: "nat \<Rightarrow> bytes \<Rightarrow> nat decoded" where
  "u_decode sz rlp = decode_value (\<lambda>bs.
     if length bs = 0 \<or> length bs = 1 then map_ok unat (u8_decode rlp)
     else if length bs \<le> sz then
       (if bs ! 0 = 0 then Err RlpInvalidIndirection else Ok (shifted_sum bs))
     else Err RlpIsTooBig) rlp"

definition usize_append :: "nat \<Rightarrow> rlp_stream \<Rightarrow> rlp_stream option" where
  "usize_append v = u_append 8 v"

definition usize_decode :: "bytes \<Rightarrow> nat decoded" where
  "usize_decode rlp = map_ok (\<lambda>value. value) (u_decode 8 rlp)"

text \<open>The hash types, byte arrays of the given length.\<close>

definition hash_append :: "bytes \<Rightarrow> rlp_stream \<Rightarrow> rlp_stream option" where
  "hash_append h s = value_append h s"

definition hash_decode :: "nat \<Rightarrow> bytes \<Rightarrow> bytes decoded" where
  "hash_decode sz = decode_value (\<lambda>bs.
     if length bs < sz then Err RlpIsTooShort
     else if sz < length bs then Err RlpIsTooBig
     else Ok bs)"

text \<open>The big integers \<^verbatim>\<open>U64\<close>, \<^verbatim>\<open>U128\<close> and \<^verbatim>\<open>U256\<close>.\<close>

definition uint_append :: "nat \<Rightarrow> nat \<Rightarrow> rlp_stream \<Rightarrow> rlp_stream option" where
  "uint_append sz v s =
     (let leading_empty_bytes = sz - (nbits v + 7) div 8
      in value_append (drop leading_empty_bytes (be_fixed sz v)) s)"

definition uint_decode :: "nat \<Rightarrow> bytes \<Rightarrow> nat decoded" where
  "uint_decode sz = decode_value (\<lambda>bs.
     if bs \<noteq> [] \<and> bs ! 0 = 0 then Err RlpInvalidIndirection
     else if length bs \<le> sz then Ok (be_val bs)
     else Err RlpIsTooBig)"

subsection \<open>The trusted view\<close>

text \<open>\<^verbatim>\<open>Rlp\<close> wraps the untrusted view and unwraps every result; an error is a panic.\<close>

definition unwrap :: "('e, 'a) outcome \<Rightarrow> 'a option" where
  "unwrap m = (case m of Ok a \<Rightarrow> Some a | _ \<Rightarrow> None)"

definition unwrap_or :: "'a \<Rightarrow> ('e, 'a) outcome \<Rightarrow> 'a option" where
  "unwrap_or d m = (case m of Ok a \<Rightarrow> Some a | Err _ \<Rightarrow> Some d | Panic \<Rightarrow> None)"

definition trusted_prototype :: "untrusted_rlp \<Rightarrow> prototype option" where
  "trusted_prototype r = unwrap (snd (rlp_prototype r))"

definition trusted_payload_info :: "untrusted_rlp \<Rightarrow> payload_info option" where
  "trusted_payload_info r = unwrap (payload_info_of (raw r))"

definition trusted_data :: "untrusted_rlp \<Rightarrow> bytes option" where
  "trusted_data r = unwrap (rlp_data r)"

definition trusted_item_count :: "untrusted_rlp \<Rightarrow> nat option" where
  "trusted_item_count r = unwrap_or 0 (snd (item_count r))"

definition trusted_at :: "untrusted_rlp \<Rightarrow> nat \<Rightarrow> untrusted_rlp option" where
  "trusted_at r index = unwrap (snd (rlp_at r index))"

definition trusted_as_val :: "(bytes \<Rightarrow> 'a decoded) \<Rightarrow> untrusted_rlp \<Rightarrow> 'a option" where
  "trusted_as_val dec r = unwrap (dec (raw r))"

fun trusted_all :: "(bytes \<Rightarrow> 'a decoded) \<Rightarrow> untrusted_rlp list \<Rightarrow> 'a list option" where
  "trusted_all dec [] = Some []"
| "trusted_all dec (x # xs) = do { a \<leftarrow> trusted_as_val dec x; as \<leftarrow> trusted_all dec xs; Some (a # as) }"

definition trusted_as_list :: "(bytes \<Rightarrow> 'a decoded) \<Rightarrow> untrusted_rlp \<Rightarrow> 'a list option" where
  "trusted_as_list dec r = trusted_all dec (snd (rlp_iter r))"

definition trusted_val_at :: "(bytes \<Rightarrow> 'a decoded) \<Rightarrow> untrusted_rlp \<Rightarrow> nat \<Rightarrow> 'a option" where
  "trusted_val_at dec r index = trusted_at r index \<bind> trusted_as_val dec"

definition trusted_list_at :: "(bytes \<Rightarrow> 'a decoded) \<Rightarrow> untrusted_rlp \<Rightarrow> nat \<Rightarrow> 'a list option" where
  "trusted_list_at dec r index = trusted_at r index \<bind> trusted_as_list dec"

definition decode :: "(bytes \<Rightarrow> 'a decoded) \<Rightarrow> bytes \<Rightarrow> 'a option" where
  "decode dec bs = trusted_as_val dec (rlp_new bs)"

definition decode_list :: "(bytes \<Rightarrow> 'a decoded) \<Rightarrow> bytes \<Rightarrow> 'a list option" where
  "decode_list dec bs = trusted_as_list dec (rlp_new bs)"

subsection \<open>A decoded value is the encoded one\<close>

lemma decode_value_data:
  assumes "fits32 v"
  shows "decode_value f (data_enc v) = f v"
proof -
  consider (empty) "v = []" | (single) x where "v = [x]" "x < 0x80"
    | (short) "v \<noteq> []" "\<not> (length v = 1 \<and> v ! 0 < 0x80)" "length v \<le> 55"
    | (long) "length v > 55"
  proof (cases v)
    case (Cons x xs)
    then show ?thesis using single short long by (cases xs) force+
  qed (use empty in simp)
  then show ?thesis
  proof cases
    case (single x)
    then show ?thesis by (simp add: decode_value_def data_enc_def byte_le)
  next
    case short
    then have enc: "data_enc v = (0x80 + byte_of (length v)) # v"
      by (auto simp: data_enc_def hd_conv_nth)
    have l: "unat (0x80 + byte_of (length v)) = 128 + length v"
      using short by (subst unat_byte_add) simp_all
    have "\<not> (0x80 + byte_of (length v) = 0x81 \<and> v ! 0 < 0x80)"
      using short l by (auto simp: word_unat_eq_iff)
    then show ?thesis unfolding enc using short l by (auto simp: decode_value_def byte_le Let_def)
  next
    case long
    let ?k = "be_size (length v)"
    have k: "0 < ?k" "?k \<le> 4" using long assms be_size_32 by auto
    have enc: "data_enc v = (0xb7 + byte_of ?k) # be_min (length v) @ v"
      using long by (auto simp: data_enc_def)
    have l: "unat (0xb7 + byte_of ?k) = 183 + ?k" using k by (subst unat_byte_add) simp_all
    have "decode_usize (be_min (length v)) = Ok (length v)"
      using long assms by (intro decode_usize_be_min) auto
    then show ?thesis unfolding enc using long assms k l
      by (auto simp: decode_value_def byte_le Let_def checked_add_def usize_max_def)
  qed (simp add: decode_value_def data_enc_def byte_le)
qed

lemma framed_data: "fits32 (data_enc v) \<Longrightarrow> framed (data_enc v)"
  using framed_item [of "Data v"] by simp

lemma streams_value_append: "fits32 (data_enc v) \<Longrightarrow> streams (value_append v) (data_enc v)"
  using streams_value [of v] length_data_enc [of v] by (simp add: value_append_def [abs_def])

subsection \<open>The contract of a type with both traits\<close>

text \<open>
  The representation types are larger than the program's (a natural for a \<^verbatim>\<open>u64\<close>, a byte list for a
  hash), so the contract says which values are meant.
\<close>

locale rlp_codec = rlp_encodable app enc
  for app :: "'e \<Rightarrow> rlp_stream \<Rightarrow> rlp_stream option" and enc :: "'e \<Rightarrow> bytes" +
  fixes dec :: "bytes \<Rightarrow> 'e decoded"
    and valid :: "'e \<Rightarrow> bool"
  assumes dec_enc: "valid v \<Longrightarrow> fits32 (enc v) \<Longrightarrow> dec (enc v) = Ok v"
    and framed_enc: "fits32 (enc v) \<Longrightarrow> framed (enc v)"
begin

lemma decode_encode: "valid v \<Longrightarrow> fits32 (enc v) \<Longrightarrow> encode app v \<bind> decode dec = Some v"
  by (simp add: encode_enc decode_def trusted_as_val_def unwrap_def dec_enc)

lemma fits32_enc_elem:
  assumes "fits32 (list_enc (concat (map enc vs)))" and "v \<in> set vs"
  shows "fits32 (enc v)"
proof -
  have "length (enc v) \<le> length (concat (map enc vs))"
    using assms(2) by (auto simp: length_concat dest!: split_list)
  then show ?thesis using assms(1) length_list_enc [of "concat (map enc vs)"] by simp
qed

lemma framed_all:
  "fits32 (list_enc (concat (map enc vs))) \<Longrightarrow> b \<in> set (map enc vs) \<Longrightarrow> framed b"
  using framed_enc fits32_enc_elem [of vs] by (metis image_iff list.set_map)

lemma val_at_list:
  assumes "fits32 (list_enc (concat (map enc vs)))" and "i < length vs" and "valid (vs ! i)"
    and "coherent r" and "raw r = list_enc (concat (map enc vs))"
  shows "val_at dec r i = Ok (vs ! i)"
  using read_framed(1) [OF framed_all [OF assms(1)] assms(1,4,5), where i = i] assms(2,3)
    fits32_enc_elem [OF assms(1) nth_mem [OF assms(2)]]
  by (simp add: val_at_def dec_enc)

lemma all_dec:
  "(\<And>v. v \<in> set vs \<Longrightarrow> valid v \<and> fits32 (enc v)) \<Longrightarrow>
    decode_all dec (map rlp_new (map enc vs)) = Ok vs \<and> trusted_all dec (map rlp_new (map enc vs)) = Some vs"
  by (induction vs) (simp_all add: dec_enc trusted_as_val_def unwrap_def)

lemma list_roundtrip:
  assumes "\<And>v. v \<in> set vs \<Longrightarrow> valid v" and fits: "fits32 (list_enc (concat (map enc vs)))"
  shows "encode_list app vs \<bind> decode_list dec = Some vs"
    and "rlp_as_list dec (rlp_new (list_enc (concat (map enc vs)))) = Ok vs"
proof -
  let ?r = "rlp_new (list_enc (concat (map enc vs)))"
  have iter: "snd (rlp_iter ?r) = map rlp_new (map enc vs)"
    by (rule read_framed(3) [OF framed_all [OF fits] fits coherent_new]) simp_all
  have all: "decode_all dec (map rlp_new (map enc vs)) = Ok vs \<and>
      trusted_all dec (map rlp_new (map enc vs)) = Some vs"
    using assms(1) fits32_enc_elem [OF fits] by (intro all_dec) blast
  show "rlp_as_list dec ?r = Ok vs" using iter all by (simp add: rlp_as_list_def)
  have "encode_list app vs = Some (list_enc (concat (map enc vs)))"
    using fits length_list_enc [of "concat (map enc vs)"] by (intro encode_list_enc) simp
  then show "encode_list app vs \<bind> decode_list dec = Some vs"
    using iter all by (simp add: decode_list_def trusted_as_list_def)
qed

end

text \<open>A type that is written as one data item needs only its decoder's law on the value bytes.\<close>

lemma value_codec:
  assumes "\<And>v. app v = value_append (repr v)" and "\<And>v. enc v = data_enc (repr v)"
    and "\<And>v. valid v \<Longrightarrow> fits32 (data_enc (repr v)) \<Longrightarrow> dec (data_enc (repr v)) = Ok v"
  shows "rlp_codec app enc dec valid"
  using assms by unfold_locales (simp_all add: streams_value_append framed_data)

lemma fits32_data: "fits32 (data_enc v) \<Longrightarrow> fits32 v"
  using length_data_enc [of v] by simp

lemmas decode_data = decode_value_data [OF fits32_data]

subsection \<open>The implementations meet the contract\<close>

interpretation bool_rlp: rlp_codec bool_append "\<lambda>b. data_enc [if b then 1 else 0]" bool_decode "\<lambda>_. True"
  by (rule value_codec [where repr = "\<lambda>b. [if b then 1 else 0]"])
     (auto simp: bool_append_def bool_decode_def decode_data)

interpretation vec_rlp: rlp_codec vec_append data_enc vec_decode "\<lambda>_. True"
  by (rule value_codec [where repr = "\<lambda>v. v"]) (auto simp: vec_append_def vec_decode_def decode_data)

interpretation hash_rlp: rlp_codec hash_append data_enc "hash_decode sz" "\<lambda>h. length h = sz" for sz
  by (rule value_codec [where repr = "\<lambda>v. v"]) (auto simp: hash_append_def hash_decode_def decode_data)

interpretation u8_rlp: rlp_codec u8_append "\<lambda>v. data_enc (if v = 0 then [] else [v])" u8_decode "\<lambda>_. True"
  by (rule value_codec [where repr = "\<lambda>v. if v = 0 then [] else [v]"])
     (auto simp: u8_append_def u8_decode_def decode_data)

lemma leading_bits_bytes: "n < 256 ^ k \<Longrightarrow> drop (k - (nbits n + 7) div 8) (be_fixed k n) = be_min n"
  using be_size_le_iff [of n k] by (simp add: drop_be_fixed be_min_def be_size_def)

text \<open>Both integer decoders accept exactly the minimal byte strings of the width.\<close>

lemma be_min_iff: "v = be_min n \<longleftrightarrow> be_val v = n \<and> (v = [] \<or> v ! 0 \<noteq> 0)"
proof (cases "v = []")
  case True
  then show ?thesis by (auto simp: eq_commute [of "[]"])
next
  case False
  then have "v ! 0 = hd v" by (simp add: hd_conv_nth)
  then show ?thesis using False be_min_be_val [of v] be_min_leading [of n] by force
qed

lemma uint_decode_iff:
  assumes "fits32 (data_enc v)"
  shows "uint_decode sz (data_enc v) = Ok n \<longleftrightarrow> v = be_min n \<and> length v \<le> sz"
  using assms by (auto simp: uint_decode_def decode_data be_min_iff)

lemma u_decode_iff:
  assumes "fits32 (data_enc v)" and "0 < sz"
  shows "u_decode sz (data_enc v) = Ok n \<longleftrightarrow> v = be_min n \<and> length v \<le> sz"
proof -
  consider "v = []" | x where "v = [x]" | "2 \<le> length v"
    by (cases v; cases "tl v") auto
  then show ?thesis
  proof cases
    case (2 x)
    then show ?thesis using assms
      by (auto simp: u_decode_def u8_decode_def decode_data be_min_iff be_val_def)
  next
    case 3
    then have "v \<noteq> []" by auto
    with 3 show ?thesis using assms
      by (auto simp: u_decode_def decode_data be_min_iff shifted_sum_be_val)
  qed (use assms in \<open>auto simp: u_decode_def u8_decode_def decode_data be_min_iff\<close>)
qed

interpretation u_rlp: rlp_codec "u_append sz"
  "\<lambda>v. data_enc (drop (leading_zeros (8 * sz) v div 8) (be_fixed sz v))" "u_decode sz"
  "\<lambda>v. 0 < sz \<and> v < 256 ^ sz" for sz
  by (rule value_codec [where repr = "\<lambda>v. drop (leading_zeros (8 * sz) v div 8) (be_fixed sz v)"])
     (auto simp: u_append_def drop_leading_zero_bytes u_decode_iff be_size_le_iff)

interpretation uint_rlp: rlp_codec "uint_append sz"
  "\<lambda>v. data_enc (drop (sz - (nbits v + 7) div 8) (be_fixed sz v))" "uint_decode sz"
  "\<lambda>v. v < 256 ^ sz" for sz
  by (rule value_codec [where repr = "\<lambda>v. drop (sz - (nbits v + 7) div 8) (be_fixed sz v)"])
     (auto simp: uint_append_def leading_bits_bytes uint_decode_iff be_size_le_iff)

abbreviation option_enc :: "('e \<Rightarrow> bytes) \<Rightarrow> 'e option \<Rightarrow> bytes" where
  "option_enc enc v \<equiv> list_enc (concat (map enc (case v of None \<Rightarrow> [] | Some x \<Rightarrow> [x])))"

lemma append_each_single: "append_each [f] = append_with f"
  by (rule ext) simp

lemma option_append_each:
  "option_append app v =
     (\<lambda>s. begin_list (length (case v of None \<Rightarrow> [] | Some x \<Rightarrow> [app x])) s
        \<bind> append_each (case v of None \<Rightarrow> [] | Some x \<Rightarrow> [app x]))"
  by (cases v) (simp_all add: option_append_def append_rlp_def append_each_single fun_eq_iff)

lemma option_codec:
  assumes "rlp_codec app enc dec valid"
  shows "rlp_codec (option_append app) (option_enc enc) (option_decode dec) (pred_option valid)"
proof
  fix v
  assume fits: "fits32 (option_enc enc v)"
  let ?vs = "case v of None \<Rightarrow> [] | Some x \<Rightarrow> [x]"
  have elem: "fits32 (enc x)" if "x \<in> set ?vs" for x
    using rlp_codec.fits32_enc_elem [OF assms fits that] .
  have len: "fits32 (concat (map enc ?vs))" using fits length_list_enc [of "concat (map enc ?vs)"] by simp
  have "list_all2 streams (case v of None \<Rightarrow> [] | Some x \<Rightarrow> [app x]) (map enc ?vs)"
    using elem rlp_encodable.streams_enc [OF rlp_codec.axioms(1) [OF assms]] by (cases v) simp_all
  from streams_list [OF this len] show "streams (option_append app v) (option_enc enc v)"
    by (simp add: option_append_each)
  have framed: "framed b" if "b \<in> set (map enc ?vs)" for b
    using rlp_codec.framed_all [OF assms fits that] .
  show "framed (option_enc enc v)"
    using fits length_list_enc [of "concat (map enc ?vs)"]
    by (simp add: framed_def payload_info_of_list payload_info_new_def)
  assume valid: "pred_option valid v"
  obtain r n where count: "item_count (rlp_new (option_enc enc v)) = (r, n)"
    by (cases "item_count (rlp_new (option_enc enc v))")
  have items: "n = Ok (length ?vs)" "coherent r" "raw r = option_enc enc v"
    using read_framed(2) [OF framed fits coherent_new] item_count_raw [of "rlp_new (option_enc enc v)"] count
    by simp_all
  have "val_at dec r 0 = Ok x" if "v = Some x" for x
    using rlp_codec.val_at_list [OF assms fits, of 0 r] items(2,3) that valid by simp
  then show "option_decode dec (option_enc enc v) = Ok v"
    using count items(1) by (cases v) (simp_all add: option_decode_def)
qed

interpretation option_u_rlp: rlp_codec "option_append (u_append sz)"
  "option_enc (\<lambda>v. data_enc (drop (leading_zeros (8 * sz) v div 8) (be_fixed sz v)))"
  "option_decode (u_decode sz)" "pred_option (\<lambda>v. 0 < sz \<and> v < 256 ^ sz)" for sz
  by (rule option_codec) (rule u_rlp.rlp_codec_axioms)

subsection \<open>Properties\<close>

lemma fits32_small: "length v \<le> 55 \<Longrightarrow> fits32 (data_enc v)"
  by (simp add: data_enc_def)

text \<open>
  Round trip of the fixed-width integers. A \<^verbatim>\<open>u16\<close>, \<^verbatim>\<open>u32\<close> or \<^verbatim>\<open>u64\<close> (\<open>sz\<close> bytes) written by
  \<^verbatim>\<open>rlp::encode\<close> is read back unchanged by \<^verbatim>\<open>rlp::decode\<close>; neither panics.
\<close>

theorem u_roundtrip:
  assumes "sz \<in> {2, 4, 8}" and "v < 256 ^ sz"
  shows "encode (u_append sz) v \<bind> decode (u_decode sz) = Some v"
  using assms by (intro u_rlp.decode_encode fits32_small) auto

theorem u_roundtrip_witness: "encode (u_append 8) 1024 \<bind> decode (u_decode 8) = Some 1024"
  using u_roundtrip [of 8 1024] by simp

text \<open>
  Round trip of the big integers. A \<^verbatim>\<open>U64\<close>, \<^verbatim>\<open>U128\<close> or \<^verbatim>\<open>U256\<close> written by \<^verbatim>\<open>rlp::encode\<close> is read
  back unchanged by \<^verbatim>\<open>rlp::decode\<close>.
\<close>

theorem uint_roundtrip:
  assumes "sz \<in> {8, 16, 32}" and "v < 256 ^ sz"
  shows "encode (uint_append sz) v \<bind> decode (uint_decode sz) = Some v"
  using assms by (intro uint_rlp.decode_encode fits32_small) auto

theorem uint_roundtrip_witness: "encode (uint_append 32) 65536 \<bind> decode (uint_decode 32) = Some 65536"
  using uint_roundtrip [of 32 65536] by simp

text \<open>
  Canonical integers. On a data item both integer decoders accept exactly the minimal
  big-endian bytes of a number of the width: no leading zero and no excess length gets through,
  and the number is the one those bytes denote.
\<close>

theorem integers_canonical:
  assumes "fits32 (data_enc v)" and "0 < sz"
  shows "(u_decode sz (data_enc v) = Ok n \<longleftrightarrow> v = be_min n \<and> length v \<le> sz) \<and>
    (uint_decode sz (data_enc v) = Ok n \<longleftrightarrow> v = be_min n \<and> length v \<le> sz)"
  using u_decode_iff [OF assms] uint_decode_iff [OF assms(1)] by blast

theorem integers_canonical_witness: "u_decode 8 (data_enc [0, 5]) \<noteq> Ok 5 \<and> uint_decode 32 (data_enc [1, 0]) = Ok 256"
proof -
  have "[5] = be_min 5" "[1, 0] = be_min 256" unfolding be_min_iff by (simp_all add: be_val_def)
  then have min: "be_min 5 = [5]" "be_min 256 = [1, 0]" by simp_all
  have "fits32 (data_enc [0, 5])" "fits32 (data_enc [1, 0])" by (simp_all add: data_enc_def)
  then show ?thesis
    using integers_canonical [of "[0, 5]" 8 5] integers_canonical [of "[1, 0]" 32 256] min by simp
qed

text \<open>
  Round trip of lists. A list of hashes of one size, written by \<^verbatim>\<open>rlp::encode_list\<close>, is read
  back by \<^verbatim>\<open>rlp::decode_list\<close>, element by element and in order, if its encoding is below 4 GiB.
\<close>

theorem hash_list_roundtrip:
  assumes "list_all (\<lambda>h. length h = sz) hs" and "fits32 (list_enc (concat (map data_enc hs)))"
  shows "encode_list hash_append hs \<bind> decode_list (hash_decode sz) = Some hs"
  using assms by (intro hash_rlp.list_roundtrip(1)) (auto simp: list_all_iff)

theorem hash_list_roundtrip_witness:
  "encode_list hash_append [[1, 2], [3, 4]] \<bind> decode_list (hash_decode 2) = Some [[1, 2], [3, 4]]"
  using hash_list_roundtrip [of 2 "[[1, 2], [3, 4]]"] by (simp add: data_enc_def list_enc_def)

text \<open>
  Round trip of optional values. A list of \<^verbatim>\<open>Option<u64>\<close> survives the round trip: an option is
  a list of no or one item, so the lists are nested, and decoding an element goes through the
  count cache of its view.
\<close>

theorem option_list_roundtrip:
  assumes "list_all (pred_option (\<lambda>v. v < 256 ^ 8)) vs"
    and "fits32 (list_enc (concat (map
      (option_enc (\<lambda>v. data_enc (drop (leading_zeros 64 v div 8) (be_fixed 8 v)))) vs)))"
  shows "encode_list (option_append (u_append 8)) vs \<bind> decode_list (option_decode (u_decode 8)) = Some vs"
  using assms by (intro option_u_rlp.list_roundtrip(1)) (auto simp: list_all_iff pred_option_def)

theorem option_list_roundtrip_witness:
  "encode_list (option_append (u_append 8)) [None, Some 7]
     \<bind> decode_list (option_decode (u_decode 8)) = Some [None, Some 7]"
proof -
  have "[7] = be_min 7" unfolding be_min_iff by (simp add: be_val_def)
  then have "drop (leading_zeros 64 7 div 8) (be_fixed 8 7) = [7]"
    using drop_leading_zero_bytes [of 7 8] by simp
  then have "fits32 (list_enc (concat (map
      (option_enc (\<lambda>v. data_enc (drop (leading_zeros 64 v div 8) (be_fixed 8 v)))) [None, Some 7])))"
    by (simp add: list_enc_def data_enc_def)
  then show ?thesis by (intro option_list_roundtrip) simp_all
qed

text \<open>
  Long form for short data. A data item of 1 to 55 bytes under the long-form header, which the
  encoder never writes, is accepted and decodes like the short form, although the reader has an
  error for needless indirection.
\<close>

theorem long_form_accepted:
  assumes "v \<noteq> []" and "length v \<le> 55"
  shows "decode_value f (0xb8 # byte_of (length v) # v) = f v \<and>
    encode_value v [] \<noteq> Some (0xb8 # byte_of (length v) # v)"
proof
  show "decode_value f (0xb8 # byte_of (length v) # v) = f v"
  proof -
    have "decode_usize [byte_of (length v)] = Ok (length v)"
      using assms by (simp add: decode_usize_def shifted_sum_be_val be_val_def)
    then show ?thesis using assms(2)
      by (simp add: decode_value_def byte_le Let_def checked_add_def usize_max_def)
  qed
  have "length (data_enc v) \<le> length v + 1" using assms(2) by (simp add: data_enc_def)
  then show "encode_value v [] \<noteq> Some (0xb8 # byte_of (length v) # v)"
    using assms(2) by (subst encode_value_enc) auto
qed

theorem long_form_accepted_witness:
  "decode_value Ok [0xb8, 1, 0x85] = Ok [0x85] \<and> encode_value [0x85] [] \<noteq> Some [0xb8, 1, 0x85]"
  using long_form_accepted [of "[0x85]" Ok] by (simp add: byte_of_def)

end
