(* ===== verification/Fixed_Point.thy ===== *)
theory Fixed_Point
  imports Prelude "HOL-Library.Monad_Syntax"
begin

text \<open>
  The 70-bit fixed-point numbers of \<^verbatim>\<open>src/util/fixed_point\<close>, the logarithm that multiplies its argument
  towards one by the factors \<open>1 + 2 ^ - i\<close>, and the delay of a proof-of-stake block that
  \<^verbatim>\<open>src/util/delta-calc\<close> computes from it. \<^verbatim>\<open>BigUint\<close> is a natural number; a \<^verbatim>\<open>BigDecimal\<close> is its digits
  and its scale; the seed hash is a parameter. The lemmas settle for which hashes the computation
  returns: the table constants are rounded, and the rounding decides whether the difference of two
  logarithms can be negative.
\<close>

subsection \<open>Fixed-point numbers\<close>

datatype fixed_point_error = Negative

type_synonym fixed_point = nat

definition PRECISION :: nat where
  "PRECISION = 70"

definition MAX_PRECISION :: fixed_point where
  "MAX_PRECISION = 2 ^ PRECISION"

text \<open>\<open>(digits, scale)\<close> is the number \<open>digits / 10 ^ scale\<close>; \<^verbatim>\<open>to_bigint\<close> truncates towards zero.\<close>

type_synonym big_decimal = "int \<times> nat"

definition decimal_to_bigint :: "big_decimal \<Rightarrow> int" where
  "decimal_to_bigint d = (case d of (digits, scale) \<Rightarrow> sgn digits * (\<bar>digits\<bar> div 10 ^ scale))"

definition parse_from_big_decimal :: "big_decimal \<Rightarrow> fixed_point_error + fixed_point" where
  "parse_from_big_decimal d =
     (case d of (digits, scale) \<Rightarrow>
        let temp = decimal_to_bigint (digits * int MAX_PRECISION, scale)
        in if 0 \<le> temp then Inr (nat temp) else Inl Negative)"

definition fp_to_big_uint :: "fixed_point \<Rightarrow> nat" where
  "fp_to_big_uint x = x div 2 ^ PRECISION"

definition fp_add :: "fixed_point \<Rightarrow> fixed_point \<Rightarrow> fixed_point" where
  "fp_add x y = x + y"

definition fp_subtract :: "fixed_point \<Rightarrow> fixed_point \<Rightarrow> fixed_point_error + fixed_point" where
  "fp_subtract x y = (if x < y then Inl Negative else Inr (x - y))"

definition multiply_uint :: "fixed_point \<Rightarrow> nat \<Rightarrow> fixed_point" where
  "multiply_uint x n = x * n"

definition divide_by_power_of_two :: "fixed_point \<Rightarrow> nat \<Rightarrow> fixed_point" where
  "divide_by_power_of_two x shift = x div 2 ^ shift"

definition fp_to_u64 :: "fixed_point \<Rightarrow> nat" where
  "fp_to_u64 x = (let temp = x div 2 ^ PRECISION in if temp < 2 ^ 64 then temp else 2 ^ 64 - 1)"

text \<open>\<^verbatim>\<open>expect\<close> on a result: the error is a panic.\<close>

definition expect :: "'e + 'a \<Rightarrow> 'a option" where
  "expect r = (case r of Inl _ \<Rightarrow> None | Inr a \<Rightarrow> Some a)"

lemma expect_subtract [simp]: "expect (fp_subtract x y) = (if x < y then None else Some (x - y))"
  by (simp add: expect_def fp_subtract_def)

subsection \<open>The logarithm\<close>

text \<open>The constants have 20 decimals, \<^verbatim>\<open>LN2\<close> has 18.\<close>

definition HARD_CODE_LNS :: "int list" where
  "HARD_CODE_LNS =
     [0, 40546510810816438486, 22314355131420976486, 11778303565638345574, 6062462181643483994,
      3077165866675368733, 1550418653596525448, 778214044205494896, 389864041565732289,
      195122013126174934, 97608597305545892, 48816207950135119, 24411082752736271,
      12206286252567737, 6103329368063853, 3051711247318638, 1525867264836240, 762936542756757,
      381468998968589, 190734681382541, 95367386165919, 47683704451632, 23841855067986,
      11920928244535, 5960464299903, 2980232194361, 1490116108283, 745058056917, 372529029152,
      186264514750, 93132257418]"

definition LN_TABLE :: "fixed_point list" where
  "LN_TABLE = map (\<lambda>s. case parse_from_big_decimal (s, 20) of Inr x \<Rightarrow> x | Inl _ \<Rightarrow> 0) HARD_CODE_LNS"

definition LN2 :: fixed_point where
  "LN2 = (case parse_from_big_decimal (693147180559945309, 18) of Inr x \<Rightarrow> x | Inl _ \<Rightarrow> 0)"

text \<open>
  The loop over the factors; \<open>lns\<close> is the rest of the table from \<open>left_shift\<close> on. \<^verbatim>\<open>None\<close> is the panic of
  an \<^verbatim>\<open>expect\<close>.
\<close>

fun ln_loop :: "fixed_point list \<Rightarrow> nat \<Rightarrow> fixed_point \<Rightarrow> fixed_point \<Rightarrow> fixed_point option" where
  "ln_loop [] left_shift x y = expect (fp_subtract (fp_add y x) MAX_PRECISION)"
| "ln_loop (l # lns) left_shift x y =
     (let x_prime = fp_add x (divide_by_power_of_two x left_shift) in
      if x_prime < MAX_PRECISION then
        do { y' \<leftarrow> expect (fp_subtract y l); ln_loop lns (left_shift + 1) x_prime y' }
      else if x_prime = MAX_PRECISION then expect (fp_subtract y l)
      else ln_loop lns (left_shift + 1) x y)"

definition fp_ln :: "nat \<Rightarrow> fixed_point option" where
  "fp_ln input =
     (let bit_len = nbits input;
          y = multiply_uint LN2 bit_len;
          x = (if bit_len \<le> PRECISION then input * 2 ^ (PRECISION - bit_len)
               else input div 2 ^ (bit_len - PRECISION))
      in if x > MAX_PRECISION then None
         else if x = MAX_PRECISION then Some y
         else ln_loop (tl LN_TABLE) 1 x y)"

subsection \<open>The delay of a proof-of-stake block\<close>

definition LN_BOUNDARY :: "fixed_point option" where
  "LN_BOUNDARY = fp_ln (2 ^ 256)"

definition calculate_delta :: "(bytes \<Rightarrow> bytes) \<Rightarrow> nat \<Rightarrow> bytes \<Rightarrow> nat \<Rightarrow> nat option" where
  "calculate_delta blake2b difficulty seed stake =
     (let hash_of_seed = blake2b seed in do {
        ln_boundary \<leftarrow> LN_BOUNDARY;
        ln_hash \<leftarrow> fp_ln (be_val hash_of_seed);
        u \<leftarrow> expect (fp_subtract ln_boundary ln_hash);
        if stake = 0 then None
        else let delta = fp_to_big_uint (multiply_uint u difficulty) div stake
             in Some (max 1 (if delta < 2 ^ 64 then delta else 1000000000))
      })"

subsection \<open>The constants\<close>

lemma MAX_PRECISION_eval: "MAX_PRECISION = 1180591620717411303424"
  by (simp add: MAX_PRECISION_def PRECISION_def)

lemma LN2_eval: "LN2 = 818323753292969961733"
  by (simp add: LN2_def parse_from_big_decimal_def decimal_to_bigint_def MAX_PRECISION_eval)

lemma LN_TABLE_eval:
  "LN_TABLE = [0, 478688709125778178049, 263441406898681741314, 139053664958586388484,
     71572920525644939266, 36328762377545711618, 18304112710400286721, 9187529797136163839,
     4602702206915280897, 2303594137142748674, 1152358920889075706, 576320060611281987,
     288195197505197603, 144106392698596015, 72055395104146779, 36028247274334636,
     18014261071926600, 9007164895177383, 4503591037457749, 2251797666204331, 1125899369972055,
     562949819203622, 281474943156232, 140737479966715, 70368742080507, 35184371564548,
     17592185913349, 8796092989442, 4398046502908, 2199023253508, 1099511627261]"
  by (simp add: LN_TABLE_def HARD_CODE_LNS_def parse_from_big_decimal_def decimal_to_bigint_def
      MAX_PRECISION_eval)

subsection \<open>When the logarithm returns\<close>

lemmas ln_ops = fp_add_def divide_by_power_of_two_def multiply_uint_def Let_def

text \<open>
  Enough room for every table entry still to come means no panic: multiplying by a factor takes its
  logarithm off \<open>y\<close> and only enlarges \<open>x\<close>.
\<close>

lemma ln_loop_total:
  assumes "sum_list lns + MAX_PRECISION \<le> y + x" and "x \<le> MAX_PRECISION"
  shows "\<exists>r. ln_loop lns i x y = Some r"
  using assms
proof (induction lns arbitrary: i x y)
  case (Cons l lns)
  have l: "l \<le> y" and room: "sum_list lns + MAX_PRECISION \<le> (y - l) + (x + k)"
    and skip: "sum_list lns + MAX_PRECISION \<le> y + x" for k
    using Cons.prems by auto
  have "\<exists>r. ln_loop lns (Suc i) (x + x div 2 ^ i) (y - l) = Some r" if "x + x div 2 ^ i < MAX_PRECISION"
    using that by (intro Cons.IH room) simp
  moreover have "\<exists>r. ln_loop lns (Suc i) x y = Some r" by (intro Cons.IH skip Cons.prems)
  ultimately show ?case using l by (simp add: ln_ops)
qed (simp add: ln_ops)

text \<open>The result never exceeds \<open>y\<close>, and is below it by an entry as soon as one factor fits.\<close>

lemma ln_loop_le: "ln_loop lns i x y = Some r \<Longrightarrow> x \<le> MAX_PRECISION \<Longrightarrow> r \<le> y"
proof (induction lns arbitrary: i x y)
  case (Cons l lns)
  then show ?case
    by (auto simp: ln_ops split: if_splits dest!: Cons.IH)
qed (auto simp: ln_ops split: if_splits)

lemma ln_loop_factor:
  assumes "ln_loop lns i x y = Some r" and "lns \<noteq> []" and "\<And>l. l \<in> set lns \<Longrightarrow> m \<le> l"
    and "x + x div 2 ^ (i + length lns - 1) \<le> MAX_PRECISION"
  shows "r + m \<le> y"
  using assms
proof (induction lns arbitrary: i)
  case (Cons l lns)
  show ?case
  proof (cases "x + x div 2 ^ i \<le> MAX_PRECISION")
    case True
    have "m \<le> l" using Cons.prems(3) by simp
    then show ?thesis using Cons.prems(1) True
      by (auto simp: ln_ops split: if_splits dest!: ln_loop_le)
  next
    case False
    then have "lns \<noteq> []" using Cons.prems(4) by auto
    then show ?thesis using Cons.prems False by (intro Cons.IH [of "i + 1"]) (auto simp: ln_ops)
  qed
qed simp

text \<open>When no factor fits, \<open>x\<close> stays and the last step is the tangent at one.\<close>

lemma ln_loop_no_factor:
  assumes "MAX_PRECISION < x + x div 2 ^ (i + length lns - 1)"
  shows "ln_loop lns i x y = expect (fp_subtract (y + x) MAX_PRECISION)"
  using assms
proof (induction lns arbitrary: i)
  case (Cons l lns)
  have "x div 2 ^ (i + length (l # lns) - 1) \<le> x div 2 ^ i"
    by (intro div_le_mono2) (simp_all add: power_increasing)
  then have "MAX_PRECISION < x + x div 2 ^ i" using Cons.prems by linarith
  then show ?case using Cons.prems Cons.IH [of "i + 1"]
    by (cases lns) (simp_all add: ln_ops)
qed (simp add: ln_ops)

subsection \<open>The normalised argument\<close>

definition ln_arg :: "nat \<Rightarrow> nat" where
  "ln_arg n = (if nbits n \<le> 70 then n * 2 ^ (70 - nbits n) else n div 2 ^ (nbits n - 70))"

lemma power_split: "a \<le> b \<Longrightarrow> (2::nat) ^ b = 2 ^ a * 2 ^ (b - a)"
  by (metis le_add_diff_inverse power_add)

lemma ln_arg_less: "ln_arg n < 2 ^ 70"
proof (cases "nbits n \<le> 70")
  case True
  have "n * 2 ^ (70 - nbits n) < 2 ^ 70"
    using nbits_less [of n] unfolding power_split [OF True] by simp
  then show ?thesis using True by (simp add: ln_arg_def)
next
  case False
  then have "(2::nat) ^ nbits n = 2 ^ 70 * 2 ^ (nbits n - 70)" by (intro power_split) simp
  then have "n < 2 ^ 70 * 2 ^ (nbits n - 70)" using nbits_less [of n] by metis
  then show ?thesis using False by (simp add: ln_arg_def less_mult_imp_div_less)
qed

lemma ln_arg_ge:
  assumes "0 < n"
  shows "2 ^ 69 \<le> ln_arg n"
proof -
  have ge: "2 ^ (nbits n - 1) \<le> n" using assms by (rule nbits_ge)
  have pos: "0 < nbits n" using assms nbits_gt_iff [of 0 n] by simp
  show ?thesis
  proof (cases "nbits n \<le> 70")
    case True
    have "(2::nat) ^ 69 = 2 ^ (nbits n - 1) * 2 ^ (69 - (nbits n - 1))"
      using True by (intro power_split) simp
    moreover have "69 - (nbits n - 1) = 70 - nbits n" using pos by simp
    ultimately have "(2::nat) ^ 69 \<le> n * 2 ^ (70 - nbits n)" using ge by (metis mult_le_mono1)
    then show ?thesis using True by (simp add: ln_arg_def)
  next
    case False
    then have "(2::nat) ^ (nbits n - 1) = 2 ^ 69 * 2 ^ (nbits n - 1 - 69)" by (intro power_split) simp
    moreover have "nbits n - 1 - 69 = nbits n - 70" by simp
    ultimately have "2 ^ 69 * 2 ^ (nbits n - 70) \<le> n" using ge by metis
    then show ?thesis using False by (simp add: ln_arg_def less_eq_div_iff_mult_less_eq)
  qed
qed

lemma fp_ln_loop: "fp_ln n = ln_loop (tl LN_TABLE) 1 (ln_arg n) (LN2 * nbits n)"
proof -
  have "fp_ln n = (if MAX_PRECISION < ln_arg n then None
      else if ln_arg n = MAX_PRECISION then Some (LN2 * nbits n)
      else ln_loop (tl LN_TABLE) 1 (ln_arg n) (LN2 * nbits n))"
    by (simp add: fp_ln_def ln_arg_def PRECISION_def multiply_uint_def Let_def)
  then show ?thesis using ln_arg_less [of n] by (simp add: MAX_PRECISION_eval)
qed

lemma nbits_ge_2: "2 \<le> n \<Longrightarrow> 2 \<le> nbits n"
  using nbits_gt_iff [of 1 n] by simp

lemma fp_ln_total:
  assumes "2 \<le> n"
  shows "\<exists>r. fp_ln n = Some r"
proof -
  have "LN2 * 2 \<le> LN2 * nbits n" using nbits_ge_2 [OF assms] by (intro mult_le_mono) simp_all
  then have "sum_list (tl LN_TABLE) + MAX_PRECISION \<le> LN2 * nbits n + ln_arg n"
    using ln_arg_ge [of n] assms by (simp add: LN_TABLE_eval LN2_eval MAX_PRECISION_eval)
  then show ?thesis using ln_arg_less [of n]
    by (simp add: fp_ln_loop ln_loop_total MAX_PRECISION_eval)
qed

lemma fp_ln_le: "fp_ln n = Some r \<Longrightarrow> r \<le> LN2 * nbits n"
  using ln_loop_le [of "tl LN_TABLE" 1 "ln_arg n" "LN2 * nbits n" r] ln_arg_less [of n]
  by (simp add: fp_ln_loop MAX_PRECISION_eval)

subsection \<open>When the delay is defined\<close>

text \<open>
  \<open>2 ^ 256\<close> has 257 bits and is normalised to one half; its logarithm falls short of \<open>256 * LN2\<close> by the
  accumulated rounding, which is the margin below.
\<close>

lemma nbits_boundary: "nbits (2 ^ 256) = 257"
  using nbits_eqI [of 256 "2 ^ 256"] by simp

lemma ln_arg_boundary: "ln_arg (2 ^ 256) = 2 ^ 69"
  unfolding ln_arg_def nbits_boundary by simp

lemma LN_BOUNDARY_eval: "LN_BOUNDARY = Some (256 * LN2 - 11337)"
  unfolding LN_BOUNDARY_def fp_ln_loop nbits_boundary ln_arg_boundary
  by (simp add: LN_TABLE_eval LN2_eval MAX_PRECISION_eval ln_ops)

lemma fp_ln_0: "fp_ln 0 = None"
  by (simp add: fp_ln_loop ln_arg_def LN_TABLE_eval MAX_PRECISION_eval ln_ops)

lemma fp_ln_1: "fp_ln 1 = None"
proof -
  have "nbits 1 = 1" using nbits_eqI [of 0 1] by simp
  then show ?thesis
    by (simp add: fp_ln_loop ln_arg_def LN_TABLE_eval LN2_eval MAX_PRECISION_eval ln_ops)
qed

lemma fp_ln_small:
  assumes "fp_ln n = Some r" and "n < 2 ^ 255"
  shows "r \<le> 256 * LN2 - 11337"
proof -
  have "nbits n \<le> 255" using assms(2) nbits_le_iff by blast
  then have "LN2 * nbits n \<le> LN2 * 255" by (intro mult_le_mono) simp_all
  then show ?thesis using fp_ln_le [OF assms(1)] by (simp add: LN2_eval)
qed

lemma length_LN: "length (tl LN_TABLE) = 30" "l \<in> set (tl LN_TABLE) \<Longrightarrow> 1099511627261 \<le> l" "tl LN_TABLE \<noteq> []"
  by (auto simp: LN_TABLE_eval)

lemma fp_ln_large:
  assumes "fp_ln n = Some r" and "2 ^ 255 \<le> n" and "n < 2 ^ 256"
  shows "r \<le> 256 * LN2 - 11337 \<longleftrightarrow> n div 2 ^ 186 \<le> 2 ^ 70 - 11337"
proof -
  have bits: "nbits n = 256" using assms(2,3) nbits_eqI [of 255 n] by simp
  let ?x = "n div 2 ^ 186"
  have x: "ln_arg n = ?x" by (simp add: ln_arg_def bits)
  have less: "?x < 2 ^ 70" using ln_arg_less [of n] x by simp
  have loop: "ln_loop (tl LN_TABLE) 1 ?x (LN2 * 256) = Some r"
    using assms(1) unfolding fp_ln_loop bits x .
  show ?thesis
  proof (cases "MAX_PRECISION < ?x + ?x div 2 ^ 30")
    case True
    then have "ln_loop (tl LN_TABLE) 1 ?x (LN2 * 256) = expect (fp_subtract (LN2 * 256 + ?x) MAX_PRECISION)"
      by (intro ln_loop_no_factor) (unfold length_LN(1), simp)
    then have "r = LN2 * 256 + ?x - MAX_PRECISION" using loop by (simp split: if_splits)
    then show ?thesis using less by (auto simp: LN2_eval MAX_PRECISION_eval)
  next
    case False
    then have fits: "?x + ?x div 2 ^ (1 + length (tl LN_TABLE) - 1) \<le> MAX_PRECISION"
      unfolding length_LN(1) by simp
    have "r + 1099511627261 \<le> LN2 * 256"
      by (rule ln_loop_factor [OF loop length_LN(3) length_LN(2) fits])
    moreover have "?x \<le> 2 ^ 70 - 11337"
    proof (rule ccontr)
      assume *: "\<not> ?x \<le> 2 ^ 70 - 11337"
      then have "2 ^ 40 - 1 \<le> ?x div 2 ^ 30"
        using div_le_mono [of "2 ^ 70 - 11337" ?x "2 ^ 30"] by simp
      then show False using False * by (simp add: MAX_PRECISION_eval)
    qed
    ultimately show ?thesis by (simp add: LN2_eval)
  qed
qed

definition hash_ok :: "nat \<Rightarrow> bool" where
  "hash_ok h \<longleftrightarrow> 2 \<le> h \<and> h div 2 ^ 186 \<le> 2 ^ 70 - 11337"

lemma fp_ln_boundary_iff:
  assumes "h < 2 ^ 256"
  shows "(\<exists>r. fp_ln h = Some r \<and> r \<le> 256 * LN2 - 11337) \<longleftrightarrow> hash_ok h"
proof (cases "2 \<le> h")
  case False
  then consider "h = 0" | "h = 1" by linarith
  then show ?thesis using fp_ln_0 fp_ln_1 False by (cases) (simp_all add: hash_ok_def)
next
  case True
  then obtain r where r: "fp_ln h = Some r" using fp_ln_total by blast
  show ?thesis
  proof (cases "h < 2 ^ 255")
    case True
    have "h div 2 ^ 186 \<le> 2 ^ 255 div 2 ^ 186" using True by (intro div_le_mono) simp
    then show ?thesis using fp_ln_small [OF r True] r \<open>2 \<le> h\<close> by (simp add: hash_ok_def)
  next
    case False
    then show ?thesis using fp_ln_large [OF r _ assms] r \<open>2 \<le> h\<close> by (simp add: hash_ok_def)
  qed
qed

lemma hash_less:
  assumes "length (h :: bytes) = 32"
  shows "be_val h < 2 ^ 256"
  using be_val_less [of h] assms by simp

lemma calculate_delta_Some:
  assumes "length (blake2b seed) = 32" and "0 < stake" and "hash_ok (be_val (blake2b seed))"
  obtains r where "fp_ln (be_val (blake2b seed)) = Some r" and "r \<le> 256 * LN2 - 11337"
    and "calculate_delta blake2b difficulty seed stake =
      (let delta = (256 * LN2 - 11337 - r) * difficulty div 2 ^ 70 div stake
       in Some (max 1 (if delta < 2 ^ 64 then delta else 1000000000)))"
  using fp_ln_boundary_iff [OF hash_less [OF assms(1)]] assms(2,3) that
  by (auto simp: calculate_delta_def LN_BOUNDARY_eval fp_to_big_uint_def multiply_uint_def PRECISION_def Let_def)

subsection \<open>Properties\<close>

lemma be_val_replicate_0: "be_val (replicate n 0) = 0"
  by (induction n) (simp_all add: be_val_Cons)

lemma be_val_replicate_255: "be_val (replicate n 255) + 1 = 256 ^ n"
  by (induction n) (simp_all add: be_val_Cons)

text \<open>
  The logarithm of one. The fixed-point logarithm returns for every argument from two on; for
  one, whose logarithm is zero, the rounded constants make a subtraction negative and it panics, as
  it does for zero.
\<close>

theorem ln_defined_iff: "fp_ln n = None \<longleftrightarrow> n \<le> 1"
proof (cases "2 \<le> n")
  case True
  then show ?thesis using fp_ln_total [OF True] by auto
next
  case False
  then consider "n = 0" | "n = 1" by linarith
  then show ?thesis using fp_ln_0 fp_ln_1 by cases simp_all
qed

text \<open>
  C30 (when the delay of a block is defined). For a 32-byte seed hash and a positive stake the
  computation panics exactly when the hash is at most one or its 70 leading bits exceed
  \<open>2 ^ 70 - 11337\<close>: the logarithm of \<open>2 ^ 256\<close> is rounded down so far that the logarithm of the hash
  can be larger, although every hash is below \<open>2 ^ 256\<close>.
\<close>

theorem delta_panics_iff:
  assumes "length (blake2b seed) = 32" and "0 < stake"
  shows "calculate_delta blake2b difficulty seed stake = None \<longleftrightarrow>
    be_val (blake2b seed) \<le> 1 \<or> 2 ^ 70 - 11337 < be_val (blake2b seed) div 2 ^ 186"
proof (cases "hash_ok (be_val (blake2b seed))")
  case True
  then have "calculate_delta blake2b difficulty seed stake \<noteq> None"
    using calculate_delta_Some [of blake2b seed stake difficulty, OF assms True] by (auto simp: Let_def)
  then show ?thesis using True by (simp add: hash_ok_def not_less)
next
  case False
  have "calculate_delta blake2b difficulty seed stake = None"
    using fp_ln_boundary_iff [OF hash_less [OF assms(1)]] False
    by (cases "fp_ln (be_val (blake2b seed))") (auto simp: calculate_delta_def LN_BOUNDARY_eval)
  then show ?thesis using False by (auto simp: hash_ok_def)
qed

theorem delta_panics_iff_witness: "calculate_delta (\<lambda>_. replicate 32 255) 1000 [] 5 = None"
proof -
  have "be_val (replicate 32 255) + 1 = 256 ^ 32" by (rule be_val_replicate_255)
  then show ?thesis using delta_panics_iff [of "\<lambda>_. replicate 32 255" "[]" 5 1000] by simp
qed



end
