(* ===== verification/Header.thy ===== *)
theory Header
  imports Rlp_Impls
begin

text \<open>
  The block header of \<^verbatim>\<open>src/core/src/header.rs\<close>: its fields, its setters, the two memoised hashes, its
  RLP form and the hash that miners and stakers seal. The hash function \<^verbatim>\<open>blake2b\<close> is a parameter.
  Reading a header back threads the view through the field accesses, because every access moves
  the view's offset cache. The lemmas show that a memoised hash is never stale and that a header
  survives being encoded and decoded.
\<close>

subsection \<open>State\<close>

datatype seal_type = PoW | PoS

datatype seal_mode = With | Without

record header =
  h_seal_type :: "seal_type option"
  h_number :: nat
  h_parent_hash :: bytes
  h_author :: bytes
  h_state_root :: bytes
  h_transactions_root :: bytes
  h_receipts_root :: bytes
  h_log_bloom :: bytes
  h_difficulty :: nat
  h_extra_data :: bytes
  h_gas_used :: nat
  h_gas_limit :: nat
  h_timestamp :: nat
  h_seal :: "bytes list"
  h_hash :: "bytes option"
  h_bare_hash :: "bytes option"
  h_transaction_fee :: nat
  h_reward :: nat

definition BLAKE2B_NULL_RLP :: bytes where
  "BLAKE2B_NULL_RLP =
     [0x45, 0xb0, 0xcf, 0xc2, 0x20, 0xce, 0xec, 0x5b, 0x7c, 0x1c, 0x62, 0xc4, 0xd4, 0x19, 0x3d, 0x38,
      0xe4, 0xeb, 0xa4, 0x8e, 0x88, 0x15, 0x72, 0x9c, 0xe7, 0x5f, 0x9c, 0x0a, 0xb0, 0xe4, 0xc1, 0xc0]"

definition header_default :: header where
  "header_default = \<lparr>h_seal_type = Some PoW, h_number = 0, h_parent_hash = replicate 32 0,
     h_author = replicate 32 0, h_state_root = BLAKE2B_NULL_RLP, h_transactions_root = BLAKE2B_NULL_RLP,
     h_receipts_root = BLAKE2B_NULL_RLP, h_log_bloom = replicate 256 0, h_difficulty = 0,
     h_extra_data = [], h_gas_used = 0, h_gas_limit = 0, h_timestamp = 0, h_seal = [],
     h_hash = None, h_bare_hash = None, h_transaction_fee = 0, h_reward = 0\<rparr>"

text \<open>\<^verbatim>\<open>PartialEq\<close> compares every field but the memoised hashes.\<close>

definition header_eq :: "header \<Rightarrow> header \<Rightarrow> bool" where
  "header_eq a c \<longleftrightarrow>
     h_seal_type a = h_seal_type c \<and> h_parent_hash a = h_parent_hash c \<and> h_timestamp a = h_timestamp c \<and>
     h_number a = h_number c \<and> h_author a = h_author c \<and>
     h_transactions_root a = h_transactions_root c \<and> h_extra_data a = h_extra_data c \<and>
     h_state_root a = h_state_root c \<and> h_receipts_root a = h_receipts_root c \<and>
     h_log_bloom a = h_log_bloom c \<and> h_gas_used a = h_gas_used c \<and> h_gas_limit a = h_gas_limit c \<and>
     h_difficulty a = h_difficulty c \<and> h_seal a = h_seal c \<and>
     h_transaction_fee a = h_transaction_fee c \<and> h_reward a = h_reward c"

subsection \<open>Seal types and number conversions\<close>

definition seal_type_of_u8 :: "u8 \<Rightarrow> seal_type" where
  "seal_type_of_u8 v = (if v = 1 then PoW else if v = 2 then PoS else PoW)"

fun seal_type_to_u8 :: "seal_type \<Rightarrow> u8" where
  "seal_type_to_u8 PoW = 1"
| "seal_type_to_u8 PoS = 2"

definition seal_type_append :: "seal_type \<Rightarrow> rlp_stream \<Rightarrow> rlp_stream option" where
  "seal_type_append t = u8_append (seal_type_to_u8 t)"

definition seal_type_decode :: "bytes \<Rightarrow> seal_type decoded" where
  "seal_type_decode bs = try_ok (u8_decode bs) (\<lambda>v. Ok (seal_type_of_u8 v))"

definition seal_type_or_default :: "seal_type option \<Rightarrow> seal_type" where
  "seal_type_or_default t = (case t of None \<Rightarrow> PoW | Some x \<Rightarrow> x)"

text \<open>The low 128 bits, and the two low bytes, of a difficulty; the low 64 bits of a \<^verbatim>\<open>U256\<close>.\<close>

definition u256_to_u128 :: "nat \<Rightarrow> nat" where
  "u256_to_u128 v = v mod 2 ^ 128"

definition u256_to_u16 :: "nat \<Rightarrow> bytes" where
  "u256_to_u16 v = (let val = be_fixed 32 v in [val ! 30, val ! 31])"

definition low_u64 :: "nat \<Rightarrow> nat" where
  "low_u64 v = v mod 2 ^ 64"

definition u64_to_bytes :: "nat \<Rightarrow> bytes" where
  "u64_to_bytes i = be_fixed 8 i"

definition to_u256 :: "bytes \<Rightarrow> nat \<Rightarrow> nat" where
  "to_u256 input len =
     (if len < length input then be_val (drop (length input - len) input) else be_val input)"

subsection \<open>Setters\<close>

definition note_dirty :: "header \<Rightarrow> header" where
  "note_dirty h = h\<lparr>h_hash := None, h_bare_hash := None\<rparr>"

definition set_seal_type :: "seal_type \<Rightarrow> header \<Rightarrow> header" where
  "set_seal_type t h = note_dirty (h\<lparr>h_seal_type := Some t\<rparr>)"

definition set_parent_hash :: "bytes \<Rightarrow> header \<Rightarrow> header" where
  "set_parent_hash a h = note_dirty (h\<lparr>h_parent_hash := a\<rparr>)"

definition set_state_root :: "bytes \<Rightarrow> header \<Rightarrow> header" where
  "set_state_root a h = note_dirty (h\<lparr>h_state_root := a\<rparr>)"

definition set_transactions_root :: "bytes \<Rightarrow> header \<Rightarrow> header" where
  "set_transactions_root a h = note_dirty (h\<lparr>h_transactions_root := a\<rparr>)"

definition set_receipts_root :: "bytes \<Rightarrow> header \<Rightarrow> header" where
  "set_receipts_root a h = note_dirty (h\<lparr>h_receipts_root := a\<rparr>)"

definition set_log_bloom :: "bytes \<Rightarrow> header \<Rightarrow> header" where
  "set_log_bloom a h = note_dirty (h\<lparr>h_log_bloom := a\<rparr>)"

definition set_timestamp :: "nat \<Rightarrow> header \<Rightarrow> header" where
  "set_timestamp a h = note_dirty (h\<lparr>h_timestamp := a\<rparr>)"

text \<open>\<^verbatim>\<open>but_later_than + 1\<close> is a \<^verbatim>\<open>u64\<close> addition; the builds this models check it.\<close>

definition set_timestamp_later_than :: "nat \<Rightarrow> nat \<Rightarrow> header \<Rightarrow> header option" where
  "set_timestamp_later_than a but_later_than h =
     (if but_later_than + 1 < 2 ^ 64
      then Some (note_dirty (h\<lparr>h_timestamp := max a (but_later_than + 1)\<rparr>)) else None)"

definition set_timestamp_now_later_than :: "nat \<Rightarrow> nat \<Rightarrow> header \<Rightarrow> header option" where
  "set_timestamp_now_later_than now but_later_than h = set_timestamp_later_than now but_later_than h"

definition set_number :: "nat \<Rightarrow> header \<Rightarrow> header" where
  "set_number a h = note_dirty (h\<lparr>h_number := a\<rparr>)"

definition set_author :: "bytes \<Rightarrow> header \<Rightarrow> header" where
  "set_author a h = (if a \<noteq> h_author h then note_dirty (h\<lparr>h_author := a\<rparr>) else h)"

definition set_extra_data :: "bytes \<Rightarrow> header \<Rightarrow> header" where
  "set_extra_data a h = (if a \<noteq> h_extra_data h then note_dirty (h\<lparr>h_extra_data := a\<rparr>) else h)"

definition set_gas_used :: "nat \<Rightarrow> header \<Rightarrow> header" where
  "set_gas_used a h = note_dirty (h\<lparr>h_gas_used := a\<rparr>)"

definition set_gas_limit :: "nat \<Rightarrow> header \<Rightarrow> header" where
  "set_gas_limit a h = note_dirty (h\<lparr>h_gas_limit := a\<rparr>)"

definition set_difficulty :: "nat \<Rightarrow> header \<Rightarrow> header" where
  "set_difficulty a h = note_dirty (h\<lparr>h_difficulty := a\<rparr>)"

definition set_seal :: "bytes list \<Rightarrow> header \<Rightarrow> header" where
  "set_seal a h = note_dirty (h\<lparr>h_seal := a\<rparr>)"

text \<open>The \<^verbatim>\<open>U256\<close> sum panics when it overflows.\<close>

definition add_transaction_fee :: "nat \<Rightarrow> header \<Rightarrow> header option" where
  "add_transaction_fee fee h =
     (if h_transaction_fee h + fee < 2 ^ 256
      then Some (h\<lparr>h_transaction_fee := h_transaction_fee h + fee\<rparr>) else None)"

definition set_reward :: "nat \<Rightarrow> header \<Rightarrow> header" where
  "set_reward r h = h\<lparr>h_reward := r\<rparr>"

subsection \<open>Derived values\<close>

definition boundary :: "header \<Rightarrow> nat" where
  "boundary h =
     (if h_difficulty h \<le> 1 then 2 ^ 256 - 1 else (2 ^ 255 div h_difficulty h) * 2 mod 2 ^ 256)"

text \<open>The conversion of a slice to an \<^verbatim>\<open>H256\<close>, of the hash crate, is a parameter.\<close>

definition get_pk_of_pos :: "(bytes \<Rightarrow> bytes) \<Rightarrow> header \<Rightarrow> bytes option" where
  "get_pk_of_pos h256_from h =
     (if h_seal_type h = None \<or> h_seal_type h = Some PoW \<or> length (h_seal h) \<noteq> 3 then None
      else Some (h256_from (h_seal h ! 2)))"

definition mine_hash_bytes :: "header \<Rightarrow> bytes" where
  "mine_hash_bytes h =
     [seal_type_to_u8 (seal_type_or_default (h_seal_type h))] @ u64_to_bytes (h_number h) @
     h_parent_hash h @ h_author h @ h_state_root h @ h_transactions_root h @ h_receipts_root h @
     h_log_bloom h @ be_fixed 16 (u256_to_u128 (h_difficulty h)) @ h_extra_data h @
     u64_to_bytes (low_u64 (h_gas_used h)) @ u64_to_bytes (low_u64 (h_gas_limit h)) @
     u64_to_bytes (h_timestamp h) @
     (if h_seal_type h = Some PoS \<and> 1 \<le> length (h_seal h) then h_seal h ! 0 else [])"

definition mine_hash :: "(bytes \<Rightarrow> bytes) \<Rightarrow> header \<Rightarrow> bytes" where
  "mine_hash blake2b h = blake2b (mine_hash_bytes h)"

subsection \<open>The RLP form\<close>

definition difficulty_buffer :: "header \<Rightarrow> bytes" where
  "difficulty_buffer h =
     (if h_number h = 0 then u256_to_u16 (h_difficulty h) else be_fixed 16 (u256_to_u128 (h_difficulty h)))"

text \<open>The values appended, in order, each with its type's \<^verbatim>\<open>rlp_append\<close>.\<close>

definition header_fields :: "seal_mode \<Rightarrow> header \<Rightarrow> (rlp_stream \<Rightarrow> rlp_stream option) list" where
  "header_fields with_seal h =
     [seal_type_append (seal_type_or_default (h_seal_type h)), u_append 8 (h_number h),
      hash_append (h_parent_hash h), hash_append (h_author h), hash_append (h_state_root h),
      hash_append (h_transactions_root h), hash_append (h_receipts_root h), hash_append (h_log_bloom h),
      vec_append (difficulty_buffer h), vec_append (h_extra_data h), uint_append 32 (h_gas_used h),
      uint_append 32 (h_gas_limit h), u_append 8 (h_timestamp h)] @
     (case with_seal of With \<Rightarrow> map vec_append (h_seal h) | Without \<Rightarrow> [])"

definition stream_rlp :: "header \<Rightarrow> seal_mode \<Rightarrow> rlp_stream \<Rightarrow> rlp_stream option" where
  "stream_rlp h with_seal s =
     begin_list (13 + (case with_seal of With \<Rightarrow> length (h_seal h) | Without \<Rightarrow> 0)) s
       \<bind> append_each (header_fields with_seal h)"

definition header_rlp :: "header \<Rightarrow> seal_mode \<Rightarrow> bytes option" where
  "header_rlp h with_seal = stream_rlp h with_seal stream_new \<bind> stream_out"

definition rlp_blake2b :: "(bytes \<Rightarrow> bytes) \<Rightarrow> header \<Rightarrow> seal_mode \<Rightarrow> bytes option" where
  "rlp_blake2b blake2b h with_seal = map_option blake2b (header_rlp h with_seal)"

definition header_hash :: "(bytes \<Rightarrow> bytes) \<Rightarrow> header \<Rightarrow> (header \<times> bytes) option" where
  "header_hash blake2b h =
     (case h_hash h of
        Some x \<Rightarrow> Some (h, x)
      | None \<Rightarrow> do { x \<leftarrow> rlp_blake2b blake2b h With; Some (h\<lparr>h_hash := Some x\<rparr>, x) })"

definition bare_hash :: "(bytes \<Rightarrow> bytes) \<Rightarrow> header \<Rightarrow> (header \<times> bytes) option" where
  "bare_hash blake2b h =
     (case h_bare_hash h of
        Some x \<Rightarrow> Some (h, x)
      | None \<Rightarrow> do { x \<leftarrow> rlp_blake2b blake2b h Without; Some (h\<lparr>h_bare_hash := Some x\<rparr>, x) })"

text \<open>
  \<open>at_field dec i r k\<close> is \<^verbatim>\<open>r.val_at(i)?\<close> followed by \<open>k\<close>, which gets the view as the access left it.
\<close>

definition at_field :: "(bytes \<Rightarrow> 'a decoded) \<Rightarrow> nat \<Rightarrow> untrusted_rlp \<Rightarrow>
    (untrusted_rlp \<Rightarrow> 'a \<Rightarrow> 'b decoded) \<Rightarrow> 'b decoded" where
  "at_field dec i r k =
     (case rlp_at r i of (r', x) \<Rightarrow> try_ok (try_ok x (\<lambda>v. dec (raw v))) (\<lambda>a. k r' a))"

fun decode_seals :: "nat \<Rightarrow> nat \<Rightarrow> untrusted_rlp \<Rightarrow> bytes list decoded" where
  "decode_seals 0 i r = Ok []"
| "decode_seals (Suc n) i r =
     at_field vec_decode i r (\<lambda>r' b. map_ok (\<lambda>bs. b # bs) (decode_seals n (i + 1) r'))"

definition header_decode :: "(bytes \<Rightarrow> bytes) \<Rightarrow> bytes \<Rightarrow> header decoded" where
  "header_decode blake2b bs =
     at_field seal_type_decode 0 (rlp_new bs) (\<lambda>r seal_type.
     at_field (uint_decode 32) 1 r (\<lambda>r number.
     at_field (hash_decode 32) 2 r (\<lambda>r parent_hash.
     at_field (hash_decode 32) 3 r (\<lambda>r author.
     at_field (hash_decode 32) 4 r (\<lambda>r state_root.
     at_field (hash_decode 32) 5 r (\<lambda>r transactions_root.
     at_field (hash_decode 32) 6 r (\<lambda>r receipts_root.
     at_field (hash_decode 256) 7 r (\<lambda>r log_bloom.
     at_field vec_decode 8 r (\<lambda>r difficulty.
     at_field vec_decode 9 r (\<lambda>r extra_data.
     at_field vec_decode 10 r (\<lambda>r gas_used.
     at_field vec_decode 11 r (\<lambda>r gas_limit.
     at_field (uint_decode 32) 12 r (\<lambda>r timestamp.
     (case item_count r of (r', n) \<Rightarrow> try_ok n (\<lambda>items.
        map_ok (\<lambda>seals.
          \<lparr>h_seal_type = Some seal_type, h_number = low_u64 number, h_parent_hash = parent_hash,
           h_author = author, h_state_root = state_root, h_transactions_root = transactions_root,
           h_receipts_root = receipts_root, h_log_bloom = log_bloom,
           h_difficulty = to_u256 difficulty 16, h_extra_data = extra_data,
           h_gas_used = to_u256 gas_used 8, h_gas_limit = to_u256 gas_limit 8,
           h_timestamp = low_u64 timestamp, h_seal = seals, h_hash = Some (blake2b bs),
           h_bare_hash = None, h_transaction_fee = 0, h_reward = 0\<rparr>)
          (decode_seals (items - 13) 13 r'))))))))))))))))"

subsection \<open>A memoised hash is never stale\<close>

definition memo_sound :: "(bytes \<Rightarrow> bytes) \<Rightarrow> header \<Rightarrow> bool" where
  "memo_sound blake2b h \<longleftrightarrow>
     (\<forall>x. h_hash h = Some x \<longrightarrow> rlp_blake2b blake2b h With = Some x) \<and>
     (\<forall>x. h_bare_hash h = Some x \<longrightarrow> rlp_blake2b blake2b h Without = Some x)"

text \<open>The fields the RLP form does not contain.\<close>

lemma rlp_blake2b_frame [simp]:
  "rlp_blake2b blake2b (h\<lparr>h_hash := x\<rparr>) w = rlp_blake2b blake2b h w"
  "rlp_blake2b blake2b (h\<lparr>h_bare_hash := x\<rparr>) w = rlp_blake2b blake2b h w"
  "rlp_blake2b blake2b (h\<lparr>h_transaction_fee := n\<rparr>) w = rlp_blake2b blake2b h w"
  "rlp_blake2b blake2b (h\<lparr>h_reward := n\<rparr>) w = rlp_blake2b blake2b h w"
  by (cases w; simp add: rlp_blake2b_def header_rlp_def stream_rlp_def header_fields_def difficulty_buffer_def
      del: append_each.simps)+

lemma memo_sound_dirty: "memo_sound blake2b (note_dirty h)"
  by (simp add: memo_sound_def note_dirty_def)

lemma memo_sound_default: "memo_sound blake2b header_default"
  by (simp add: memo_sound_def header_default_def)

lemma memo_sound_hash:
  assumes "memo_sound blake2b h" and "header_hash blake2b h = Some (h', x)"
  shows "memo_sound blake2b h' \<and> rlp_blake2b blake2b h' With = Some x"
  using assms by (auto simp: memo_sound_def header_hash_def bind_eq_Some_conv split: option.splits)

lemma memo_sound_bare_hash:
  assumes "memo_sound blake2b h" and "bare_hash blake2b h = Some (h', x)"
  shows "memo_sound blake2b h' \<and> rlp_blake2b blake2b h' Without = Some x"
  using assms by (auto simp: memo_sound_def bare_hash_def bind_eq_Some_conv split: option.splits)

text \<open>Every operation of the header, and a run of them; a panic ends the run.\<close>

datatype header_op =
    Set_Seal_Type seal_type | Set_Parent_Hash bytes | Set_State_Root bytes | Set_Transactions_Root bytes
  | Set_Receipts_Root bytes | Set_Log_Bloom bytes | Set_Timestamp nat | Set_Timestamp_Later_Than nat nat
  | Set_Number nat | Set_Author bytes | Set_Extra_Data bytes | Set_Gas_Used nat | Set_Gas_Limit nat
  | Set_Difficulty nat | Set_Seal "bytes list" | Add_Transaction_Fee nat | Set_Reward nat
  | Get_Hash | Get_Bare_Hash

fun header_step :: "(bytes \<Rightarrow> bytes) \<Rightarrow> header_op \<Rightarrow> header \<Rightarrow> header option" where
  "header_step blake2b (Set_Seal_Type t) h = Some (set_seal_type t h)"
| "header_step blake2b (Set_Parent_Hash a) h = Some (set_parent_hash a h)"
| "header_step blake2b (Set_State_Root a) h = Some (set_state_root a h)"
| "header_step blake2b (Set_Transactions_Root a) h = Some (set_transactions_root a h)"
| "header_step blake2b (Set_Receipts_Root a) h = Some (set_receipts_root a h)"
| "header_step blake2b (Set_Log_Bloom a) h = Some (set_log_bloom a h)"
| "header_step blake2b (Set_Timestamp a) h = Some (set_timestamp a h)"
| "header_step blake2b (Set_Timestamp_Later_Than a b) h = set_timestamp_later_than a b h"
| "header_step blake2b (Set_Number a) h = Some (set_number a h)"
| "header_step blake2b (Set_Author a) h = Some (set_author a h)"
| "header_step blake2b (Set_Extra_Data a) h = Some (set_extra_data a h)"
| "header_step blake2b (Set_Gas_Used a) h = Some (set_gas_used a h)"
| "header_step blake2b (Set_Gas_Limit a) h = Some (set_gas_limit a h)"
| "header_step blake2b (Set_Difficulty a) h = Some (set_difficulty a h)"
| "header_step blake2b (Set_Seal a) h = Some (set_seal a h)"
| "header_step blake2b (Add_Transaction_Fee a) h = add_transaction_fee a h"
| "header_step blake2b (Set_Reward a) h = Some (set_reward a h)"
| "header_step blake2b Get_Hash h = map_option fst (header_hash blake2b h)"
| "header_step blake2b Get_Bare_Hash h = map_option fst (bare_hash blake2b h)"

fun header_run :: "(bytes \<Rightarrow> bytes) \<Rightarrow> header_op list \<Rightarrow> header \<Rightarrow> header option" where
  "header_run blake2b [] h = Some h"
| "header_run blake2b (c # cs) h = header_step blake2b c h \<bind> header_run blake2b cs"

lemmas setter_defs = set_seal_type_def set_parent_hash_def set_state_root_def set_transactions_root_def
  set_receipts_root_def set_log_bloom_def set_timestamp_def set_timestamp_later_than_def set_number_def
  set_author_def set_extra_data_def set_gas_used_def set_gas_limit_def set_difficulty_def set_seal_def

lemma memo_sound_step:
  assumes "memo_sound blake2b h" and "header_step blake2b c h = Some h'"
  shows "memo_sound blake2b h'"
proof (cases c)
  case (Add_Transaction_Fee a)
  then show ?thesis using assms by (auto simp: add_transaction_fee_def memo_sound_def split: if_splits)
next
  case (Set_Reward a)
  then show ?thesis using assms by (auto simp: set_reward_def memo_sound_def)
next
  case Get_Hash
  then show ?thesis using assms memo_sound_hash [of blake2b h] by auto
next
  case Get_Bare_Hash
  then show ?thesis using assms memo_sound_bare_hash [of blake2b h] by auto
qed (use assms in \<open>auto simp: setter_defs memo_sound_dirty split: if_splits\<close>)

lemma memo_sound_run:
  "memo_sound blake2b h \<Longrightarrow> header_run blake2b cs h = Some h' \<Longrightarrow> memo_sound blake2b h'"
  by (induction cs arbitrary: h) (auto simp: bind_eq_Some_conv intro: memo_sound_step)

subsection \<open>Writing the header\<close>

definition header_encs :: "seal_mode \<Rightarrow> header \<Rightarrow> bytes list" where
  "header_encs with_seal h =
     map data_enc
       ([[seal_type_to_u8 (seal_type_or_default (h_seal_type h))], be_min (h_number h),
         h_parent_hash h, h_author h, h_state_root h, h_transactions_root h, h_receipts_root h,
         h_log_bloom h, difficulty_buffer h, h_extra_data h, be_min (h_gas_used h), be_min (h_gas_limit h),
         be_min (h_timestamp h)] @ (case with_seal of With \<Rightarrow> h_seal h | Without \<Rightarrow> []))"

lemma streams_seal_type:
  "fits32 (data_enc [seal_type_to_u8 t]) \<Longrightarrow> streams (seal_type_append t) (data_enc [seal_type_to_u8 t])"
  using u8_rlp.streams_enc [of "seal_type_to_u8 t"] by (cases t) (simp_all add: seal_type_append_def)

lemma streams_u64:
  "n < 2 ^ 64 \<Longrightarrow> fits32 (data_enc (be_min n)) \<Longrightarrow> streams (u_append 8 n) (data_enc (be_min n))"
  using u_rlp.streams_enc [of 8 n] drop_leading_zero_bytes [of n 8] by simp

lemma streams_u256:
  "n < 2 ^ 256 \<Longrightarrow> fits32 (data_enc (be_min n)) \<Longrightarrow> streams (uint_append 32 n) (data_enc (be_min n))"
  using uint_rlp.streams_enc [of 32 n] leading_bits_bytes [of n 32] by simp

lemma fits32_concat_elem: "fits32 (list_enc (concat bss)) \<Longrightarrow> b \<in> set bss \<Longrightarrow> fits32 b"
proof -
  assume fits: "fits32 (list_enc (concat bss))" and b: "b \<in> set bss"
  have "length b \<le> length (concat bss)" using b by (auto simp: length_concat dest!: split_list)
  then show ?thesis using fits length_list_enc [of "concat bss"] by simp
qed

definition header_widths :: "header \<Rightarrow> bool" where
  "header_widths h \<longleftrightarrow> h_number h < 2 ^ 64 \<and> h_timestamp h < 2 ^ 64 \<and> h_gas_used h < 2 ^ 256 \<and>
     h_gas_limit h < 2 ^ 256"

lemma header_fields_stream:
  assumes "header_widths h" and "fits32 (list_enc (concat (header_encs w h)))"
  shows "list_all2 streams (header_fields w h) (header_encs w h)"
proof -
  have fits: "\<And>b. b \<in> set (header_encs w h) \<Longrightarrow> fits32 b" using assms(2) by (rule fits32_concat_elem)
  have "list_all2 streams (map vec_append vs) (map data_enc vs)" if "\<And>v. v \<in> set vs \<Longrightarrow> fits32 (data_enc v)" for vs
    using that by (induction vs) (simp_all add: vec_rlp.streams_enc)
  then show ?thesis using fits assms(1)
    by (cases w) (simp_all add: header_fields_def header_encs_def header_widths_def streams_seal_type
        streams_u64 streams_u256 hash_rlp.streams_enc vec_rlp.streams_enc)
qed

lemma header_rlp_enc:
  assumes "header_widths h" and "fits32 (list_enc (concat (header_encs w h)))"
  shows "header_rlp h w = Some (list_enc (concat (header_encs w h)))"
proof -
  have "length (header_fields w h) = 13 + (case w of With \<Rightarrow> length (h_seal h) | Without \<Rightarrow> 0)"
    by (cases w) (simp_all add: header_fields_def)
  moreover have "fits32 (concat (header_encs w h))"
    using assms(2) length_list_enc [of "concat (header_encs w h)"] by simp
  ultimately show ?thesis
    using begin_list_append_each [OF header_fields_stream [OF assms], of stream_new]
    by (simp add: header_rlp_def stream_rlp_def push_list_def push_item_def note_appended_Nil
        stream_new_def stream_out_def is_finished_def)
qed

subsection \<open>Reading the header\<close>

text \<open>A view, in whatever state its caches are, onto a list of items.\<close>

definition views :: "bytes list \<Rightarrow> untrusted_rlp \<Rightarrow> bool" where
  "views bss r \<longleftrightarrow> coherent r \<and> raw r = list_enc (concat bss) \<and> list_all framed bss \<and>
     fits32 (list_enc (concat bss))"

lemma views_new: "list_all framed bss \<Longrightarrow> fits32 (list_enc (concat bss)) \<Longrightarrow> views bss (rlp_new (list_enc (concat bss)))"
  by (simp add: views_def coherent_new)

lemma views_length: "views bss r \<Longrightarrow> length bss < usize_max"
proof -
  assume v: "views bss r"
  then have "split_items (concat bss) = bss" by (intro split_items_framed) (simp add: views_def list_all_iff)
  then have "length bss \<le> length (concat bss)" using length_split_items [of "concat bss"] by simp
  then show ?thesis using v length_list_enc [of "concat bss"] by (simp add: views_def usize_max_def)
qed

lemma at_field_Ok:
  assumes "views bss r" and "i < length bss" and "dec (bss ! i) = Ok v"
    and "\<And>r'. views bss r' \<Longrightarrow> k r' v = res"
  shows "at_field dec i r k = res"
proof -
  obtain r' x where at: "rlp_at r i = (r', x)" by (cases "rlp_at r i")
  have "i < usize_max" using assms(2) views_length [OF assms(1)] by simp
  then have "coherent r'" using rlp_at_coherent [of r i] assms(1) at by (simp add: views_def)
  moreover have "raw r' = raw r" using rlp_at_view(1) [of r i] at by simp
  ultimately have "views bss r'" using assms(1) by (simp add: views_def)
  moreover have "x = Ok (rlp_new (bss ! i))"
    using read_framed(1) [of bss r i] assms(1,2) at by (simp add: views_def list_all_iff)
  ultimately show ?thesis using assms(3,4) at by (simp add: at_field_def)
qed

lemma views_item_count:
  assumes "views bss r" and "\<And>r'. views bss r' \<Longrightarrow> k r' (length bss) = res"
  shows "(case item_count r of (r', n) \<Rightarrow> try_ok n (k r')) = res"
proof -
  obtain r' n where count: "item_count r = (r', n)" by (cases "item_count r")
  have "n = Ok (length bss) \<and> coherent r'"
    using read_framed(2) [of bss r] assms(1) count by (simp add: views_def list_all_iff)
  moreover have "raw r' = raw r" using item_count_raw [of r] count by simp
  ultimately show ?thesis using assms count by (simp add: views_def)
qed

lemma decode_seals_Ok:
  assumes "views bss r" and "drop i bss = map data_enc vs" and "\<And>v. v \<in> set vs \<Longrightarrow> fits32 (data_enc v)"
  shows "decode_seals (length vs) i r = Ok vs"
  using assms
proof (induction vs arbitrary: i r)
  case (Cons v vs)
  have i: "i < length bss" using Cons.prems(2) by (metis drop_all linorder_not_less list.distinct(1) list.map(2))
  then have nth: "bss ! i = data_enc v" and rest: "drop (i + 1) bss = map data_enc vs"
    using Cons.prems(2) by (simp_all add: Cons_nth_drop_Suc [symmetric])
  have "vec_decode (bss ! i) = Ok v" using Cons.prems(3) nth by (simp add: vec_rlp.dec_enc)
  moreover have "decode_seals (length vs) (i + 1) r' = Ok vs" if "views bss r'" for r'
    using Cons.IH [OF that rest] Cons.prems(3) by simp
  ultimately have "at_field vec_decode i r (\<lambda>r' b. map_ok (\<lambda>bs. b # bs) (decode_seals (length vs) (i + 1) r'))
      = Ok (v # vs)"
    by (intro at_field_Ok [OF Cons.prems(1) i]) simp_all
  then show ?case by simp
qed simp

lemma seal_type_roundtrip: "seal_type_decode (data_enc [seal_type_to_u8 t]) = Ok t"
  using u8_rlp.dec_enc [of "seal_type_to_u8 t"] fits32_small [of "[seal_type_to_u8 t]"]
  by (cases t) (simp_all add: seal_type_decode_def seal_type_of_u8_def)

lemma u256_to_u16_be: "n < 2 ^ 16 \<Longrightarrow> u256_to_u16 n = be_fixed 2 n"
proof -
  have "be_fixed 2 n = be_fixed (Suc (Suc 0)) n" by (simp add: numeral_2_eq_2)
  then show ?thesis by (simp add: u256_to_u16_def nth_be_fixed be_fixed_Suc Let_def)
qed

definition header_ok :: "header \<Rightarrow> bool" where
  "header_ok h \<longleftrightarrow> h_seal_type h \<noteq> None \<and> h_number h < 2 ^ 64 \<and> h_timestamp h < 2 ^ 64 \<and>
     h_gas_used h < 2 ^ 64 \<and> h_gas_limit h < 2 ^ 64 \<and>
     h_difficulty h < (if h_number h = 0 then 2 ^ 16 else 2 ^ 128) \<and>
     length (h_parent_hash h) = 32 \<and> length (h_author h) = 32 \<and> length (h_state_root h) = 32 \<and>
     length (h_transactions_root h) = 32 \<and> length (h_receipts_root h) = 32 \<and> length (h_log_bloom h) = 256"

lemma header_ok_widths: "header_ok h \<Longrightarrow> header_widths h"
  by (simp add: header_ok_def header_widths_def)

lemma difficulty_read: "header_ok h \<Longrightarrow> to_u256 (difficulty_buffer h) 16 = h_difficulty h"
  by (auto simp: header_ok_def difficulty_buffer_def to_u256_def u256_to_u128_def u256_to_u16_be
      be_val_be_fixed split: if_splits)

lemma gas_read: "g < 2 ^ 64 \<Longrightarrow> to_u256 (be_min g) 8 = g"
  using be_size_le_iff [of g 8] by (simp add: to_u256_def)

lemma uint_dec: "n < 2 ^ 64 \<Longrightarrow> fits32 (data_enc (be_min n)) \<Longrightarrow> uint_decode 32 (data_enc (be_min n)) = Ok n"
  using be_size_le_iff [of n 32] by (simp add: uint_decode_iff)

lemma header_decode_enc:
  assumes ok: "header_ok h" and fits: "fits32 (list_enc (concat (header_encs With h)))"
  shows "header_decode blake2b (list_enc (concat (header_encs With h))) =
    Ok (h\<lparr>h_hash := Some (blake2b (list_enc (concat (header_encs With h)))), h_bare_hash := None,
          h_transaction_fee := 0, h_reward := 0\<rparr>)"
proof -
  let ?bss = "header_encs With h"
  have elem: "\<And>b. b \<in> set ?bss \<Longrightarrow> fits32 b" using fits by (rule fits32_concat_elem)
  then have all_fit: "list_all (\<lambda>b. fits32 b) ?bss" by (simp add: list_all_iff)
  then have framed: "list_all framed ?bss" by (auto simp: header_encs_def list_all_iff intro!: framed_data)
  obtain t where t: "h_seal_type h = Some t" using ok by (auto simp: header_ok_def)
  have len: "length ?bss = 13 + length (h_seal h)" by (simp add: header_encs_def)
  have seals: "drop 13 ?bss = map data_enc (h_seal h)" by (simp add: header_encs_def)
  have fits_seal: "\<And>v. v \<in> set (h_seal h) \<Longrightarrow> fits32 (data_enc v)" using elem by (simp add: header_encs_def)
  have dec: "seal_type_decode (?bss ! 0) = Ok t" "uint_decode 32 (?bss ! 1) = Ok (h_number h)"
      "hash_decode 32 (?bss ! 2) = Ok (h_parent_hash h)" "hash_decode 32 (?bss ! 3) = Ok (h_author h)"
      "hash_decode 32 (?bss ! 4) = Ok (h_state_root h)"
      "hash_decode 32 (?bss ! 5) = Ok (h_transactions_root h)"
      "hash_decode 32 (?bss ! 6) = Ok (h_receipts_root h)"
      "hash_decode 256 (?bss ! 7) = Ok (h_log_bloom h)" "vec_decode (?bss ! 8) = Ok (difficulty_buffer h)"
      "vec_decode (?bss ! 9) = Ok (h_extra_data h)" "vec_decode (?bss ! 10) = Ok (be_min (h_gas_used h))"
      "vec_decode (?bss ! 11) = Ok (be_min (h_gas_limit h))"
      "uint_decode 32 (?bss ! 12) = Ok (h_timestamp h)"
    using all_fit ok t
    by (simp_all add: header_encs_def header_ok_def seal_type_or_default_def seal_type_roundtrip
        uint_dec hash_rlp.dec_enc vec_rlp.dec_enc)
  have read_seals: "decode_seals (length ?bss - 13) 13 r = Ok (h_seal h)" if "views ?bss r" for r
    using decode_seals_Ok [OF that seals fits_seal] len by simp
  have view: "views ?bss (rlp_new (list_enc (concat ?bss)))" using framed fits by (rule views_new)
  have nums: "low_u64 (h_number h) = h_number h" "low_u64 (h_timestamp h) = h_timestamp h"
      "to_u256 (difficulty_buffer h) 16 = h_difficulty h" "to_u256 (be_min (h_gas_used h)) 8 = h_gas_used h"
      "to_u256 (be_min (h_gas_limit h)) 8 = h_gas_limit h"
    using ok difficulty_read [OF ok] by (simp_all add: header_ok_def low_u64_def gas_read)
  show ?thesis
    unfolding header_decode_def using view
    apply -
    apply ((rule at_field_Ok, assumption, simp add: len, rule dec)+)
    apply (rule views_item_count, assumption)
    unfolding read_seals nums map_ok_simps outcome.inject by (rule header.equality) (simp_all add: t)
qed

subsection \<open>Properties\<close>


lemma length_data_enc_le: "length v < 2 ^ 32 \<Longrightarrow> length (data_enc v) \<le> length v + 5"
  using be_size_32 [of "length v"] by (simp add: data_enc_def)

lemma length_list_enc_le: "length p < 2 ^ 32 \<Longrightarrow> length (list_enc p) \<le> length p + 5"
  using be_size_32 [of "length p"] by (simp add: list_enc_def)

lemma header_default_fits:
  "header_ok header_default" "fits32 (list_enc (concat (header_encs With header_default)))"
proof -
  show "header_ok header_default" by (simp add: header_ok_def header_default_def BLAKE2B_NULL_RLP_def)
  have "length (concat (header_encs With header_default)) \<le> 600"
    using length_data_enc_le [of "replicate 32 0"] length_data_enc_le [of "replicate 256 0"]
      length_data_enc_le [of BLAKE2B_NULL_RLP]
    by (simp add: header_encs_def header_default_def BLAKE2B_NULL_RLP_def difficulty_buffer_def
        u256_to_u16_be data_enc_def [of "[_]"] data_enc_def [of "[]"] data_enc_def [of "be_fixed _ _"])
  then show "fits32 (list_enc (concat (header_encs With header_default)))"
    using length_list_enc_le [of "concat (header_encs With header_default)"] by simp
qed


text \<open>
  C14 (memoised hashes are never stale). After any sequence of the header's operations, starting from a
  new header, both hash accessors return the hash of the header as it is then, whether it was
  memoised before or not.
\<close>

theorem hashes_never_stale:
  assumes "header_run blake2b ops header_default = Some h"
  shows "(header_hash blake2b h = Some (h1, x) \<longrightarrow> rlp_blake2b blake2b h With = Some x) \<and>
    (bare_hash blake2b h = Some (h2, y) \<longrightarrow> rlp_blake2b blake2b h Without = Some y)"
  using memo_sound_run [OF memo_sound_default assms]
  by (auto simp: memo_sound_def header_hash_def bare_hash_def bind_eq_Some_conv split: option.splits)

theorem hashes_never_stale_witness:
  "\<exists>h x. header_run (\<lambda>b. b) [Get_Hash, Set_Number 0, Get_Hash] header_default = Some h \<and>
     header_hash (\<lambda>b. b) h = Some (h, x) \<and> header_rlp h With = Some x"
proof -
  let ?bs = "list_enc (concat (header_encs With header_default))"
  let ?h = "header_default\<lparr>h_hash := Some ?bs\<rparr>"
  have "header_rlp header_default With = Some ?bs"
    using header_rlp_enc [OF header_ok_widths] header_default_fits by blast
  then have rlp: "rlp_blake2b (\<lambda>b. b) header_default With = Some ?bs" by (simp add: rlp_blake2b_def)
  have first: "header_step (\<lambda>b. b) Get_Hash header_default = Some ?h"
    using rlp by (simp add: header_hash_def header_default_def)
  have second: "header_step (\<lambda>b. b) (Set_Number 0) ?h = Some header_default"
    by (simp add: set_number_def note_dirty_def header_default_def)
  have run: "header_run (\<lambda>b. b) [Get_Hash, Set_Number 0, Get_Hash] header_default = Some ?h"
    using first second by (simp del: header_step.simps)
  moreover have "header_hash (\<lambda>b. b) ?h = Some (?h, ?bs)" by (simp add: header_hash_def)
  ultimately show ?thesis using hashes_never_stale [OF run, of ?h ?bs] by (auto simp: rlp_blake2b_def)
qed

text \<open>
  The proof-of-work boundary. The boundary of a difficulty of at least two is the quotient of
  \<open>2 ^ 256\<close> by it, rounded down to an even number; smaller difficulties get the largest hash.
\<close>

theorem boundary_quotient:
  "boundary h = (if h_difficulty h \<le> 1 then 2 ^ 256 - 1
     else 2 ^ 256 div h_difficulty h - 2 ^ 256 div h_difficulty h mod 2)"
proof (cases "h_difficulty h \<le> 1")
  case False
  let ?q = "2 ^ 255 div h_difficulty h"
  have q: "2 ^ 256 div h_difficulty h div 2 = ?q" by (simp add: div_mult2_eq [symmetric] mult.commute)
  have "?q \<le> 2 ^ 255 div 2" using False by (intro div_le_mono2) simp_all
  then have "?q * 2 < 2 ^ 256" by simp
  then show ?thesis using False q by (simp add: boundary_def minus_mod_eq_div_mult)
qed (simp add: boundary_def)

end
