(* ===== verification/Transaction.thy ===== *)
theory Transaction
  imports Header
begin

text \<open>
  Transactions, \<^verbatim>\<open>src/core/src/transaction/transaction.rs\<close>: the fields with the raw bytes they were read
  from, the RLP form with and without the signature, decoding, the basic checks and the recovery of
  the sender with the Ed25519 helpers of \<^verbatim>\<open>src/keystore/key/src/ed25519\<close>. Hashing and the Ed25519
  verification are parameters.
\<close>

subsection \<open>Data\<close>

type_synonym address = bytes

definition UNSIGNED_SENDER :: address where
  "UNSIGNED_SENDER = replicate 32 0xff"

definition SYSTEM_ADDRESS :: address where
  "SYSTEM_ADDRESS = replicate 31 0xff @ [0xfe]"

definition DEFAULT_TRANSACTION_TYPE :: nat where
  "DEFAULT_TRANSACTION_TYPE = 1"

definition AVM_CREATION_TYPE :: nat where
  "AVM_CREATION_TYPE = 2"

definition BEACON_HASH_EXTENSION :: u8 where
  "BEACON_HASH_EXTENSION = 1"

definition GAS_CREATE_MIN :: nat where
  "GAS_CREATE_MIN = 200000"

definition GAS_CREATE_MAX :: nat where
  "GAS_CREATE_MAX = 5000000"

definition GAS_TX_DATA_ZERO :: nat where
  "GAS_TX_DATA_ZERO = 4"

definition GAS_TX_DATA_NONZERO :: nat where
  "GAS_TX_DATA_NONZERO = 64"

definition GAS_CALL_MIN :: nat where
  "GAS_CALL_MIN = 21000"

definition GAS_CALL_MAX :: nat where
  "GAS_CALL_MAX = 2000000"

lemmas gas_constants = GAS_CREATE_MIN_def GAS_CREATE_MAX_def GAS_TX_DATA_ZERO_def
  GAS_TX_DATA_NONZERO_def GAS_CALL_MIN_def GAS_CALL_MAX_def

datatype action = Create | Call address

datatype condition = Number nat | Timestamp nat

record transaction =
  t_nonce :: nat
  t_nonce_bytes :: bytes
  t_gas_price :: nat
  t_gas_price_bytes :: bytes
  t_gas :: nat
  t_gas_bytes :: bytes
  t_action :: action
  t_value :: nat
  t_value_bytes :: bytes
  t_data :: bytes
  t_type :: nat
  t_beacon :: "bytes option"

definition transaction_new :: "nat \<Rightarrow> nat \<Rightarrow> nat \<Rightarrow> action \<Rightarrow> nat \<Rightarrow> bytes \<Rightarrow> nat \<Rightarrow> bytes option \<Rightarrow>
    transaction" where
  "transaction_new nonce gas_price gas act val data tx_type beacon =
     \<lparr>t_nonce = nonce, t_nonce_bytes = [], t_gas_price = gas_price, t_gas_price_bytes = [],
      t_gas = gas, t_gas_bytes = [], t_action = act, t_value = val, t_value_bytes = [],
      t_data = data, t_type = tx_type, t_beacon = beacon\<rparr>"

record unverified_transaction =
  ut_unsigned :: transaction
  ut_sig :: bytes
  ut_hash :: bytes
  ut_timestamp :: bytes

record signed_transaction =
  st_transaction :: unverified_transaction
  st_sender :: address
  st_public :: "bytes option"

record pending_transaction =
  pt_transaction :: signed_transaction
  pt_condition :: "condition option"

record localized_transaction =
  lt_signed :: unverified_transaction
  lt_block_number :: nat
  lt_block_hash :: bytes
  lt_transaction_index :: nat
  lt_cached_sender :: "address option"

text \<open>
  The errors of \<^verbatim>\<open>error.rs\<close>. The message of a signature error is the fact it reports: the wrong length,
  or the key error it wraps.
\<close>

datatype key_error =
    KeyInvalidSecret
  | KeyInvalidPublic
  | KeyInvalidAddress
  | KeyInvalidSignature
  | KeyInvalidMessage
  | KeyIo
  | KeyCustom string

datatype signature_problem = SignatureLength nat | KeyProblem key_error

datatype tx_error =
    AlreadyImported
  | Old
  | TooCheapToReplace
  | LimitReached
  | InvalidGasPrice
  | InvalidGasPriceRange nat nat nat
  | InsufficientGas nat nat
  | InsufficientBalance nat nat
  | GasLimitExceeded nat nat
  | SenderBanned
  | RecipientBanned
  | CodeBanned
  | InvalidChainId
  | NotAllowed
  | InvalidSignature signature_problem
  | InvalidNonceLength
  | InvalidTimestampLength
  | InvalidValueLength
  | InvalidContractCreateGas nat nat nat
  | InvalidTransactionGas nat nat nat
  | InvalidTransactionType
  | InvalidBeaconHash bytes
  | BeaconBanned

subsection \<open>RLP\<close>

definition action_append :: "action \<Rightarrow> rlp_stream \<Rightarrow> rlp_stream option" where
  "action_append a = (case a of Create \<Rightarrow> value_append [] | Call addr \<Rightarrow> hash_append addr)"

definition action_decode :: "bytes \<Rightarrow> action decoded" where
  "action_decode bs = (if is_empty (rlp_new bs) then Ok Create else map_ok Call (hash_decode 32 bs))"

definition encode_long :: "nat \<Rightarrow> rlp_stream \<Rightarrow> rlp_stream option" where
  "encode_long v =
     (if v > 0xFFFFFFFF then let val = be_fixed 32 v in vec_append (map (\<lambda>i. val ! i) [24..<32])
      else uint_append 32 v)"

text \<open>The eight fields both forms share, and the extension that carries the beacon hash.\<close>

definition unsigned_fields :: "transaction \<Rightarrow> bytes \<Rightarrow> (rlp_stream \<Rightarrow> rlp_stream option) list" where
  "unsigned_fields t timestamp =
     [if t_nonce_bytes t = [] then uint_append 32 (t_nonce t) else vec_append (t_nonce_bytes t),
      action_append (t_action t),
      if t_value_bytes t = [] then uint_append 32 (t_value t) else vec_append (t_value_bytes t),
      vec_append (t_data t), vec_append timestamp,
      if t_gas_bytes t = [] then encode_long (t_gas t) else vec_append (t_gas_bytes t),
      if t_gas_price_bytes t = [] then encode_long (t_gas_price t) else vec_append (t_gas_price_bytes t),
      uint_append 32 (t_type t)]"

definition beacon_fields :: "transaction \<Rightarrow> (rlp_stream \<Rightarrow> rlp_stream option) list" where
  "beacon_fields t =
     (case t_beacon t of None \<Rightarrow> [] | Some hash \<Rightarrow> [u8_append BEACON_HASH_EXTENSION, hash_append hash])"

definition rlp_append_unsigned_transaction :: "transaction \<Rightarrow> bytes \<Rightarrow> rlp_stream \<Rightarrow> rlp_stream option" where
  "rlp_append_unsigned_transaction t timestamp s =
     begin_list (if t_beacon t \<noteq> None then 10 else 8) s
       \<bind> append_each (unsigned_fields t timestamp @ beacon_fields t)"

definition transaction_hash :: "(bytes \<Rightarrow> bytes) \<Rightarrow> transaction \<Rightarrow> bytes \<Rightarrow> bytes option" where
  "transaction_hash blake2b t timestamp =
     map_option (\<lambda>s. blake2b (buffer s)) (rlp_append_unsigned_transaction t timestamp stream_new)"

definition rlp_append_sealed_transaction :: "unverified_transaction \<Rightarrow> rlp_stream \<Rightarrow> rlp_stream option" where
  "rlp_append_sealed_transaction u s =
     begin_list (if t_beacon (ut_unsigned u) \<noteq> None then 11 else 9) s
       \<bind> append_each (unsigned_fields (ut_unsigned u) (ut_timestamp u) @ [vec_append (ut_sig u)] @
             beacon_fields (ut_unsigned u))"

definition compute_hash :: "(bytes \<Rightarrow> bytes) \<Rightarrow> unverified_transaction \<Rightarrow> unverified_transaction option" where
  "compute_hash blake2b u =
     map_option (\<lambda>bs. u\<lparr>ut_hash := blake2b bs\<rparr>) (encode rlp_append_sealed_transaction u)"

definition with_signature :: "(bytes \<Rightarrow> bytes) \<Rightarrow> transaction \<Rightarrow> bytes \<Rightarrow> bytes \<Rightarrow>
    unverified_transaction option" where
  "with_signature blake2b t sig timestamp =
     compute_hash blake2b \<lparr>ut_unsigned = t, ut_sig = sig, ut_hash = replicate 32 0, ut_timestamp = timestamp\<rparr>"

definition fake_sign :: "(bytes \<Rightarrow> bytes) \<Rightarrow> transaction \<Rightarrow> address \<Rightarrow> signed_transaction option" where
  "fake_sign blake2b t from =
     map_option (\<lambda>u. \<lparr>st_transaction = u, st_sender = from, st_public = None\<rparr>)
       (compute_hash blake2b \<lparr>ut_unsigned = t, ut_sig = replicate 96 1, ut_hash = replicate 32 0,
          ut_timestamp = replicate 8 0\<rparr>)"

text \<open>The decoder reads the fields in the order of the struct expression, some of them twice.\<close>

definition sized_number :: "bytes \<Rightarrow> string \<Rightarrow> (nat \<Rightarrow> 'a decoded) \<Rightarrow> 'a decoded" where
  "sized_number raw_bytes msg k =
     (if length raw_bytes > 32 then Err (Custom msg) else k (be_val raw_bytes))"

definition unverified_decode :: "(bytes \<Rightarrow> bytes) \<Rightarrow> bytes \<Rightarrow> unverified_transaction decoded" where
  "unverified_decode blake2b bs =
     (case item_count (rlp_new bs) of (r, n) \<Rightarrow> try_ok n (\<lambda>count.
     if count \<noteq> 9 \<and> count \<noteq> 11 then Err RlpIncorrectListLen else
     at_field vec_decode 0 r (\<lambda>r nonce_raw. sized_number nonce_raw ''transaction nonce bytes > 32'' (\<lambda>nonce.
     at_field vec_decode 0 r (\<lambda>r nonce_bytes.
     at_field action_decode 1 r (\<lambda>r act.
     at_field vec_decode 2 r (\<lambda>r value_raw. sized_number value_raw ''transaction value bytes > 32'' (\<lambda>val.
     at_field vec_decode 2 r (\<lambda>r value_bytes.
     at_field vec_decode 3 r (\<lambda>r data.
     at_field vec_decode 5 r (\<lambda>r gas_raw.
     at_field vec_decode 5 r (\<lambda>r gas_bytes.
     at_field vec_decode 6 r (\<lambda>r price_raw.
     at_field vec_decode 6 r (\<lambda>r price_bytes.
     at_field vec_decode 7 r (\<lambda>r type_vec.
     (let rest = (\<lambda>r beacon.
        at_field vec_decode 4 r (\<lambda>r timestamp.
        at_field vec_decode 8 r (\<lambda>r sig.
        Ok \<lparr>ut_unsigned =
              \<lparr>t_nonce = nonce, t_nonce_bytes = nonce_bytes, t_gas_price = to_u256 price_raw 8,
               t_gas_price_bytes = price_bytes, t_gas = to_u256 gas_raw 8, t_gas_bytes = gas_bytes,
               t_action = act, t_value = val, t_value_bytes = value_bytes, t_data = data,
               t_type = (if length type_vec = 0 then 0 else unat (type_vec ! 0)), t_beacon = beacon\<rparr>,
            ut_sig = sig, ut_hash = blake2b bs, ut_timestamp = timestamp\<rparr>)))
      in if count = 9 then rest r None
         else at_field u8_decode 9 r (\<lambda>r ext.
           if ext = BEACON_HASH_EXTENSION then at_field (hash_decode 32) 10 r (\<lambda>r hash. rest r (Some hash))
           else Err RlpIncorrectListLen)))))))))))))))))"

subsection \<open>Checks\<close>

definition gas_required_before_unity :: "transaction \<Rightarrow> nat" where
  "gas_required_before_unity t = (case t_action t of Create \<Rightarrow> GAS_CREATE_MIN | Call _ \<Rightarrow> GAS_CALL_MIN)"

definition gas_required :: "transaction \<Rightarrow> nat" where
  "gas_required t =
     foldl (\<lambda>g b. g + (if b = 0 then GAS_TX_DATA_ZERO else GAS_TX_DATA_NONZERO))
       ((case t_action t of Create \<Rightarrow> GAS_CREATE_MIN | Call _ \<Rightarrow> 0) + GAS_CALL_MIN) (t_data t)"

definition max_gas_limit :: "transaction \<Rightarrow> nat" where
  "max_gas_limit t = (case t_action t of Create \<Rightarrow> GAS_CREATE_MAX | Call _ \<Rightarrow> GAS_CALL_MAX)"

definition is_gas_limit_valid :: "transaction \<Rightarrow> bool" where
  "is_gas_limit_valid t \<longleftrightarrow> t_gas t \<ge> gas_required t \<and> t_gas t \<le> max_gas_limit t"

definition is_unsigned :: "unverified_transaction \<Rightarrow> bool" where
  "is_unsigned u = list_all (\<lambda>i. i = 0) (ut_sig u)"

definition is_allowed_type :: "unverified_transaction \<Rightarrow> nat option \<Rightarrow> nat \<Rightarrow> (tx_error, unit) outcome" where
  "is_allowed_type u has_fork current_blk =
     (case has_fork of
        Some fork \<Rightarrow>
          if fork < current_blk \<and> \<not> (t_type (ut_unsigned u) = AVM_CREATION_TYPE \<or>
               t_type (ut_unsigned u) = DEFAULT_TRANSACTION_TYPE)
          then Err InvalidTransactionType else Ok ()
      | None \<Rightarrow> Ok ())"

definition verify_basic :: "unverified_transaction \<Rightarrow> (tx_error, unit) outcome" where
  "verify_basic u =
     (let t = ut_unsigned u in
      if leading_zeros 256 (t_nonce t) div 8 < 16 then Err InvalidNonceLength
      else if length (ut_timestamp u) > 8 then Err InvalidTimestampLength
      else if leading_zeros 256 (t_value t) div 8 < 16 then Err InvalidValueLength
      else if \<not> is_gas_limit_valid t
        then Err (InvalidTransactionGas (gas_required t) (max_gas_limit t) (t_gas t))
      else if t_gas_price t < 0 \<or> leading_zeros 256 (t_gas_price t) div 8 < 16 then Err InvalidGasPrice
      else if length (ut_sig u) \<noteq> 96 then Err (InvalidSignature (SignatureLength (length (ut_sig u))))
      else Ok ())"

text \<open>\<^verbatim>\<open>EthereumMachine::verify_transaction_basic\<close>, given the fork block of the parameters.\<close>

definition verify_transaction_basic :: "nat option \<Rightarrow> unverified_transaction \<Rightarrow> nat option \<Rightarrow>
    (tx_error, unit) outcome" where
  "verify_transaction_basic monetary_policy_update u block_num =
     try_ok (case block_num of
               Some n \<Rightarrow> is_allowed_type u monetary_policy_update n
             | None \<Rightarrow> Ok ())
       (\<lambda>_. verify_basic u)"

subsection \<open>Signatures and senders\<close>

text \<open>
  \<open>ed25519_verify message public signature\<close> is the library's check. A signature is 96 bytes, the public
  key first; \<^verbatim>\<open>Ed25519Signature::from\<close> copies the bytes into an array of that size and panics when
  there are more or fewer.
\<close>

definition signature_from :: "bytes \<Rightarrow> bytes option" where
  "signature_from s = (if length s = 96 then Some s else None)"

definition get_public :: "bytes \<Rightarrow> bytes" where
  "get_public sig = take 32 sig"

definition verify_signature_ed25519 :: "(bytes \<Rightarrow> bytes \<Rightarrow> bytes \<Rightarrow> bool) \<Rightarrow> bytes \<Rightarrow> bytes \<Rightarrow> bytes \<Rightarrow> bool" where
  "verify_signature_ed25519 ed25519_verify pk sig msg = ed25519_verify msg pk (take 64 (drop 32 sig))"

definition recover_ed25519 :: "(bytes \<Rightarrow> bytes \<Rightarrow> bytes \<Rightarrow> bool) \<Rightarrow> bytes \<Rightarrow> bytes \<Rightarrow>
    (key_error, bytes) outcome" where
  "recover_ed25519 ed25519_verify sig msg =
     (let pk = take 32 sig; s = take 64 (drop 32 sig) in
      if ed25519_verify msg pk s then Ok pk else Err KeyInvalidSignature)"

definition sign_ed25519 :: "(bytes \<Rightarrow> bytes \<Rightarrow> bytes) \<Rightarrow> bytes \<Rightarrow> bytes \<Rightarrow> bytes option" where
  "sign_ed25519 ed25519_sign key msg =
     (let sig = ed25519_sign msg key in
      if length (drop 32 key) = 32 \<and> length sig = 64 then Some (drop 32 key @ sig) else None)"

definition public_to_address_ed25519 :: "(bytes \<Rightarrow> bytes) \<Rightarrow> bytes \<Rightarrow> address" where
  "public_to_address_ed25519 blake2b pub = (blake2b pub)[0 := 0xA0]"

definition recover_public :: "(bytes \<Rightarrow> bytes) \<Rightarrow> (bytes \<Rightarrow> bytes \<Rightarrow> bytes \<Rightarrow> bool) \<Rightarrow> unverified_transaction \<Rightarrow>
    (key_error, bytes) outcome" where
  "recover_public blake2b ed25519_verify u =
     (case signature_from (ut_sig u) of
        None \<Rightarrow> Panic
      | Some sig \<Rightarrow>
          (case transaction_hash blake2b (ut_unsigned u) (ut_timestamp u) of
             None \<Rightarrow> Panic
           | Some h \<Rightarrow> recover_ed25519 ed25519_verify sig h))"

definition signed_new :: "(bytes \<Rightarrow> bytes) \<Rightarrow> (bytes \<Rightarrow> bytes \<Rightarrow> bytes \<Rightarrow> bool) \<Rightarrow> unverified_transaction \<Rightarrow>
    (key_error, signed_transaction) outcome" where
  "signed_new blake2b ed25519_verify u =
     (if is_unsigned u
      then Ok \<lparr>st_transaction = u, st_sender = UNSIGNED_SENDER, st_public = None\<rparr>
      else try_ok (recover_public blake2b ed25519_verify u) (\<lambda>pub.
        Ok \<lparr>st_transaction = u, st_sender = public_to_address_ed25519 blake2b pub, st_public = Some pub\<rparr>))"

definition localized_sender :: "(bytes \<Rightarrow> bytes) \<Rightarrow> (bytes \<Rightarrow> bytes \<Rightarrow> bytes \<Rightarrow> bool) \<Rightarrow> localized_transaction \<Rightarrow>
    (localized_transaction \<times> address) option" where
  "localized_sender blake2b ed25519_verify l =
     (case lt_cached_sender l of
        Some sender \<Rightarrow> Some (l, sender)
      | None \<Rightarrow>
          if is_unsigned (lt_signed l) then Some (l, UNSIGNED_SENDER)
          else (case recover_public blake2b ed25519_verify (lt_signed l) of
              Ok pub \<Rightarrow> let sender = public_to_address_ed25519 blake2b pub
                         in Some (l\<lparr>lt_cached_sender := Some sender\<rparr>, sender)
            | _ \<Rightarrow> None))"

subsection \<open>The written values\<close>

definition number_bytes :: "nat \<Rightarrow> bytes \<Rightarrow> bytes" where
  "number_bytes n bs = (if bs = [] then be_min n else bs)"

definition long_bytes :: "nat \<Rightarrow> bytes \<Rightarrow> bytes" where
  "long_bytes n bs =
     (if bs \<noteq> [] then bs else if n > 0xFFFFFFFF then be_fixed 8 n else be_min n)"

definition action_bytes :: "action \<Rightarrow> bytes" where
  "action_bytes a = (case a of Create \<Rightarrow> [] | Call addr \<Rightarrow> addr)"

definition unsigned_values :: "transaction \<Rightarrow> bytes \<Rightarrow> bytes list" where
  "unsigned_values t ts =
     [number_bytes (t_nonce t) (t_nonce_bytes t), action_bytes (t_action t),
      number_bytes (t_value t) (t_value_bytes t), t_data t, ts, long_bytes (t_gas t) (t_gas_bytes t),
      long_bytes (t_gas_price t) (t_gas_price_bytes t), be_min (t_type t)]"

definition beacon_values :: "transaction \<Rightarrow> bytes list" where
  "beacon_values t = (case t_beacon t of None \<Rightarrow> [] | Some h \<Rightarrow> [[BEACON_HASH_EXTENSION], h])"

definition unsigned_enc :: "transaction \<Rightarrow> bytes \<Rightarrow> bytes" where
  "unsigned_enc t ts = list_enc (concat (map data_enc (unsigned_values t ts @ beacon_values t)))"

definition sealed_enc :: "unverified_transaction \<Rightarrow> bytes" where
  "sealed_enc u = list_enc (concat (map data_enc
     (unsigned_values (ut_unsigned u) (ut_timestamp u) @ [ut_sig u] @ beacon_values (ut_unsigned u))))"

text \<open>
  The sizes of the field types, and that bytes kept from decoding are those of the number beside them.
\<close>

definition number_ok :: "nat \<Rightarrow> bytes \<Rightarrow> bool" where
  "number_ok n bs \<longleftrightarrow> (if bs = [] then n < 2 ^ 256 else length bs \<le> 32 \<and> n = be_val bs)"

definition long_ok :: "nat \<Rightarrow> bytes \<Rightarrow> bool" where
  "long_ok n bs \<longleftrightarrow> (if bs = [] then n < 2 ^ 256 else n = to_u256 bs 8)"

definition tx_widths :: "transaction \<Rightarrow> bool" where
  "tx_widths t \<longleftrightarrow>
     number_ok (t_nonce t) (t_nonce_bytes t) \<and> number_ok (t_value t) (t_value_bytes t) \<and>
     long_ok (t_gas t) (t_gas_bytes t) \<and> long_ok (t_gas_price t) (t_gas_price_bytes t) \<and>
     t_type t < 256 \<and> pred_option (\<lambda>h. length h = 32) (t_beacon t) \<and>
     (case t_action t of Create \<Rightarrow> True | Call a \<Rightarrow> length a = 32)"

lemma map_nth_drop: "map (\<lambda>i. xs ! i) [k..<length xs] = drop k xs"
  by (metis add_0 drop_map drop_upt map_nth)

lemma long_slice: "map (\<lambda>i. be_fixed 32 n ! i) [24..<32] = be_fixed 8 n"
  using map_nth_drop [of "be_fixed 32 n" 24] by (simp only: length_be_fixed) (simp add: drop_be_fixed)

lemma streams_number:
  "fits32 (data_enc (number_bytes n bs)) \<Longrightarrow> number_ok n bs \<Longrightarrow>
    streams (if bs = [] then uint_append 32 n else vec_append bs) (data_enc (number_bytes n bs))"
  by (auto simp: number_bytes_def number_ok_def streams_u256 vec_rlp.streams_enc)

lemma streams_long:
  "fits32 (data_enc (long_bytes n bs)) \<Longrightarrow> long_ok n bs \<Longrightarrow>
    streams (if bs = [] then encode_long n else vec_append bs) (data_enc (long_bytes n bs))"
  unfolding encode_long_def Let_def long_slice
  by (auto simp: long_bytes_def long_ok_def streams_u256 vec_rlp.streams_enc)

lemma streams_action:
  "fits32 (data_enc (action_bytes a)) \<Longrightarrow> streams (action_append a) (data_enc (action_bytes a))"
  by (cases a) (simp_all add: action_append_def action_bytes_def hash_rlp.streams_enc streams_value_append)

lemma unsigned_stream:
  assumes "tx_widths t" and fits: "\<And>v. v \<in> set (unsigned_values t ts) \<Longrightarrow> fits32 (data_enc v)"
  shows "list_all2 streams (unsigned_fields t ts) (map data_enc (unsigned_values t ts))"
proof -
  note widths = assms(1) [unfolded tx_widths_def]
  have "list_all (\<lambda>v. fits32 (data_enc v)) (unsigned_values t ts)" using fits by (simp add: list_all_iff)
  note fit = this [unfolded unsigned_values_def list.pred_inject]
  have "t_type t < 2 ^ 256" using widths by simp
  then show ?thesis unfolding unsigned_fields_def unsigned_values_def list.map list.rel_inject
    using fit widths
    by (intro conjI streams_number streams_long streams_action vec_rlp.streams_enc streams_u256 list.rel_intros)
       simp_all
qed

lemma beacon_stream:
  assumes "\<And>v. v \<in> set (beacon_values t) \<Longrightarrow> fits32 (data_enc v)"
  shows "list_all2 streams (beacon_fields t) (map data_enc (beacon_values t))"
  using assms u8_rlp.streams_enc [of BEACON_HASH_EXTENSION]
  by (auto simp: beacon_fields_def beacon_values_def BEACON_HASH_EXTENSION_def hash_rlp.streams_enc
      split: option.splits)

text \<open>A record written as one list of fields.\<close>

lemma list_record:
  assumes "list_all2 streams fs bss" and "fits32 (list_enc (concat bss))" and "n = length fs"
  shows "\<exists>s. (begin_list n stream_new \<bind> append_each fs) = Some s \<and>
    buffer s = list_enc (concat bss) \<and> is_finished s"
  using begin_list_append_each [OF assms(1), of stream_new] assms(2,3) length_list_enc [of "concat bss"]
  by (simp add: push_list_def push_item_def note_appended_Nil stream_new_def is_finished_def)

lemma fits32_values: "fits32 (list_enc (concat (map data_enc vs))) \<Longrightarrow> v \<in> set vs \<Longrightarrow> fits32 (data_enc v)"
  using fits32_concat_elem [of "map data_enc vs" "data_enc v"] by simp

lemma unsigned_rlp:
  assumes "tx_widths t" and "fits32 (unsigned_enc t ts)"
  shows "\<exists>s. rlp_append_unsigned_transaction t ts stream_new = Some s \<and> buffer s = unsigned_enc t ts"
proof -
  let ?vs = "unsigned_values t ts @ beacon_values t"
  have fits: "fits32 (list_enc (concat (map data_enc ?vs)))" using assms(2) by (simp add: unsigned_enc_def)
  have "list_all2 streams (unsigned_fields t ts @ beacon_fields t) (map data_enc ?vs)"
    unfolding map_append
    by (intro list_all2_appendI unsigned_stream beacon_stream assms(1) fits32_values [OF fits]) auto
  moreover have "(if t_beacon t \<noteq> None then 10 else 8) = length (unsigned_fields t ts @ beacon_fields t)"
    by (auto simp: unsigned_fields_def beacon_fields_def)
  ultimately show ?thesis using list_record [OF _ fits]
    unfolding rlp_append_unsigned_transaction_def unsigned_enc_def by blast
qed

lemma sealed_rlp:
  assumes "tx_widths (ut_unsigned u)" and "fits32 (sealed_enc u)"
  shows "encode rlp_append_sealed_transaction u = Some (sealed_enc u)"
proof -
  let ?t = "ut_unsigned u" and ?ts = "ut_timestamp u"
  let ?vs = "unsigned_values ?t ?ts @ [ut_sig u] @ beacon_values ?t"
  have fits: "fits32 (list_enc (concat (map data_enc ?vs)))" using assms(2) by (simp add: sealed_enc_def)
  let ?fs = "unsigned_fields ?t ?ts @ [vec_append (ut_sig u)] @ beacon_fields ?t"
  have "list_all2 streams ?fs (map data_enc ?vs)"
    unfolding map_append
    by (intro list_all2_appendI unsigned_stream beacon_stream assms(1) fits32_values [OF fits])
       (auto intro!: vec_rlp.streams_enc fits32_values [OF fits])
  moreover have "fits32 (concat (map data_enc ?vs))"
    using fits length_list_enc [of "concat (map data_enc ?vs)"] by linarith
  ultimately have "streams (\<lambda>s. begin_list (length ?fs) s \<bind> append_each ?fs) (sealed_enc u)"
    unfolding sealed_enc_def by (rule streams_list)
  moreover have "length ?fs = (if t_beacon ?t \<noteq> None then 11 else 9)"
    by (auto simp: unsigned_fields_def beacon_fields_def)
  ultimately have "streams (rlp_append_sealed_transaction u) (sealed_enc u)"
    unfolding rlp_append_sealed_transaction_def [abs_def] by (simp only:)
  from streamsD [OF this, of stream_new] show ?thesis
    by (auto simp: encode_def append_rlp_def push_list_def push_item_def note_appended_Nil stream_new_def
        stream_out_def is_finished_def)
qed

subsection \<open>Reading a written transaction\<close>

text \<open>What the decoder makes of a written transaction: the raw bytes are kept, energy and price are cut to 64 bits.\<close>

definition read_back :: "transaction \<Rightarrow> transaction" where
  "read_back t =
     t\<lparr>t_nonce_bytes := number_bytes (t_nonce t) (t_nonce_bytes t),
       t_value_bytes := number_bytes (t_value t) (t_value_bytes t),
       t_gas := (if t_gas_bytes t = [] then t_gas t mod 2 ^ 64 else t_gas t),
       t_gas_bytes := long_bytes (t_gas t) (t_gas_bytes t),
       t_gas_price := (if t_gas_price_bytes t = [] then t_gas_price t mod 2 ^ 64 else t_gas_price t),
       t_gas_price_bytes := long_bytes (t_gas_price t) (t_gas_price_bytes t)\<rparr>"

lemma length_be_min_le: "n < 256 ^ k \<Longrightarrow> length (be_min n) \<le> k"
  using be_size_le_iff [of n k] by simp

lemma read_number:
  assumes "number_ok n bs"
  shows "sized_number (number_bytes n bs) msg k = k n"
proof (cases "bs = []")
  case True
  then have "length (be_min n) \<le> 32" using assms by (intro length_be_min_le) (simp add: number_ok_def)
  then show ?thesis using True by (simp add: sized_number_def number_bytes_def)
next
  case False
  then show ?thesis using assms by (simp add: sized_number_def number_bytes_def number_ok_def)
qed

lemma read_long:
  assumes "long_ok n bs"
  shows "to_u256 (long_bytes n bs) 8 = (if bs = [] then n mod 2 ^ 64 else n)"
proof (cases "bs = [] \<and> n \<le> 0xFFFFFFFF")
  case True
  then have "length (be_min n) \<le> 8" by (intro length_be_min_le) simp
  then show ?thesis using True by (simp add: long_bytes_def to_u256_def)
next
  case False
  then show ?thesis using assms by (auto simp: long_ok_def long_bytes_def to_u256_def be_val_be_fixed)
qed

lemma read_action:
  "(case a of Create \<Rightarrow> True | Call x \<Rightarrow> length x = 32) \<Longrightarrow> action_decode (data_enc (action_bytes a)) = Ok a"
proof (cases a)
  case (Call x)
  assume "case a of Create \<Rightarrow> True | Call x \<Rightarrow> length x = 32"
  then have "length x = 32" using Call by simp
  moreover from this have "hash_decode 32 (data_enc x) = Ok x" by (intro hash_rlp.dec_enc fits32_small) simp_all
  moreover from \<open>length x = 32\<close> have "\<not> is_empty (rlp_new (data_enc x))"
    by (auto simp: is_empty_def data_enc_def byte_of_def)
  ultimately show ?thesis using Call by (simp add: action_decode_def action_bytes_def)
qed (simp add: action_decode_def action_bytes_def is_empty_def is_null_def data_enc_def byte_of_def)

lemma read_type:
  "n < 256 \<Longrightarrow> (if length (be_min n) = 0 then 0 else unat (be_min n ! 0)) = n"
proof (cases "n = 0")
  case False
  assume n: "n < 256"
  then have "be_size n \<le> 1" "0 < be_size n" using False be_size_le_iff [of n 1] be_size_pos_iff [of n] by simp_all
  then have "length (be_min n) = Suc 0" by (simp del: be_size_pos_iff)
  from length_Suc_conv [THEN iffD1, OF this] obtain b where "be_min n = [b]" by auto
  moreover from this have "be_val [b] = n" using be_val_be_min [of n] by simp
  ultimately show ?thesis using be_val_append1 [of "[]" b] by simp
qed simp

lemma views_values:
  assumes "fits32 (list_enc (concat (map data_enc vs)))"
  shows "views (map data_enc vs) (rlp_new (list_enc (concat (map data_enc vs))))"
proof (rule views_new [OF _ assms])
  show "list_all framed (map data_enc vs)"
    unfolding list_all_iff set_map using fits32_values [OF assms] by (blast intro: framed_data)
qed

lemma decode_sealed:
  assumes ok: "tx_widths (ut_unsigned u)" and fits: "fits32 (sealed_enc u)"
  shows "unverified_decode blake2b (sealed_enc u) =
    Ok (u\<lparr>ut_unsigned := read_back (ut_unsigned u), ut_hash := blake2b (sealed_enc u)\<rparr>)"
proof -
  let ?t = "ut_unsigned u" and ?ts = "ut_timestamp u"
  define vs where "vs = unsigned_values ?t ?ts @ [ut_sig u] @ beacon_values ?t"
  define bss where "bss = map data_enc vs"
  note widths = ok [unfolded tx_widths_def]
  have enc: "sealed_enc u = list_enc (concat bss)" by (simp add: sealed_enc_def bss_def vs_def)
  have fits': "fits32 (list_enc (concat (map data_enc vs)))" using fits by (simp add: enc bss_def)
  have view: "views bss (rlp_new (sealed_enc u))" using views_values [OF fits'] by (simp add: enc bss_def)
  have len: "length vs = (if t_beacon ?t = None then 9 else 11)"
    by (auto simp: unsigned_values_def beacon_values_def vs_def)
  have fit: "fits32 (data_enc (vs ! i))" if "i < length vs" for i
    using fits32_values [OF fits'] nth_mem [OF that] by blast
  have vec: "vec_decode (bss ! i) = Ok (vs ! i)" if "i < 9" for i
    using vec_rlp.dec_enc [OF _ fit, of i] that len by (simp add: bss_def)
  have nth: "vs ! 0 = number_bytes (t_nonce ?t) (t_nonce_bytes ?t)" "vs ! 1 = action_bytes (t_action ?t)"
      "vs ! 2 = number_bytes (t_value ?t) (t_value_bytes ?t)" "vs ! 3 = t_data ?t" "vs ! 4 = ?ts"
      "vs ! 5 = long_bytes (t_gas ?t) (t_gas_bytes ?t)"
      "vs ! 6 = long_bytes (t_gas_price ?t) (t_gas_price_bytes ?t)" "vs ! 7 = be_min (t_type ?t)"
      "vs ! 8 = ut_sig u"
    by (simp_all add: unsigned_values_def vs_def)
  have act: "action_decode (bss ! 1) = Ok (t_action ?t)"
    using read_action [of "t_action ?t"] widths len nth(2) by (simp add: bss_def)
  have beacon: "u8_decode (bss ! 9) = Ok BEACON_HASH_EXTENSION" "hash_decode 32 (bss ! 10) = Ok h"
    if "t_beacon ?t = Some h" for h
  proof -
    have "vs ! 9 = [1]" "vs ! 10 = h" "length h = 32" using that widths
      by (simp_all add: vs_def unsigned_values_def beacon_values_def BEACON_HASH_EXTENSION_def)
    then show "u8_decode (bss ! 9) = Ok BEACON_HASH_EXTENSION" "hash_decode 32 (bss ! 10) = Ok h"
      using u8_rlp.dec_enc [of 1] hash_rlp.dec_enc [of h 32] fit [of 9] fit [of 10] len that
      by (simp_all add: bss_def BEACON_HASH_EXTENSION_def)
  qed
  have n9: "\<And>i. i < 9 \<Longrightarrow> i < length bss" using len by (auto simp: bss_def)
  have field: "at_field vec_decode i r k = res"
    if "i < 9" "views bss r" "\<And>r'. views bss r' \<Longrightarrow> k r' (vs ! i) = res" for i r k res
    using that n9 [of i] vec [of i] by (intro at_field_Ok [of bss r i vec_decode "vs ! i"]) simp_all
  have nonce: "sized_number (vs ! 0) msg k = k (t_nonce ?t)" and val: "sized_number (vs ! 2) msg k = k (t_value ?t)"
    for msg k unfolding nth using widths by (blast intro: read_number)+
  have long: "to_u256 (vs ! 5) 8 = (if t_gas_bytes ?t = [] then t_gas ?t mod 2 ^ 64 else t_gas ?t)"
      "to_u256 (vs ! 6) 8 = (if t_gas_price_bytes ?t = [] then t_gas_price ?t mod 2 ^ 64 else t_gas_price ?t)"
    unfolding nth using widths by (blast intro: read_long)+
  have result: "u\<lparr>ut_unsigned := read_back ?t, ut_hash := blake2b (sealed_enc u)\<rparr> =
    \<lparr>ut_unsigned =
       \<lparr>t_nonce = t_nonce ?t, t_nonce_bytes = vs ! 0, t_gas_price = to_u256 (vs ! 6) 8,
        t_gas_price_bytes = vs ! 6, t_gas = to_u256 (vs ! 5) 8, t_gas_bytes = vs ! 5,
        t_action = t_action ?t, t_value = t_value ?t, t_value_bytes = vs ! 2, t_data = vs ! 3,
        t_type = (if length (vs ! 7) = 0 then 0 else unat (vs ! 7 ! 0)), t_beacon = t_beacon ?t\<rparr>,
     ut_sig = vs ! 8, ut_hash = blake2b (sealed_enc u), ut_timestamp = vs ! 4\<rparr>"
    using widths read_type [of "t_type ?t"]
    by (intro unverified_transaction.equality) (simp_all add: read_back_def nth long [unfolded nth] cong: if_cong)
  have count: "length bss = (if t_beacon ?t = None then 9 else 11)" using len by (simp add: bss_def)
  have ext: "at_field u8_decode 9 r k = res"
    if "t_beacon ?t = Some h" "views bss r" "\<And>r'. views bss r' \<Longrightarrow> k r' BEACON_HASH_EXTENSION = res" for h r k res
    using that beacon(1) [OF that(1)] count by (intro at_field_Ok [of bss r 9 u8_decode BEACON_HASH_EXTENSION]) simp_all
  have hash: "at_field (hash_decode 32) 10 r k = res"
    if "t_beacon ?t = Some h" "views bss r" "\<And>r'. views bss r' \<Longrightarrow> k r' h = res" for h r k res
    using that beacon(2) [OF that(1)] count by (intro at_field_Ok [of bss r 10 "hash_decode 32" h]) simp_all
  have act_field: "at_field action_decode 1 r k = res"
    if "views bss r" "\<And>r'. views bss r' \<Longrightarrow> k r' (t_action ?t) = res" for r k res
    using that act n9 [of 1] by (intro at_field_Ok [of bss r 1 action_decode "t_action ?t"]) simp_all
  have eleven: "((11 :: nat) = 9) = False" by simp
  show ?thesis
    unfolding unverified_decode_def result
    apply (rule views_item_count [OF view])
    apply (subst if_not_P)
     apply (simp add: count)
    apply (rule field, simp, assumption, subst nonce)
    apply (rule field, simp, assumption)
    apply (rule act_field, assumption)
    apply (rule field, simp, assumption, subst val)
    apply (rule field, simp, assumption)+
    apply (cases "t_beacon ?t")
     apply (simp only: count Let_def refl if_True)
     apply (rule field, simp, assumption)+
     apply simp
    apply (simp only: count Let_def option.distinct eleven if_False)
    apply (rule ext, assumption, assumption)
    apply (simp only: refl if_True)
    apply (rule hash, assumption, assumption)
    apply (rule field, simp, assumption)+
    by simp
qed

lemma number_again: "number_bytes n (number_bytes n bs) = number_bytes n bs"
  by (simp add: number_bytes_def)

lemma long_again: "(n = 0 \<Longrightarrow> m = 0) \<Longrightarrow> long_bytes m (long_bytes n bs) = long_bytes n bs"
  using length_be_fixed [of 8 n] by (auto simp: long_bytes_def simp del: length_be_fixed)

lemma read_back_values:
  "unsigned_values (read_back t) ts = unsigned_values t ts" "beacon_values (read_back t) = beacon_values t"
  by (simp_all add: unsigned_values_def beacon_values_def read_back_def number_again long_again)

lemma read_back_widths:
  assumes "tx_widths t"
  shows "tx_widths (read_back t)"
proof -
  have num: "number_ok n (number_bytes n bs)" if "number_ok n bs" for n bs
    using that length_be_min_le [of n 32] by (auto simp: number_ok_def number_bytes_def)
  have long: "long_ok (if bs = [] then n mod 2 ^ 64 else n) (long_bytes n bs)" if "long_ok n bs" for n bs
    using read_long [OF that] that by (auto simp: long_ok_def long_bytes_def)
  show ?thesis using assms by (simp add: tx_widths_def read_back_def num long del: if_split)
qed


lemma fits32_sum:
  assumes "sum_list (map length vs) + 5 * length vs + 5 < 2 ^ 32"
  shows "fits32 (list_enc (concat (map data_enc vs)))"
proof -
  have "length (concat (map data_enc vs)) \<le> sum_list (map length vs) + 5 * length vs"
    using assms
  proof (induction vs)
    case (Cons v vs)
    then show ?case using length_data_enc_le [of v] by simp
  qed simp
  then show ?thesis using assms length_list_enc_le [of "concat (map data_enc vs)"] by simp
qed

definition plain_transaction :: "nat \<Rightarrow> unverified_transaction" where
  "plain_transaction price =
     \<lparr>ut_unsigned = transaction_new 5 price 21000 (Call (replicate 32 1)) 7 [] 1 None,
      ut_sig = replicate 96 1, ut_hash = replicate 32 0, ut_timestamp = replicate 8 0\<rparr>"

lemma plain_transaction_ok:
  assumes "price < 2 ^ 128"
  shows "tx_widths (ut_unsigned (plain_transaction price))" "fits32 (sealed_enc (plain_transaction price))"
    "fits32 (unsigned_enc (ut_unsigned (plain_transaction price)) (replicate 8 0))"
proof -
  let ?t = "ut_unsigned (plain_transaction price)"
  show "tx_widths ?t" using assms
    by (simp add: tx_widths_def plain_transaction_def transaction_new_def number_ok_def long_ok_def)
  have be: "length (be_min price) \<le> 16" "length (be_min 5) \<le> 1" "length (be_min 7) \<le> 1"
      "length (be_min 21000) \<le> 2" "length (be_min 1) \<le> 1"
    using assms by (intro length_be_min_le; simp)+
  have "sum_list (map length (unsigned_values ?t (replicate 8 0))) \<le> 100"
    using be by (auto simp: unsigned_values_def plain_transaction_def transaction_new_def number_bytes_def
        long_bytes_def action_bytes_def)
  then show "fits32 (sealed_enc (plain_transaction price))" "fits32 (unsigned_enc ?t (replicate 8 0))"
    unfolding sealed_enc_def unsigned_enc_def
    by (intro fits32_sum; simp add: plain_transaction_def transaction_new_def beacon_values_def
        unsigned_values_def)+
qed


lemma short_number: "leading_zeros 256 n div 8 < 16 \<longleftrightarrow> 2 ^ 128 \<le> n"
proof -
  have "leading_zeros 256 n div 8 < 16 \<longleftrightarrow> \<not> nbits n \<le> 128" by (simp add: leading_zeros_def) linarith
  then show ?thesis by (simp add: nbits_le_iff not_less)
qed

lemma verify_basic_Ok:
  "verify_basic u = Ok () \<longleftrightarrow>
     t_nonce (ut_unsigned u) < 2 ^ 128 \<and> t_value (ut_unsigned u) < 2 ^ 128 \<and>
     t_gas_price (ut_unsigned u) < 2 ^ 128 \<and> is_gas_limit_valid (ut_unsigned u) \<and>
     length (ut_timestamp u) \<le> 8 \<and> length (ut_sig u) = 96"
  unfolding verify_basic_def Let_def short_number by (auto simp: not_le)




lemma gas_required_sum:
  "gas_required t = (case t_action t of Create \<Rightarrow> GAS_CREATE_MIN | Call _ \<Rightarrow> 0) + GAS_CALL_MIN +
     GAS_TX_DATA_ZERO * length (filter (\<lambda>b. b = 0) (t_data t)) +
     GAS_TX_DATA_NONZERO * length (filter (\<lambda>b. b \<noteq> 0) (t_data t))"
proof -
  have "foldl (\<lambda>g b. g + (if b = 0 then z else w)) a bs = a + z * length (filter (\<lambda>b. b = 0) bs) +
      w * length (filter (\<lambda>b. b \<noteq> 0) bs)" for a z w :: nat and bs :: bytes
    by (induction bs arbitrary: a) simp_all
  then show ?thesis by (simp add: gas_required_def)
qed

text \<open>
  What the basic checks admit. A transaction passes exactly when nonce, value and price have at
  most 128 bits, its energy lies between the intrinsic cost of its data and the cap of its kind, its
  timestamp has at most eight bytes and its signature has 96.
\<close>

theorem verify_basic_admits:
  "verify_basic u = Ok () \<longleftrightarrow>
     t_nonce (ut_unsigned u) < 2 ^ 128 \<and> t_value (ut_unsigned u) < 2 ^ 128 \<and>
     t_gas_price (ut_unsigned u) < 2 ^ 128 \<and> length (ut_timestamp u) \<le> 8 \<and> length (ut_sig u) = 96 \<and>
     (case t_action (ut_unsigned u) of Create \<Rightarrow> GAS_CREATE_MIN | Call _ \<Rightarrow> 0) + GAS_CALL_MIN +
       GAS_TX_DATA_ZERO * length (filter (\<lambda>b. b = 0) (t_data (ut_unsigned u))) +
       GAS_TX_DATA_NONZERO * length (filter (\<lambda>b. b \<noteq> 0) (t_data (ut_unsigned u))) \<le> t_gas (ut_unsigned u) \<and>
     t_gas (ut_unsigned u) \<le> (case t_action (ut_unsigned u) of Create \<Rightarrow> GAS_CREATE_MAX | Call _ \<Rightarrow> GAS_CALL_MAX)"
  unfolding verify_basic_Ok is_gas_limit_valid_def gas_required_sum max_gas_limit_def by auto

text \<open>
  When the sender's recovery panics. Taking the signature apart panics exactly when it is not all
  zero and does not have 96 bytes; every other signature gives a sender or an error. The decoder
  admits any length, so the check of the length has to come first.
\<close>

theorem sender_recovery_panics:
  assumes "tx_widths (ut_unsigned u)" and "fits32 (unsigned_enc (ut_unsigned u) (ut_timestamp u))"
  shows "signed_new blake2b ed25519_verify u = Panic \<longleftrightarrow> \<not> is_unsigned u \<and> length (ut_sig u) \<noteq> 96"
proof -
  obtain h where "transaction_hash blake2b (ut_unsigned u) (ut_timestamp u) = Some h"
    using unsigned_rlp [OF assms] by (auto simp: transaction_hash_def)
  then show ?thesis
    by (simp add: signed_new_def recover_public_def signature_from_def recover_ed25519_def Let_def
        try_ok_eq_Panic_iff)
qed

theorem sender_recovery_panics_witness:
  "signed_new (\<lambda>b. b) (\<lambda>_ _ _. True) ((plain_transaction 10)\<lparr>ut_sig := [1]\<rparr>) = Panic"
  using sender_recovery_panics [of "(plain_transaction 10)\<lparr>ut_sig := [1]\<rparr>" "\<lambda>b. b" "\<lambda>_ _ _. True"]
    plain_transaction_ok(1,3) [of 10]
  by (simp add: is_unsigned_def plain_transaction_def)

subsection \<open>What a signature covers\<close>

lemma enc_values_inj:
  assumes "list_enc (concat (map data_enc vs)) = list_enc (concat (map data_enc ws))"
    and "fits32 (list_enc (concat (map data_enc vs)))" and "fits32 (list_enc (concat (map data_enc ws)))"
  shows "vs = ws"
proof -
  have "concat (map data_enc vs) = concat (map data_enc ws)" using list_enc_inj [OF assms(1,2)] .
  moreover have "split_items (concat (map data_enc us)) = map data_enc us"
    if "fits32 (list_enc (concat (map data_enc us)))" for us
    using fits32_values [OF that] by (intro split_items_framed) (auto intro: framed_data)
  ultimately have "map data_enc vs = map data_enc ws" using assms(2,3) by metis
  then show ?thesis by (rule map_eq_pointwise) (blast intro: data_enc_inj fits32_values [OF assms(2)])
qed

lemma number_bytes_val: "number_ok n bs \<Longrightarrow> be_val (number_bytes n bs) = n"
  by (simp add: number_ok_def number_bytes_def split: if_splits)

lemma be_min_inject: "be_min m = be_min n \<Longrightarrow> m = n"
  by (metis be_val_be_min)



end
