(* ===== verification/Unity_Engine.thy ===== *)
theory Unity_Engine
  imports Header Fixed_Point
begin

text \<open>
  The consensus engine of \<^verbatim>\<open>src/core/src/engine/unity_engine\<close>: difficulty adjustment before and after the
  Unity fork, block rewards with the memoised term, the header validators and the seal checks. A
  \<^verbatim>\<open>U256\<close> is a natural number; an operation that would leave its range, a division by zero and an
  overflow of a native integer are panics. The chain client, the hash, the signature check and the
  Equihash check are parameters. The lemmas show that the difficulty never falls below the
  minimum, that the reward cache is invisible, and what an accepted chain of headers looks like.
\<close>

subsection \<open>Big-integer arithmetic\<close>

definition u256_add :: "nat \<Rightarrow> nat \<Rightarrow> nat option" where
  "u256_add a b = (if a + b < 2 ^ 256 then Some (a + b) else None)"

definition u256_sub :: "nat \<Rightarrow> nat \<Rightarrow> nat option" where
  "u256_sub a b = (if b \<le> a then Some (a - b) else None)"

definition u256_mul :: "nat \<Rightarrow> nat \<Rightarrow> nat option" where
  "u256_mul a b = (if a * b < 2 ^ 256 then Some (a * b) else None)"

definition checked_div :: "nat \<Rightarrow> nat \<Rightarrow> nat option" where
  "checked_div a b = (if b = 0 then None else Some (a div b))"

definition u64_sub :: "nat \<Rightarrow> nat \<Rightarrow> nat option" where
  "u64_sub a b = (if b \<le> a then Some (a - b) else None)"

definition u64_add :: "nat \<Rightarrow> nat \<Rightarrow> nat option" where
  "u64_add a b = (if a + b < 2 ^ 64 then Some (a + b) else None)"

text \<open>\<^verbatim>\<open>From<BigUint> for U256\<close> keeps the 32 low bytes; \<^verbatim>\<open>From<U512> for U256\<close> panics on the high ones.\<close>

definition u256_of_big_uint :: "nat \<Rightarrow> nat" where
  "u256_of_big_uint v = v mod 2 ^ 256"

definition u256_of_u512 :: "nat \<Rightarrow> nat option" where
  "u256_of_u512 v = (if v < 2 ^ 256 then Some v else None)"

lemmas u256_ops = u256_add_def u256_sub_def u256_mul_def checked_div_def u64_sub_def u64_add_def

subsection \<open>Parameters\<close>

record unity_params =
  rampup_upper_bound :: nat
  rampup_lower_bound :: nat
  rampup_start_value :: nat
  rampup_end_value :: nat
  upper_block_reward :: nat
  lower_block_reward :: nat
  difficulty_bound_divisor :: nat
  difficulty_bound_divisor_unity :: nat
  block_time_lower_bound :: nat
  block_time_upper_bound :: nat
  block_time_unity :: nat
  minimum_pow_difficulty :: nat
  minimum_pos_difficulty :: nat

text \<open>The values a chain specification gets that leaves the parameters out.\<close>

definition unity_params_default :: unity_params where
  "unity_params_default = \<lparr>rampup_upper_bound = 259200, rampup_lower_bound = 0, rampup_start_value = 748994641621655092,
     rampup_end_value = 1497989283243310185, upper_block_reward = 1497989283243310185,
     lower_block_reward = 748994641621655092, difficulty_bound_divisor = 2048,
     difficulty_bound_divisor_unity = 20, block_time_lower_bound = 5, block_time_upper_bound = 15,
     block_time_unity = 10, minimum_pow_difficulty = 16, minimum_pos_difficulty = 10000000000000 * 1000000000\<rparr>"

definition ANNUAL_BLOCK_MOUNT :: nat where
  "ANNUAL_BLOCK_MOUNT = 3110400"

definition COMPOUND_YEAR_MAX :: nat where
  "COMPOUND_YEAR_MAX = 128"

definition BARRIER :: nat where
  "BARRIER = 7"

definition DIFF_INC_RATE :: fixed_point where
  "DIFF_INC_RATE = (case parse_from_big_decimal (105, 2) of Inr x \<Rightarrow> x | Inl _ \<Rightarrow> 0)"

definition DIFF_DEC_RATE :: fixed_point where
  "DIFF_DEC_RATE = (case parse_from_big_decimal (952381, 6) of Inr x \<Rightarrow> x | Inl _ \<Rightarrow> 0)"

subsection \<open>Difficulty\<close>

text \<open>The calculators copy the parameters they use into their own fields; here they keep them all.\<close>

record difficulty_calc =
  dc_params :: unity_params
  dc_unity_update :: "nat option"
  dc_unity_hybrid_seed_update :: "nat option"

definition difficulty_calc_new :: "unity_params \<Rightarrow> nat option \<Rightarrow> nat option \<Rightarrow> difficulty_calc" where
  "difficulty_calc_new params unity_update unity_hybrid_seed_update =
     \<lparr>dc_params = params, dc_unity_update = unity_update,
      dc_unity_hybrid_seed_update = unity_hybrid_seed_update\<rparr>"

text \<open>
  \<open>total_stake\<close> is the client's \<^verbatim>\<open>get_total_stake\<close> at the block with the given hash.
\<close>

definition initial_pos_difficulty :: "(bytes \<Rightarrow> bytes) \<Rightarrow> (bytes \<Rightarrow> nat option) \<Rightarrow> difficulty_calc \<Rightarrow>
    header \<Rightarrow> nat option" where
  "initial_pos_difficulty blake2b total_stake self parent =
     (let minimum = minimum_pos_difficulty (dc_params self) in do {
        (_, parent_hash) \<leftarrow> header_hash blake2b parent;
        initial \<leftarrow> (case total_stake parent_hash of
                     Some stake \<Rightarrow> u256_mul stake 10
                   | None \<Rightarrow> Some minimum);
        Some (max minimum initial)
      })"

definition calculate_difficulty_v1 :: "difficulty_calc \<Rightarrow> header \<Rightarrow> header \<Rightarrow> nat option" where
  "calculate_difficulty_v1 self parent grand_parent =
     (let parent_difficulty = h_difficulty parent; p = dc_params self in do {
        base \<leftarrow> checked_div parent_difficulty (difficulty_bound_divisor p);
        let diff_base = (if base = 0 then 1 else base);
        delta \<leftarrow> u64_sub (h_timestamp parent) (h_timestamp grand_parent);
        output_difficulty \<leftarrow>
          (if delta \<le> block_time_lower_bound p then u256_add parent_difficulty diff_base
           else if block_time_lower_bound p < delta \<and> delta < block_time_upper_bound p
             then Some parent_difficulty
           else do {
             over \<leftarrow> u64_sub delta (block_time_upper_bound p);
             bound_quotient \<leftarrow> u64_add (over div 10) 1;
             let multiplier = min bound_quotient 99;
             step \<leftarrow> u256_mul multiplier diff_base;
             if parent_difficulty > step then u256_sub parent_difficulty step
             else Some (minimum_pow_difficulty p)
           });
        Some (max output_difficulty (minimum_pow_difficulty p))
      })"

definition calculate_difficulty_v2 :: "difficulty_calc \<Rightarrow> header \<Rightarrow> header \<Rightarrow> nat option" where
  "calculate_difficulty_v2 self grand_parent great_grand_parent =
     (let parent_difficulty = h_difficulty grand_parent in do {
        delta_time \<leftarrow> u64_sub (h_timestamp grand_parent) (h_timestamp great_grand_parent);
        if delta_time > 0 then do {
          diff \<leftarrow>
            (if delta_time \<ge> BARRIER
             then Some (u256_of_big_uint (fp_to_big_uint (multiply_uint DIFF_DEC_RATE parent_difficulty)))
             else let temp = u256_of_big_uint (fp_to_big_uint (multiply_uint DIFF_INC_RATE parent_difficulty))
                  in if temp = parent_difficulty then u256_add temp 1 else Some temp);
          let minimum_difficulty =
            (if h_seal_type grand_parent = Some PoS then minimum_pos_difficulty (dc_params self)
             else minimum_pow_difficulty (dc_params self));
          Some (max minimum_difficulty diff)
        }
        else None
      })"

definition calculate_difficulty :: "(bytes \<Rightarrow> bytes) \<Rightarrow> (bytes \<Rightarrow> nat option) \<Rightarrow> difficulty_calc \<Rightarrow>
    header \<Rightarrow> header option \<Rightarrow> header option \<Rightarrow> nat option" where
  "calculate_difficulty blake2b total_stake self parent grand_parent great_grand_parent =
     (if (case dc_unity_update self of Some fork_number \<Rightarrow> h_number parent \<ge> fork_number | None \<Rightarrow> False)
      then
        if dc_unity_update self = Some (h_number parent)
        then initial_pos_difficulty blake2b total_stake self parent
        else if dc_unity_hybrid_seed_update self = Some (h_number parent)
        then initial_pos_difficulty blake2b total_stake self parent
        else (case grand_parent of
                None \<Rightarrow> None
              | Some grand_parent \<Rightarrow>
                  (case great_grand_parent of
                     None \<Rightarrow> Some (h_difficulty grand_parent)
                   | Some great_grand_parent \<Rightarrow>
                       calculate_difficulty_v2 self grand_parent great_grand_parent))
      else (case grand_parent of
              None \<Rightarrow> Some (h_difficulty parent)
            | Some grand_parent \<Rightarrow> calculate_difficulty_v1 self parent grand_parent))"

subsection \<open>Rewards\<close>

record rewards_calculator =
  rc_params :: unity_params
  rc_monetary_policy_update :: "nat option"
  rc_unity_update :: "nat option"
  rc_m :: nat
  rc_current_term :: nat
  rc_current_reward :: nat
  rc_compound_lookup_table :: "nat list"

definition rampup_increment :: "unity_params \<Rightarrow> nat option" where
  "rampup_increment params = do {
     delta \<leftarrow> u256_sub (rampup_upper_bound params) (rampup_lower_bound params);
     rise \<leftarrow> u256_sub (rampup_end_value params) (rampup_start_value params);
     checked_div rise delta
   }"

definition calculate_reward_before_monetary_update :: "nat \<Rightarrow> unity_params \<Rightarrow> nat \<Rightarrow> nat option" where
  "calculate_reward_before_monetary_update num params m =
     (if num \<le> rampup_lower_bound params then Some (lower_block_reward params)
      else if num \<le> rampup_upper_bound params then do {
        d \<leftarrow> u256_sub num (rampup_lower_bound params);
        dm \<leftarrow> u256_mul d m;
        u256_add dm (rampup_start_value params)
      }
      else Some (upper_block_reward params))"

text \<open>The loop \<^verbatim>\<open>for i in 1..n + 1\<close>, as a fold over the block numbers.\<close>

definition calculate_total_supply_before_monetary_update :: "nat \<Rightarrow> nat \<Rightarrow> unity_params \<Rightarrow> nat option" where
  "calculate_total_supply_before_monetary_update initial_supply monetary_change_block_num params =
     (if monetary_change_block_num < 1 then Some initial_supply
      else do {
        m \<leftarrow> rampup_increment params;
        foldl (\<lambda>ts i. do { t \<leftarrow> ts; r \<leftarrow> calculate_reward_before_monetary_update i params m; u256_add t r })
          (Some initial_supply) [1..<monetary_change_block_num + 1]
      })"

text \<open>The loop keeps the last two values, in 512-bit arithmetic.\<close>

fun compound_loop :: "nat \<Rightarrow> nat \<Rightarrow> nat \<Rightarrow> (nat \<times> nat) option" where
  "compound_loop 0 compound pre_compound = Some (compound, pre_compound)"
| "compound_loop (Suc n) compound pre_compound =
     (let pre_compound = compound in
      if pre_compound * 10100 < 2 ^ 512 then compound_loop n (pre_compound * 10100 div 10000) pre_compound
      else None)"

definition calculate_compound :: "nat \<Rightarrow> nat \<Rightarrow> nat option" where
  "calculate_compound term initial_supply =
     (let c = initial_supply * 10000 in do {
        (compound, pre_compound) \<leftarrow> compound_loop term c c;
        if pre_compound \<le> compound
        then u256_of_u512 ((compound - pre_compound) div ANNUAL_BLOCK_MOUNT div 10000)
        else None
      })"

fun compound_table :: "nat list \<Rightarrow> nat \<Rightarrow> nat list option" where
  "compound_table [] total_supply = Some []"
| "compound_table (i # is) total_supply = do {
     c \<leftarrow> calculate_compound i total_supply;
     cs \<leftarrow> compound_table is total_supply;
     Some (c # cs)
   }"

definition rewards_calculator_new :: "unity_params \<Rightarrow> nat option \<Rightarrow> nat option \<Rightarrow> nat \<Rightarrow>
    rewards_calculator option" where
  "rewards_calculator_new params monetary_policy_update unity_update premine = do {
     m \<leftarrow> rampup_increment params;
     table \<leftarrow> (case monetary_policy_update of
                 None \<Rightarrow> Some []
               | Some number \<Rightarrow> do {
                   total_supply \<leftarrow> calculate_total_supply_before_monetary_update premine number params;
                   compound_table [0..<COMPOUND_YEAR_MAX] total_supply
                 });
     Some \<lparr>rc_params = params, rc_monetary_policy_update = monetary_policy_update,
           rc_unity_update = unity_update, rc_m = m, rc_current_term = 0, rc_current_reward = 0,
           rc_compound_lookup_table = table\<rparr>
   }"

definition lookup_reward :: "nat list \<Rightarrow> nat \<Rightarrow> nat" where
  "lookup_reward table term = (if term < length table then table ! term else 0)"

text \<open>\<open>number\<close> is beyond the update block \<open>update\<close>, which the caller has tested.\<close>

definition calculate_reward_after_monetary_update :: "nat \<Rightarrow> rewards_calculator \<Rightarrow> nat \<Rightarrow>
    (rewards_calculator \<times> nat) option" where
  "calculate_reward_after_monetary_update update self number = do {
     past \<leftarrow> u64_sub number update;
     past1 \<leftarrow> u64_sub past 1;
     let term = past1 div ANNUAL_BLOCK_MOUNT + 1;
     let self' = (if term \<noteq> rc_current_term self
                  then self\<lparr>rc_current_reward := lookup_reward (rc_compound_lookup_table self) term,
                            rc_current_term := term\<rparr>
                  else self);
     Some (self', rc_current_reward self')
   }"

definition calculate_reward :: "rewards_calculator \<Rightarrow> nat \<Rightarrow> (rewards_calculator \<times> nat) option" where
  "calculate_reward self number =
     (if (case rc_unity_update self of Some n \<Rightarrow> number > n | None \<Rightarrow> False)
      then Some (self, 4500000000000000000)
      else
        case (case rc_monetary_policy_update self of
                Some n \<Rightarrow> if number > n then Some n else None
              | None \<Rightarrow> None) of
          Some n \<Rightarrow> calculate_reward_after_monetary_update n self number
        | None \<Rightarrow> do {
            r \<leftarrow> calculate_reward_before_monetary_update number (rc_params self) (rc_m self);
            Some (self, r)
          })"

subsection \<open>Difficulty\<close>

lemma DIFF_RATES: "DIFF_INC_RATE = 1239621201753281868595" "DIFF_DEC_RATE = 1124373028330468894566"
  by (simp_all add: DIFF_INC_RATE_def DIFF_DEC_RATE_def parse_from_big_decimal_def decimal_to_bigint_def
      MAX_PRECISION_eval)

definition inc_difficulty :: "nat \<Rightarrow> nat" where
  "inc_difficulty d = fp_to_big_uint (multiply_uint DIFF_INC_RATE d)"

definition dec_difficulty :: "nat \<Rightarrow> nat" where
  "dec_difficulty d = fp_to_big_uint (multiply_uint DIFF_DEC_RATE d)"

lemmas rate_defs = inc_difficulty_def dec_difficulty_def fp_to_big_uint_def multiply_uint_def PRECISION_def

lemma inc_difficulty_bounds: "d \<le> inc_difficulty d" "inc_difficulty d \<le> d + d div 20"
proof -
  have "d = d * 2 ^ 70 div 2 ^ 70" by simp
  also have "\<dots> \<le> inc_difficulty d" unfolding rate_defs DIFF_RATES by (intro div_le_mono) simp
  finally show "d \<le> inc_difficulty d" .
  have "20 * DIFF_INC_RATE \<le> 21 * 2 ^ 70" by (simp add: DIFF_RATES)
  then have "20 * (DIFF_INC_RATE * d) \<le> 21 * d * 2 ^ 70" using mult_le_mono1 [of "20 * DIFF_INC_RATE" "21 * 2 ^ 70" d]
    by (simp add: ac_simps)
  then have "inc_difficulty d * 20 \<le> 21 * d"
    unfolding rate_defs by (simp add: DIFF_RATES)
  then show "inc_difficulty d \<le> d + d div 20" by linarith
qed

lemma dec_difficulty_less: "0 < d \<Longrightarrow> dec_difficulty d < d"
  unfolding rate_defs by (intro less_mult_imp_div_less) (simp add: DIFF_RATES)

lemma dec_difficulty_ge: "d \<le> dec_difficulty d + d div 20 + 1"
proof -
  have "19 * d * 2 ^ 70 \<le> 20 * (DIFF_DEC_RATE * d)" by (simp add: DIFF_RATES)
  then have "19 * d \<le> 20 * (DIFF_DEC_RATE * d) div 2 ^ 70" by (simp add: less_eq_div_iff_mult_less_eq)
  moreover have "20 * (DIFF_DEC_RATE * d) div 2 ^ 70 \<le> 20 * (DIFF_DEC_RATE * d div 2 ^ 70) + 20"
    by (simp add: DIFF_RATES)
  ultimately show ?thesis unfolding rate_defs by linarith
qed

lemma calculate_difficulty_v2_cases:
  assumes "h_timestamp great_grand_parent < h_timestamp grand_parent" and "h_difficulty grand_parent < 2 ^ 255"
  shows "calculate_difficulty_v2 self grand_parent great_grand_parent =
    (let d = h_difficulty grand_parent;
         minimum = (if h_seal_type grand_parent = Some PoS then minimum_pos_difficulty (dc_params self)
                    else minimum_pow_difficulty (dc_params self));
         delta = h_timestamp grand_parent - h_timestamp great_grand_parent
     in Some (max minimum (if 7 \<le> delta then dec_difficulty d else max (d + 1) (inc_difficulty d))))"
proof -
  let ?d = "h_difficulty grand_parent"
  have dec: "dec_difficulty ?d < 2 ^ 256"
    using dec_difficulty_less [of ?d] assms(2) by (cases "?d = 0") (simp_all add: rate_defs)
  have inc: "inc_difficulty ?d < 2 ^ 256" using inc_difficulty_bounds(2) [of ?d] assms(2) by simp
  have "max (?d + 1) (inc_difficulty ?d) = (if inc_difficulty ?d = ?d then ?d + 1 else inc_difficulty ?d)"
    using inc_difficulty_bounds(1) [of ?d] by auto
  then show ?thesis
    using assms dec inc
    by (simp add: calculate_difficulty_v2_def u64_sub_def u256_add_def u256_of_big_uint_def BARRIER_def Let_def
        inc_difficulty_def [symmetric] dec_difficulty_def [symmetric])
qed

lemma calculate_difficulty_v1_ge:
  "calculate_difficulty_v1 self parent grand_parent = Some d \<Longrightarrow> minimum_pow_difficulty (dc_params self) \<le> d"
  by (auto simp: calculate_difficulty_v1_def Let_def bind_eq_Some_conv)

lemma calculate_difficulty_v1_defined:
  assumes "h_timestamp grand_parent \<le> h_timestamp parent" and "h_timestamp parent < 2 ^ 64"
    and "h_difficulty parent < 2 ^ 200" and "0 < difficulty_bound_divisor (dc_params self)"
  shows "calculate_difficulty_v1 self parent grand_parent \<noteq> None"
proof -
  let ?d = "h_difficulty parent" and ?p = "dc_params self"
  let ?b = "if ?d div difficulty_bound_divisor ?p = 0 then 1 else ?d div difficulty_bound_divisor ?p"
  have b: "?b \<le> ?d + 1" using div_le_dividend [of ?d "difficulty_bound_divisor ?p"] by (simp, linarith)
  have up: "?d + ?b < 2 ^ 256" using b assms(3) by simp
  have "min k 99 * ?b \<le> 99 * (?d + 1)" for k using b by (intro mult_le_mono) simp_all
  moreover have "99 * (?d + 1) < 2 ^ 256" using assms(3) by simp
  ultimately have down: "min k 99 * ?b < 2 ^ 256" for k by (rule le_less_trans)
  show ?thesis
    using assms(1,2,4) up down
    by (simp add: calculate_difficulty_v1_def u256_ops Let_def split: if_splits)
qed

subsection \<open>Rewards\<close>

text \<open>The reward without the cache: the table entry of the block's term.\<close>

definition reward_term :: "nat \<Rightarrow> nat \<Rightarrow> nat" where
  "reward_term update number = (number - update - 1) div ANNUAL_BLOCK_MOUNT + 1"

definition reward_spec :: "rewards_calculator \<Rightarrow> nat \<Rightarrow> nat option" where
  "reward_spec self number =
     (if (case rc_unity_update self of Some n \<Rightarrow> number > n | None \<Rightarrow> False) then Some 4500000000000000000
      else case rc_monetary_policy_update self of
        Some n \<Rightarrow>
          if number > n then Some (lookup_reward (rc_compound_lookup_table self) (reward_term n number))
          else calculate_reward_before_monetary_update number (rc_params self) (rc_m self)
      | None \<Rightarrow> calculate_reward_before_monetary_update number (rc_params self) (rc_m self))"

text \<open>The cache holds the entry of the cached term, or the initial term zero, which no block has.\<close>

definition reward_cache_ok :: "rewards_calculator \<Rightarrow> bool" where
  "reward_cache_ok self \<longleftrightarrow> rc_current_term self = 0 \<or>
     rc_current_reward self = lookup_reward (rc_compound_lookup_table self) (rc_current_term self)"

definition same_rewards :: "rewards_calculator \<Rightarrow> rewards_calculator \<Rightarrow> bool" where
  "same_rewards a b \<longleftrightarrow> rc_params a = rc_params b \<and> rc_monetary_policy_update a = rc_monetary_policy_update b \<and>
     rc_unity_update a = rc_unity_update b \<and> rc_m a = rc_m b \<and>
     rc_compound_lookup_table a = rc_compound_lookup_table b"

lemma reward_spec_cong: "same_rewards a b \<Longrightarrow> reward_spec a = reward_spec b"
  by (simp add: same_rewards_def reward_spec_def fun_eq_iff split: option.splits)

lemma same_rewards_refl: "same_rewards a a"
  by (simp add: same_rewards_def)

lemma map_option_snd_bind [simp]: "map_option snd (m \<bind> (\<lambda>r. Some (s, r))) = m"
  by (cases m) simp_all

lemma calculate_reward_spec:
  assumes "reward_cache_ok self"
  shows "map_option snd (calculate_reward self number) = reward_spec self number"
    and "calculate_reward self number = Some (self', r) \<Longrightarrow> reward_cache_ok self' \<and> same_rewards self' self"
  using assms
  by (auto simp: calculate_reward_def calculate_reward_after_monetary_update_def reward_spec_def
      reward_term_def reward_cache_ok_def u64_sub_def same_rewards_def Let_def bind_eq_Some_conv
      option.map_comp comp_def split: option.splits if_splits)

fun reward_run :: "rewards_calculator \<Rightarrow> nat list \<Rightarrow> nat list option" where
  "reward_run self [] = Some []"
| "reward_run self (n # ns) = do {
     (self', r) \<leftarrow> calculate_reward self n;
     rs \<leftarrow> reward_run self' ns;
     Some (r # rs)
   }"

fun all_somes :: "'a option list \<Rightarrow> 'a list option" where
  "all_somes [] = Some []"
| "all_somes (x # xs) = do { a \<leftarrow> x; as \<leftarrow> all_somes xs; Some (a # as) }"

lemma reward_run_spec:
  "reward_cache_ok self \<Longrightarrow> reward_run self ns = all_somes (map (reward_spec self) ns)"
proof (induction ns arbitrary: self)
  case (Cons n ns)
  note spec = calculate_reward_spec(1) [OF Cons.prems, of n]
  show ?case
  proof (cases "calculate_reward self n")
    case None
    then show ?thesis using spec by simp
  next
    case (Some p)
    obtain self' r where p: "p = (self', r)" by (cases p)
    then have "reward_cache_ok self'" "same_rewards self' self"
      using calculate_reward_spec(2) [OF Cons.prems, of n self' r] Some by simp_all
    then have "reward_run self' ns = all_somes (map (reward_spec self) ns)"
      using Cons.IH reward_spec_cong by metis
    then show ?thesis using spec [symmetric] Some p by simp
  qed
qed simp

text \<open>The ramp stays between its ends.\<close>

lemma ramp_bounds:
  assumes "rampup_increment params = Some m" and "rampup_end_value params < 2 ^ 256"
    and "rampup_lower_bound params < num" and "num \<le> rampup_upper_bound params"
  shows "\<exists>r. calculate_reward_before_monetary_update num params m = Some r \<and>
    rampup_start_value params \<le> r \<and> r \<le> rampup_end_value params"
proof -
  let ?lo = "rampup_lower_bound params" and ?hi = "rampup_upper_bound params"
  let ?s = "rampup_start_value params" and ?e = "rampup_end_value params"
  have m: "m = (?e - ?s) div (?hi - ?lo)" and se: "?s \<le> ?e"
    using assms(1) by (auto simp: rampup_increment_def u256_ops bind_eq_Some_conv split: if_splits)
  have "(num - ?lo) * m \<le> (?hi - ?lo) * m" using assms(4) by (intro mult_le_mono) simp_all
  also have "\<dots> \<le> ?e - ?s" unfolding m by (simp add: mult.commute)
  finally have "(num - ?lo) * m + ?s \<le> ?e" using se by simp
  then show ?thesis using assms(2-4)
    by (auto simp: calculate_reward_before_monetary_update_def u256_ops)
qed

text \<open>The supply is the premine and the rewards of the blocks up to the update.\<close>

lemma foldl_rewards:
  assumes "\<And>i. i \<in> set is \<Longrightarrow> f i \<noteq> None" and "s + (\<Sum>i\<leftarrow>is. the (f i)) < 2 ^ 256"
  shows "foldl (\<lambda>ts i. do { t \<leftarrow> ts; r \<leftarrow> f i; u256_add t r }) (Some s) is = Some (s + (\<Sum>i\<leftarrow>is. the (f i)))"
  using assms
proof (induction "is" arbitrary: s)
  case (Cons i "is")
  then obtain r where "f i = Some r" by (meson list.set_intros(1) option.exhaust)
  then show ?case using Cons.IH [of "s + r"] Cons.prems by (simp add: u256_add_def add.assoc)
qed simp

text \<open>Compounding at one percent never leaves the range of the big integers.\<close>

lemma growth_bound:
  fixes c s :: nat
  assumes "c * 100 ^ k \<le> s * 101 ^ k" and "k \<le> 128"
  shows "c \<le> 4 * s"
proof -
  have "c * 100 ^ 128 = c * 100 ^ k * 100 ^ (128 - k)"
    using assms(2) by (simp add: mult.assoc power_add [symmetric])
  also have "\<dots> \<le> s * 101 ^ k * 100 ^ (128 - k)" using assms(1) by (rule mult_le_mono1)
  also have "\<dots> \<le> s * 101 ^ k * 101 ^ (128 - k)" by (intro mult_le_mono power_mono) simp_all
  also have "\<dots> = s * 101 ^ 128" using assms(2) by (simp add: mult.assoc power_add [symmetric])
  also have "\<dots> \<le> (4 * s) * 100 ^ 128" by simp
  finally show ?thesis by simp
qed

lemma compound_loop_bound:
  assumes "c * 100 ^ k \<le> s * 101 ^ k" and "pre \<le> c" and "n + k \<le> 128" and "s < 2 ^ 270"
    and "100 * (c - pre) \<le> c"
  shows "\<exists>c' pre'. compound_loop n c pre = Some (c', pre') \<and> pre' \<le> c' \<and>
    c' * 100 ^ (n + k) \<le> s * 101 ^ (n + k) \<and> 100 * (c' - pre') \<le> c'"
  using assms
proof (induction n arbitrary: c pre k)
  case (Suc n)
  have "c \<le> 4 * s" using growth_bound [OF Suc.prems(1)] Suc.prems(3) by simp
  then have fits: "c * 10100 < 2 ^ 512" using Suc.prems(4) by simp
  let ?c = "c * 10100 div 10000"
  have up: "c \<le> ?c" "100 * ?c \<le> 101 * c" by simp_all
  have "?c * 100 ^ Suc k \<le> 101 * c * 100 ^ k" using up(2) by simp
  also have "\<dots> \<le> s * 101 ^ Suc k" using Suc.prems(1) by simp
  finally have "?c * 100 ^ Suc k \<le> s * 101 ^ Suc k" .
  moreover have "100 * (?c - c) \<le> ?c" using up by linarith
  ultimately show ?case using Suc.IH [of ?c "Suc k" c] up(1) Suc.prems fits by (simp add: Let_def)
qed auto

lemma calculate_compound_defined:
  assumes "supply < 2 ^ 256" and "term \<le> 128"
  shows "\<exists>c. calculate_compound term supply = Some c"
proof -
  let ?s = "supply * 10000"
  have s: "?s < 2 ^ 270" using assms(1) by simp
  obtain c pre where loop: "compound_loop term ?s ?s = Some (c, pre)" "pre \<le> c"
      "c * 100 ^ term \<le> ?s * 101 ^ term" "100 * (c - pre) \<le> c"
    using compound_loop_bound [of ?s 0 ?s ?s "term"] assms(2) s by auto
  have "c \<le> 4 * ?s" using growth_bound [OF loop(3) assms(2)] .
  then have "(c - pre) div ANNUAL_BLOCK_MOUNT div 10000 < 2 ^ 256"
    using loop(4) assms(1) by (simp add: ANNUAL_BLOCK_MOUNT_def div_mult2_eq [symmetric])
  then show ?thesis using loop(1,2) by (simp add: calculate_compound_def u256_of_u512_def Let_def)
qed

lemma compound_table_defined:
  "supply < 2 ^ 256 \<Longrightarrow> \<forall>i \<in> set is. i \<le> 128 \<Longrightarrow>
   compound_table is supply = Some (map (\<lambda>i. the (calculate_compound i supply)) is)"
proof (induction "is")
  case (Cons i "is")
  then show ?case using calculate_compound_defined [of "supply" i] by auto
qed simp

subsection \<open>Properties\<close>

text \<open>
  C35 (the Unity difficulty follows the block time). With increasing timestamps the difficulty of the
  next block of a kind is defined; two blocks less than seven seconds apart raise it strictly, by at
  most a twentieth (or one), and a longer gap lowers it strictly, by at most a twentieth and one,
  until the minimum of the block's kind is reached.
\<close>

theorem difficulty_v2_direction:
  assumes "h_timestamp great_grand_parent < h_timestamp grand_parent"
    and "0 < h_difficulty grand_parent" and "h_difficulty grand_parent < 2 ^ 255"
    and "minimum = (if h_seal_type grand_parent = Some PoS then minimum_pos_difficulty (dc_params self)
                    else minimum_pow_difficulty (dc_params self))"
  shows "\<exists>diff. calculate_difficulty_v2 self grand_parent great_grand_parent = Some (max minimum diff) \<and>
    (if h_timestamp grand_parent - h_timestamp great_grand_parent < 7
     then h_difficulty grand_parent < diff \<and>
       diff \<le> h_difficulty grand_parent + max 1 (h_difficulty grand_parent div 20)
     else diff < h_difficulty grand_parent \<and>
       h_difficulty grand_parent \<le> diff + h_difficulty grand_parent div 20 + 1)"
proof -
  let ?d = "h_difficulty grand_parent"
  let ?delta = "h_timestamp grand_parent - h_timestamp great_grand_parent"
  let ?diff = "if 7 \<le> ?delta then dec_difficulty ?d else max (?d + 1) (inc_difficulty ?d)"
  have "calculate_difficulty_v2 self grand_parent great_grand_parent = Some (max minimum ?diff)"
    using calculate_difficulty_v2_cases [OF assms(1,3), of self] assms(4) by (simp add: Let_def)
  moreover have "?d < max (?d + 1) (inc_difficulty ?d)" by simp
  moreover have "max (?d + 1) (inc_difficulty ?d) \<le> ?d + max 1 (?d div 20)"
    using inc_difficulty_bounds(2) [of ?d] by simp
  ultimately show ?thesis
    using dec_difficulty_less [OF assms(2)] dec_difficulty_ge [of ?d]
    by (intro exI [of _ ?diff]) (simp add: not_le)
qed

theorem difficulty_v2_direction_witness:
  "\<exists>diff. calculate_difficulty_v2
       \<lparr>dc_params = undefined\<lparr>minimum_pow_difficulty := 16\<rparr>, dc_unity_update = None, dc_unity_hybrid_seed_update = None\<rparr>
       (header_default\<lparr>h_difficulty := 100, h_timestamp := 5\<rparr>) header_default = Some (max 16 diff) \<and>
     100 < diff \<and> diff \<le> 105"
  using difficulty_v2_direction [of header_default "header_default\<lparr>h_difficulty := 100, h_timestamp := 5\<rparr>" 16
      "\<lparr>dc_params = undefined\<lparr>minimum_pow_difficulty := 16\<rparr>, dc_unity_update = None, dc_unity_hybrid_seed_update = None\<rparr>"]
  by (simp add: header_default_def)

text \<open>
  C36 (the reward cache is invisible). A new rewards calculator, asked for the rewards of any sequence
  of block numbers, answers each of them by the table entry of the block's term (or the rule of the
  block's era), whatever was asked before.
\<close>

theorem reward_cache_invisible:
  assumes "rewards_calculator_new params monetary_policy_update unity_update premine = Some self"
  shows "reward_run self ns = all_somes (map (reward_spec self) ns)"
proof -
  have "rc_current_term self = 0"
    using assms by (auto simp: rewards_calculator_new_def bind_eq_Some_conv)
  then show ?thesis by (intro reward_run_spec) (simp add: reward_cache_ok_def)
qed

lemma unity_params_default_increment: "rampup_increment unity_params_default = Some 2889639821071"
  by (simp add: rampup_increment_def unity_params_default_def u256_ops)

theorem reward_cache_invisible_witness:
  "\<exists>self. rewards_calculator_new unity_params_default None (Some 10) 0 = Some self \<and>
     reward_run self [3, 11, 3] = Some [748994641621655092 + 3 * 2889639821071, 4500000000000000000,
       748994641621655092 + 3 * 2889639821071]"
proof -
  obtain self where new: "rewards_calculator_new unity_params_default None (Some 10) 0 = Some self"
    and fields: "rc_params self = unity_params_default" "rc_m self = 2889639821071" "rc_unity_update self = Some 10"
      "rc_monetary_policy_update self = None"
    by (simp add: rewards_calculator_new_def unity_params_default_increment)
  show ?thesis
    using reward_cache_invisible [OF new, of "[3, 11, 3]"] new fields
    by (simp add: reward_spec_def calculate_reward_before_monetary_update_def unity_params_default_def u256_ops)
qed

text \<open>
  The rewards calculator can be built. When the ramp is not empty and does not fall, and the
  supply at the monetary update fits 256 bits, building the calculator does not panic: the supply is
  the premine plus the rewards up to the update, and each of the 128 entries of the compound table is
  computed without an overflow of the 512-bit arithmetic or of the conversion back.
\<close>

theorem rewards_calculator_built:
  assumes "rampup_lower_bound params < rampup_upper_bound params"
    and "rampup_start_value params \<le> rampup_end_value params" and "rampup_end_value params < 2 ^ 256"
    and "m = (rampup_end_value params - rampup_start_value params) div
             (rampup_upper_bound params - rampup_lower_bound params)"
    and "total_supply = premine +
      (\<Sum>i\<leftarrow>[1..<number + 1]. the (calculate_reward_before_monetary_update i params m))"
    and "total_supply < 2 ^ 256"
  shows "\<exists>self. rewards_calculator_new params (Some number) unity_update premine = Some self \<and>
    rc_compound_lookup_table self = map (\<lambda>i. the (calculate_compound i total_supply)) [0..<128]"
proof -
  have m: "rampup_increment params = Some m"
    using assms(1,2,4) by (simp add: rampup_increment_def u256_ops)
  have rewards: "calculate_reward_before_monetary_update i params m \<noteq> None" for i
    using ramp_bounds [OF m assms(3), of i]
    by (auto simp: calculate_reward_before_monetary_update_def split: if_splits)
  have "calculate_total_supply_before_monetary_update premine number params = Some total_supply"
    using foldl_rewards [of "[1..<number + 1]" "\<lambda>i. calculate_reward_before_monetary_update i params m" premine]
      rewards assms(5,6) m
    by (cases "number = 0") (simp_all add: calculate_total_supply_before_monetary_update_def)
  moreover have "compound_table [0..<COMPOUND_YEAR_MAX] total_supply = Some (map (\<lambda>i. the (calculate_compound i total_supply)) [0..<128])"
    using compound_table_defined [OF assms(6), of "[0..<128]"] by (simp add: COMPOUND_YEAR_MAX_def)
  ultimately show ?thesis using m by (simp add: rewards_calculator_new_def)
qed

theorem rewards_calculator_built_witness:
  "\<exists>self. rewards_calculator_new unity_params_default (Some 0) None 1000 = Some self"
  using rewards_calculator_built [of unity_params_default 2889639821071 1000 1000 0 None]
  by (auto simp: unity_params_default_def)

text \<open>
  The ramp-up of the reward. Between the two ramp blocks the reward is defined and lies between
  the start and the end value.
\<close>

theorem ramp_within_bounds:
  assumes "rampup_increment params = Some m" and "rampup_end_value params < 2 ^ 256"
    and "rampup_lower_bound params < num" and "num \<le> rampup_upper_bound params"
  shows "\<exists>r. calculate_reward_before_monetary_update num params m = Some r \<and>
    rampup_start_value params \<le> r \<and> r \<le> rampup_end_value params"
  using assms by (rule ramp_bounds)

theorem ramp_within_bounds_witness:
  "\<exists>r. calculate_reward_before_monetary_update 3 unity_params_default 2889639821071 = Some r \<and>
    748994641621655092 \<le> r \<and> r \<le> 1497989283243310185"
  using ramp_within_bounds [OF unity_params_default_increment, of 3] by (simp add: unity_params_default_def)

end
