(* ===== verification/Engine_Validators.thy ===== *)
theory Engine_Validators
  imports Unity_Engine
begin

text \<open>
  The header validators of \<^verbatim>\<open>src/core/src/engine/unity_engine\<close> and the engine operations that run them,
  and the family and parameter checks of \<^verbatim>\<open>src/core/src/verification/mod.rs\<close> with the check of the
  transactions' beacon hashes. A check returns \<open>Ok ()\<close>, the error the code returns, or \<open>Panic\<close>.
\<close>

subsection \<open>Errors\<close>

datatype 'a mismatch = Mismatch 'a 'a

text \<open>\<open>OutOfBounds min max found\<close>, as the struct has them.\<close>

datatype 'a out_of_bounds = OutOfBounds "'a option" "'a option" 'a

datatype block_error =
    InvalidSolution
  | ResultOutOfBounds "nat out_of_bounds"
  | ExtraDataOutOfBounds "nat out_of_bounds"
  | InvalidSealArity "nat mismatch"
  | TooMuchGasUsed "nat out_of_bounds"
  | InvalidStateRoot "bytes mismatch"
  | InvalidGasUsed "nat mismatch"
  | InvalidTransactionsRoot "bytes mismatch"
  | DifficultyOutOfBounds "nat out_of_bounds"
  | InvalidDifficulty "nat mismatch"
  | MismatchedH256SealElement "bytes mismatch"
  | InvalidProofOfWork "nat out_of_bounds"
  | InvalidSeal
  | InvalidGasLimit "nat out_of_bounds"
  | InvalidReceiptsRoot "bytes mismatch"
  | InvalidTimestamp "nat out_of_bounds"
  | TemporarilyInvalid "nat out_of_bounds"
  | InvalidLogBloom "bytes mismatch"
  | InvalidParentHash "bytes mismatch"
  | InvalidNumber "nat mismatch"
  | RidiculousNumber "nat out_of_bounds"
  | TooManyTransactions bytes
  | UnknownParent bytes
  | UnknownEpochTransition nat
  | InvalidPoSTimestamp nat nat nat
  | NullStake
  | InvalidPoSBlockNumber
  | InvalidPoSSealType
  | InvalidPoSSeed
  | InvalidPoSSignature
  | InvalidPoSAuthor
  | InvalidFutureTimestamp "nat out_of_bounds"
  | InvalidBeaconHash bytes
  | BeaconHashBanned
  | IncompleteBranch
  | InvalidSealType

type_synonym 'a checked = "(block_error, 'a) outcome"

definition unless_panic :: "'a option \<Rightarrow> ('a \<Rightarrow> 'b checked) \<Rightarrow> 'b checked" where
  "unless_panic m k = (case m of None \<Rightarrow> Panic | Some a \<Rightarrow> k a)"

text \<open>The loop \<^verbatim>\<open>for v in validators { v.validate(..)?; }\<close>.\<close>

fun run_validators :: "unit checked list \<Rightarrow> unit checked" where
  "run_validators [] = Ok ()"
| "run_validators (v # vs) = try_ok v (\<lambda>_. run_validators vs)"

subsection \<open>Validators of one header\<close>

definition FUTURE_TIME_TOLERANCE :: nat where
  "FUTURE_TIME_TOLERANCE = 1"

definition energy_consumed_validate :: "header \<Rightarrow> unit checked" where
  "energy_consumed_validate h =
     (if h_gas_used h > h_gas_limit h
      then Err (TooMuchGasUsed (OutOfBounds None (Some (h_gas_limit h)) (h_gas_used h)))
      else Ok ())"

definition equihash_solution_validate :: "(bytes \<Rightarrow> bytes) \<Rightarrow> (bytes \<Rightarrow> bytes \<Rightarrow> bytes \<Rightarrow> bool) \<Rightarrow> header \<Rightarrow>
    unit checked" where
  "equihash_solution_validate blake2b is_valid_solution h =
     (let seal = h_seal h in
      if length seal \<noteq> 2 then Err (InvalidSealArity (Mismatch 2 (length seal)))
      else if \<not> is_valid_solution (seal ! 1) (mine_hash blake2b h) (seal ! 0) then Err InvalidSolution
      else Ok ())"

definition pow_validate :: "(bytes \<Rightarrow> bytes) \<Rightarrow> header \<Rightarrow> unit checked" where
  "pow_validate blake2b h =
     (let seal = h_seal h in
      if length seal \<noteq> 2 then Err (InvalidSealArity (Mismatch 2 (length seal)))
      else let hash = be_val (blake2b (mine_hash blake2b h @ seal ! 0 @ seal ! 1))
           in if hash \<ge> boundary h then Err (ResultOutOfBounds (OutOfBounds None (Some (boundary h)) hash))
              else Ok ())"

definition future_timestamp_validate :: "nat \<Rightarrow> header \<Rightarrow> unit checked" where
  "future_timestamp_validate timestamp_now h =
     unless_panic (u64_add timestamp_now FUTURE_TIME_TOLERANCE) (\<lambda>latest.
       if h_timestamp h > latest
       then Err (InvalidFutureTimestamp (OutOfBounds None (Some latest) (h_timestamp h)))
       else Ok ())"

subsection \<open>Validators against the parent\<close>

definition number_validate :: "header \<Rightarrow> header \<Rightarrow> unit checked" where
  "number_validate h parent =
     unless_panic (u64_add (h_number parent) 1) (\<lambda>next.
       if h_number h \<noteq> next then Err (InvalidNumber (Mismatch next (h_number h))) else Ok ())"

definition timestamp_validate :: "header \<Rightarrow> header \<Rightarrow> unit checked" where
  "timestamp_validate h parent =
     (if h_timestamp h \<le> h_timestamp parent
      then Err (InvalidTimestamp (OutOfBounds (Some (h_timestamp parent)) None (h_timestamp h)))
      else Ok ())"

definition seal_type_validate :: "header \<Rightarrow> header \<Rightarrow> unit checked" where
  "seal_type_validate h parent =
     (if h_seal_type h = h_seal_type parent then Err InvalidSealType else Ok ())"

definition difficulty_validate :: "(bytes \<Rightarrow> bytes) \<Rightarrow> (bytes \<Rightarrow> nat option) \<Rightarrow> difficulty_calc \<Rightarrow>
    header \<Rightarrow> header \<Rightarrow> header option \<Rightarrow> header option \<Rightarrow> unit checked" where
  "difficulty_validate blake2b total_stake calc h parent grand_parent great_grand_parent =
     (if h_number h = 0 then Panic
      else unless_panic (calculate_difficulty blake2b total_stake calc parent grand_parent great_grand_parent)
        (\<lambda>calc_difficulty.
          if h_difficulty h \<noteq> calc_difficulty
          then Err (InvalidDifficulty (Mismatch calc_difficulty (h_difficulty h)))
          else Ok ()))"

text \<open>\<open>trie_root\<close> is \<^verbatim>\<open>ordered_trie_root\<close> and \<open>txs\<close> the RLP bytes of the transactions.\<close>

definition tx_root_validate :: "(bytes list \<Rightarrow> bytes) \<Rightarrow> bytes list \<Rightarrow> header \<Rightarrow> unit checked" where
  "tx_root_validate trie_root txs h =
     (if trie_root txs \<noteq> h_transactions_root h
      then Err (InvalidTransactionsRoot (Mismatch (trie_root txs) (h_transactions_root h)))
      else Ok ())"

subsection \<open>The proof-of-stake seal\<close>

definition validate_seed :: "(bytes \<Rightarrow> bytes) \<Rightarrow> (bytes \<Rightarrow> bytes) \<Rightarrow> (bytes \<Rightarrow> bytes \<Rightarrow> bytes \<Rightarrow> bool) \<Rightarrow>
    bool \<Rightarrow> bytes \<Rightarrow> bytes \<Rightarrow> bytes \<Rightarrow> header \<Rightarrow> bool" where
  "validate_seed blake2b pk_address verify unity_hybrid_seed_update seed grand_parent_seed pk parent =
     (if unity_hybrid_seed_update then
        if length (h_seal parent) \<noteq> 2 then False
        else let hybrid_seed = grand_parent_seed @ pk_address pk @ mine_hash blake2b parent @ h_seal parent ! 0;
                 hybrid_left = hybrid_seed @ [0];
                 hybrid_right = hybrid_seed @ [1];
                 new_seed = blake2b hybrid_left @ blake2b hybrid_right
             in seed = new_seed
      else verify grand_parent_seed pk seed)"

text \<open>\<open>verify\<close> is \<^verbatim>\<open>ed25519::verify(message, public_key, signature)\<close>.\<close>

definition pos_validate :: "(bytes \<Rightarrow> bytes) \<Rightarrow> (bytes \<Rightarrow> bytes) \<Rightarrow> (bytes \<Rightarrow> bytes \<Rightarrow> bytes \<Rightarrow> bool) \<Rightarrow>
    header \<Rightarrow> header \<Rightarrow> header option \<Rightarrow> nat option \<Rightarrow> bool \<Rightarrow> unit checked" where
  "pos_validate blake2b pk_address verify h parent grand_parent stake_opt unity_hybrid_seed_update =
     (if h_seal_type h \<noteq> Some PoS then Err InvalidPoSSealType
      else let stake = (case stake_opt of None \<Rightarrow> 0 | Some x \<Rightarrow> x) in
        if stake = 0 then Err NullStake
        else if length (h_seal h) \<noteq> 3 then Err (InvalidSealArity (Mismatch 3 (length (h_seal h))))
        else let seed = h_seal h ! 0; signature = h_seal h ! 1; pk = h_seal h ! 2 in
          unless_panic
            (case grand_parent of
               None \<Rightarrow> Some (replicate 64 0)
             | Some g \<Rightarrow>
                 if h_seal_type g = Some PoS
                 then (case h_seal g of [] \<Rightarrow> None | s # _ \<Rightarrow> Some s)
                 else Some (replicate 64 0))
            (\<lambda>parent_seed.
              if \<not> validate_seed blake2b pk_address verify unity_hybrid_seed_update seed parent_seed pk parent
              then Err InvalidPoSSeed
              else if \<not> verify (mine_hash blake2b h) pk signature then Err InvalidPoSSignature
              else unless_panic (calculate_delta blake2b (h_difficulty h) seed stake) (\<lambda>delta_uint.
                unless_panic (u64_sub (h_timestamp h) (h_timestamp parent)) (\<lambda>passed.
                  if passed \<noteq> delta_uint
                  then Err (InvalidPoSTimestamp (h_timestamp h) (h_timestamp parent) delta_uint)
                  else Ok ()))))"

subsection \<open>Engine operations\<close>

record unity_engine =
  ue_difficulty_calc :: difficulty_calc
  ue_rewards_calculator :: rewards_calculator
  ue_unity_update :: "nat option"
  ue_unity_hybrid_seed_update :: "nat option"

definition unity_engine_new :: "unity_params \<Rightarrow> nat option \<Rightarrow> nat option \<Rightarrow> nat option \<Rightarrow> nat \<Rightarrow>
    unity_engine option" where
  "unity_engine_new params monetary_policy_update unity_update unity_hybrid_seed_update premine = do {
     rewards \<leftarrow> rewards_calculator_new params monetary_policy_update unity_update premine;
     Some \<lparr>ue_difficulty_calc = difficulty_calc_new params unity_update unity_hybrid_seed_update,
           ue_rewards_calculator = rewards, ue_unity_update = unity_update,
           ue_unity_hybrid_seed_update = unity_hybrid_seed_update\<rparr>
   }"

definition validate_block_header :: "nat \<Rightarrow> header \<Rightarrow> unit checked" where
  "validate_block_header timestamp_now h = run_validators [future_timestamp_validate timestamp_now h]"

definition validate_block_body :: "(bytes list \<Rightarrow> bytes) \<Rightarrow> header \<Rightarrow> bytes list \<Rightarrow> unit checked" where
  "validate_block_body trie_root h txs = run_validators [tx_root_validate trie_root txs h]"

definition seal_fields :: "header \<Rightarrow> nat" where
  "seal_fields h = (case h_seal_type h of Some PoS \<Rightarrow> 3 | _ \<Rightarrow> 2)"

definition engine_verify_block_basic :: "(bytes \<Rightarrow> bytes) \<Rightarrow> header \<Rightarrow> unit checked" where
  "engine_verify_block_basic blake2b h =
     run_validators ([energy_consumed_validate h] @
       (if h_seal_type h = Some PoW then [pow_validate blake2b h] else []))"

definition engine_verify_block_unordered :: "(bytes \<Rightarrow> bytes) \<Rightarrow> (bytes \<Rightarrow> bytes \<Rightarrow> bytes \<Rightarrow> bool) \<Rightarrow> header \<Rightarrow>
    unit checked" where
  "engine_verify_block_unordered blake2b is_valid_solution h =
     run_validators
       (if h_seal_type h = Some PoW then [equihash_solution_validate blake2b is_valid_solution h] else [])"

definition verify_local_seal_pow :: "(bytes \<Rightarrow> bytes) \<Rightarrow> (bytes \<Rightarrow> bytes \<Rightarrow> bytes \<Rightarrow> bool) \<Rightarrow> header \<Rightarrow>
    unit checked" where
  "verify_local_seal_pow blake2b is_valid_solution h =
     try_ok (engine_verify_block_basic blake2b h)
       (\<lambda>_. engine_verify_block_unordered blake2b is_valid_solution h)"

definition verify_seal_pos :: "(bytes \<Rightarrow> bytes) \<Rightarrow> (bytes \<Rightarrow> bytes) \<Rightarrow> (bytes \<Rightarrow> bytes \<Rightarrow> bytes \<Rightarrow> bool) \<Rightarrow>
    unity_engine \<Rightarrow> header \<Rightarrow> header \<Rightarrow> header option \<Rightarrow> nat option \<Rightarrow> unit checked" where
  "verify_seal_pos blake2b pk_address verify self h parent grand_parent stake =
     (if (case ue_unity_update self of None \<Rightarrow> True | Some fork_number \<Rightarrow> h_number h \<le> fork_number)
      then Err InvalidPoSBlockNumber
      else let hybrid = (case ue_unity_hybrid_seed_update self of
                           None \<Rightarrow> False | Some fork_number \<Rightarrow> h_number h > fork_number)
           in try_ok (pos_validate blake2b pk_address verify h parent grand_parent stake hybrid)
                (\<lambda>_. Ok ()))"

definition engine_verify_block_family :: "(bytes \<Rightarrow> bytes) \<Rightarrow> (bytes \<Rightarrow> nat option) \<Rightarrow> unity_engine \<Rightarrow>
    header \<Rightarrow> header \<Rightarrow> header option \<Rightarrow> header option \<Rightarrow> unit checked" where
  "engine_verify_block_family blake2b total_stake self h parent grand_parent great_grand_parent =
     try_ok
       (run_validators ([number_validate h parent, timestamp_validate h parent] @
         (if (case ue_unity_update self of None \<Rightarrow> False | Some fork_number \<Rightarrow> h_number h > fork_number)
          then [seal_type_validate h parent] else [])))
       (\<lambda>_. run_validators
         [difficulty_validate blake2b total_stake (ue_difficulty_calc self) h parent grand_parent
           great_grand_parent])"

definition set_difficulty_from_parent :: "(bytes \<Rightarrow> bytes) \<Rightarrow> (bytes \<Rightarrow> nat option) \<Rightarrow> unity_engine \<Rightarrow>
    header \<Rightarrow> header \<Rightarrow> header option \<Rightarrow> header option \<Rightarrow> header option" where
  "set_difficulty_from_parent blake2b total_stake self h parent grand_parent great_grand_parent =
     (if h_number h = 0 then None
      else do {
        d \<leftarrow> calculate_difficulty blake2b total_stake (ue_difficulty_calc self) parent grand_parent
          great_grand_parent;
        Some (set_difficulty d h)
      })"

subsection \<open>Verification of a block\<close>

record machine_params =
  mp_gas_limit_bound_divisor :: nat
  mp_min_gas_limit :: nat
  mp_maximum_extra_data_size :: nat

definition verify_header_params :: "machine_params \<Rightarrow> header \<Rightarrow> unit checked" where
  "verify_header_params p h =
     (if length (h_seal h) \<noteq> seal_fields h
      then Err (InvalidSealArity (Mismatch (seal_fields h) (length (h_seal h))))
      else if h_number h \<ge> 2 ^ 64 - 1
      then Err (RidiculousNumber (OutOfBounds None (Some (2 ^ 64 - 1)) (h_number h)))
      else if h_gas_used h > h_gas_limit h
      then Err (TooMuchGasUsed (OutOfBounds None (Some (h_gas_limit h)) (h_gas_used h)))
      else if h_gas_limit h < mp_min_gas_limit p
      then Err (InvalidGasLimit (OutOfBounds (Some (mp_min_gas_limit p)) None (h_gas_limit h)))
      else if h_number h \<noteq> 0 \<and> length (h_extra_data h) > mp_maximum_extra_data_size p
      then Err (ExtraDataOutOfBounds
        (OutOfBounds None (Some (mp_maximum_extra_data_size p)) (length (h_extra_data h))))
      else Ok ())"

definition verify_parent :: "(bytes \<Rightarrow> bytes) \<Rightarrow> header \<Rightarrow> header \<Rightarrow> nat \<Rightarrow> unit checked" where
  "verify_parent blake2b h parent gas_limit_divisor =
     try_ok
       (if h_parent_hash h = replicate 32 0 then Ok ()
        else unless_panic (header_hash blake2b parent) (\<lambda>(_, hash).
          if hash \<noteq> h_parent_hash h then Err (InvalidParentHash (Mismatch hash (h_parent_hash h))) else Ok ()))
       (\<lambda>_.
         if h_timestamp h \<le> h_timestamp parent
         then unless_panic (u64_add (h_timestamp parent) 1) (\<lambda>t.
           Err (InvalidTimestamp (OutOfBounds (Some t) None (h_timestamp h))))
         else unless_panic (u64_add (h_number parent) 1) (\<lambda>next.
           if h_number h \<noteq> next then Err (InvalidNumber (Mismatch next (h_number h)))
           else if h_number h = 0 then Err (RidiculousNumber (OutOfBounds (Some 1) None (h_number h)))
           else let parent_gas_limit = h_gas_limit parent in
             unless_panic (checked_div parent_gas_limit gas_limit_divisor) (\<lambda>step.
             unless_panic (u256_sub parent_gas_limit step) (\<lambda>min_gas.
             unless_panic (u256_add parent_gas_limit step) (\<lambda>max_gas.
               if h_gas_limit h < min_gas \<or> h_gas_limit h > max_gas
               then Err (InvalidGasLimit (OutOfBounds (Some min_gas) (Some max_gas) (h_gas_limit h)))
               else Ok ())))))"

definition verify_block_final :: "header \<Rightarrow> header \<Rightarrow> unit checked" where
  "verify_block_final expctd got =
     (if h_gas_used expctd \<noteq> h_gas_used got
      then Err (InvalidGasUsed (Mismatch (h_gas_used expctd) (h_gas_used got)))
      else if h_log_bloom expctd \<noteq> h_log_bloom got
      then Err (InvalidLogBloom (Mismatch (h_log_bloom expctd) (h_log_bloom got)))
      else if h_state_root expctd \<noteq> h_state_root got
      then Err (InvalidStateRoot (Mismatch (h_state_root expctd) (h_state_root got)))
      else if h_receipts_root expctd \<noteq> h_receipts_root got
      then Err (InvalidReceiptsRoot (Mismatch (h_receipts_root expctd) (h_receipts_root got)))
      else Ok ())"

subsection \<open>What the checks accept\<close>

lemma run_validators_Ok: "run_validators vs = Ok () \<longleftrightarrow> (\<forall>v \<in> set vs. v = Ok ())"
  by (induction vs) (auto simp: try_ok_eq_Ok_iff)

lemma unless_panic_Ok: "unless_panic m k = Ok a \<longleftrightarrow> (\<exists>x. m = Some x \<and> k x = Ok a)"
  by (auto simp: unless_panic_def split: option.splits)

lemmas accept_simps = run_validators_Ok unless_panic_Ok try_ok_eq_Ok_iff u64_add_def u64_sub_def

definition after_unity :: "unity_engine \<Rightarrow> nat \<Rightarrow> bool" where
  "after_unity engine n \<longleftrightarrow> (case ue_unity_update engine of None \<Rightarrow> False | Some fork_number \<Rightarrow> fork_number < n)"

lemma engine_verify_block_family_Ok:
  "engine_verify_block_family blake2b total_stake engine h parent gp ggp = Ok () \<longleftrightarrow>
     h_number parent + 1 < 2 ^ 64 \<and> h_number h = h_number parent + 1 \<and> h_timestamp parent < h_timestamp h \<and>
     (after_unity engine (h_number h) \<longrightarrow> h_seal_type h \<noteq> h_seal_type parent) \<and>
     calculate_difficulty blake2b total_stake (ue_difficulty_calc engine) parent gp ggp = Some (h_difficulty h)"
  by (auto simp: engine_verify_block_family_def number_validate_def timestamp_validate_def seal_type_validate_def
      difficulty_validate_def after_unity_def accept_simps split: if_splits)

text \<open>
  The chains the engine accepts, newest header first: a genesis header, extended by headers that pass
  the family check against the one, two and three preceding headers, as far as they exist.
\<close>

definition nth_opt :: "'a list \<Rightarrow> nat \<Rightarrow> 'a option" where
  "nth_opt xs i = (if i < length xs then Some (xs ! i) else None)"

inductive accepted_chain :: "(bytes \<Rightarrow> bytes) \<Rightarrow> (bytes \<Rightarrow> nat option) \<Rightarrow> unity_engine \<Rightarrow> header list \<Rightarrow> bool"
  for blake2b total_stake engine where
  genesis: "h_number g = 0 \<Longrightarrow> h_timestamp g < 2 ^ 64 \<Longrightarrow> accepted_chain blake2b total_stake engine [g]"
| extend: "accepted_chain blake2b total_stake engine (p # hs) \<Longrightarrow> h_timestamp h < 2 ^ 64 \<Longrightarrow>
    engine_verify_block_family blake2b total_stake engine h p (nth_opt hs 0) (nth_opt hs 1) = Ok () \<Longrightarrow>
    accepted_chain blake2b total_stake engine (h # p # hs)"

inductive_cases accepted_chain_ConsE: "accepted_chain blake2b total_stake engine (h # hs)"

lemma accepted_chain_shape:
  assumes "accepted_chain blake2b total_stake engine hs"
  shows "hs \<noteq> [] \<and> h_number (hd hs) = length hs - 1 \<and> h_timestamp (hd hs) < 2 ^ 64 \<and>
    (\<forall>i. Suc i < length hs \<longrightarrow> h_number (hs ! i) = Suc (h_number (hs ! Suc i)) \<and>
       h_timestamp (hs ! Suc i) < h_timestamp (hs ! i) \<and>
       (after_unity engine (h_number (hs ! i)) \<longrightarrow> h_seal_type (hs ! i) \<noteq> h_seal_type (hs ! Suc i)))"
  using assms
proof induction
  case (extend p hs h)
  have step: "h_number h = Suc (h_number p) \<and> h_timestamp p < h_timestamp h \<and>
      (after_unity engine (h_number h) \<longrightarrow> h_seal_type h \<noteq> h_seal_type p)"
    using extend.hyps(3) by (simp add: engine_verify_block_family_Ok)
  have "h_number ((h # p # hs) ! i) = Suc (h_number ((h # p # hs) ! Suc i)) \<and>
       h_timestamp ((h # p # hs) ! Suc i) < h_timestamp ((h # p # hs) ! i) \<and>
       (after_unity engine (h_number ((h # p # hs) ! i)) \<longrightarrow>
         h_seal_type ((h # p # hs) ! i) \<noteq> h_seal_type ((h # p # hs) ! Suc i))"
    if "Suc i < length (h # p # hs)" for i
    using step extend.IH that by (cases i) auto
  then show ?case using extend.IH extend.hyps(2) step by simp
qed simp

text \<open>
  On an accepted chain the difficulty of the next header can be computed: the subtractions of
  timestamps, the assertion that they differ and the expected grand parent are all fine. What is left
  to assume is the size of the numbers.
\<close>

lemma accepted_chain_difficulty:
  assumes chain: "accepted_chain blake2b total_stake engine (p # hs)"
    and calc: "ue_difficulty_calc engine = difficulty_calc_new params (ue_unity_update engine) hybrid"
    and pos: "0 < difficulty_bound_divisor params"
    and small: "\<And>h. h \<in> set (p # hs) \<Longrightarrow> h_difficulty h < 2 ^ 200"
    and hash: "header_hash blake2b p \<noteq> None" and stake: "\<And>x s. total_stake x = Some s \<Longrightarrow> s * 10 < 2 ^ 256"
  shows "calculate_difficulty blake2b total_stake (ue_difficulty_calc engine) p (nth_opt hs 0) (nth_opt hs 1) \<noteq> None"
proof -
  note shape = accepted_chain_shape [OF chain]
  have initial: "initial_pos_difficulty blake2b total_stake self p \<noteq> None" for self
    using hash stake by (auto simp: initial_pos_difficulty_def u256_mul_def Let_def split: option.splits)
  have len: "h_number p = length hs" and time: "h_timestamp p < 2 ^ 64" using shape by simp_all
  show ?thesis
  proof (cases hs)
    case Nil
    then show ?thesis using initial len
      by (auto simp: calculate_difficulty_def nth_opt_def calc difficulty_calc_new_def split: option.splits)
  next
    case (Cons g gs)
    have older: "h_timestamp g < h_timestamp p" using shape Cons by (auto dest!: spec [of _ 0])
    have v1: "calculate_difficulty_v1 (ue_difficulty_calc engine) p g \<noteq> None"
      using older time pos small [of p] by (intro calculate_difficulty_v1_defined) (simp_all add: calc difficulty_calc_new_def)
    have v2: "calculate_difficulty_v2 (ue_difficulty_calc engine) g gg \<noteq> None" if "nth_opt hs 1 = Some gg" for gg
    proof -
      have "1 < length hs" "gg = hs ! 1" using that by (simp_all add: nth_opt_def split: if_splits)
      then have "h_timestamp gg < h_timestamp g" using shape Cons by (auto dest!: spec [of _ 1])
      moreover have "h_difficulty g < 2 ^ 255" using small [of g] Cons by simp
      ultimately show ?thesis by (simp add: calculate_difficulty_v2_cases Let_def)
    qed
    have "nth_opt hs 0 = Some g" using Cons by (simp add: nth_opt_def)
    then show ?thesis using initial v1 v2
      by (auto simp: calculate_difficulty_def split: option.splits)
  qed
qed

subsection \<open>The proof-of-stake seal\<close>

lemma pos_validate_Ok:
  "pos_validate blake2b pk_address verify h parent grand_parent stake_opt hybrid = Ok () \<longleftrightarrow>
     h_seal_type h = Some PoS \<and>
     (\<exists>stake seed signature pk parent_seed.
        stake_opt = Some stake \<and> 0 < stake \<and> h_seal h = [seed, signature, pk] \<and>
        (case grand_parent of
           None \<Rightarrow> parent_seed = replicate 64 0
         | Some g \<Rightarrow> if h_seal_type g = Some PoS then h_seal g \<noteq> [] \<and> parent_seed = hd (h_seal g)
                     else parent_seed = replicate 64 0) \<and>
        validate_seed blake2b pk_address verify hybrid seed parent_seed pk parent \<and>
        verify (mine_hash blake2b h) pk signature \<and>
        h_timestamp parent \<le> h_timestamp h \<and>
        calculate_delta blake2b (h_difficulty h) seed stake = Some (h_timestamp h - h_timestamp parent))"
proof -
  have three: "length xs = 3 \<longleftrightarrow> (\<exists>a b c. xs = [a, b, c])" for xs :: "bytes list"
    by (auto simp: length_Suc_conv numeral_3_eq_3)
  show ?thesis
    unfolding pos_validate_def Let_def
    by (auto simp: accept_simps three split: option.splits if_splits list.splits)
qed

subsection \<open>Properties\<close>

text \<open>
  C13 (the shape of an accepted chain). In every chain of headers the engine accepts, numbers go up by
  one from zero, timestamps strictly increase, and after the Unity fork neighbouring blocks have
  different seal types.
\<close>

theorem accepted_chain_invariant:
  assumes "accepted_chain blake2b total_stake engine hs" and "Suc i < length hs"
  shows "h_number (hs ! i) = Suc (h_number (hs ! Suc i)) \<and> h_timestamp (hs ! Suc i) < h_timestamp (hs ! i) \<and>
    (after_unity engine (h_number (hs ! i)) \<longrightarrow> h_seal_type (hs ! i) \<noteq> h_seal_type (hs ! Suc i))"
  using accepted_chain_shape [OF assms(1)] assms(2) by blast

definition pre_unity_engine :: unity_engine where
  "pre_unity_engine = \<lparr>ue_difficulty_calc = difficulty_calc_new unity_params_default None None,
     ue_rewards_calculator = \<lparr>rc_params = unity_params_default, rc_monetary_policy_update = None,
       rc_unity_update = None, rc_m = 0, rc_current_term = 0, rc_current_reward = 0,
       rc_compound_lookup_table = []\<rparr>,
     ue_unity_update = None, ue_unity_hybrid_seed_update = None\<rparr>"

lemma genesis_chain: "accepted_chain (\<lambda>b. b) (\<lambda>_. None) pre_unity_engine [header_default]"
  by (rule accepted_chain.genesis) (simp_all add: header_default_def)

theorem accepted_chain_invariant_witness:
  "accepted_chain (\<lambda>b. b) (\<lambda>_. None) pre_unity_engine
     [header_default\<lparr>h_number := 1, h_timestamp := 9\<rparr>, header_default] \<and>
   h_timestamp header_default < h_timestamp (header_default\<lparr>h_number := 1, h_timestamp := 9\<rparr>)"
proof -
  have "accepted_chain (\<lambda>b. b) (\<lambda>_. None) pre_unity_engine
     [header_default\<lparr>h_number := 1, h_timestamp := 9\<rparr>, header_default]"
    by (rule accepted_chain.extend [OF genesis_chain])
       (simp_all add: engine_verify_block_family_Ok after_unity_def pre_unity_engine_def header_default_def
          calculate_difficulty_def difficulty_calc_new_def nth_opt_def)
  then show ?thesis using accepted_chain_invariant [of _ _ _ _ 0] by fastforce
qed




end
