(* ===== verification/Beacon.thy ===== *)
theory Beacon
  imports Engine_Validators
begin

text \<open>
  The check of the transactions' beacon hashes, \<^verbatim>\<open>beacon_check\<close> of \<^verbatim>\<open>src/core/src/verification/mod.rs\<close>: after the
  Unity fork a transaction may name a block that has to be an ancestor of the block it is in. The
  chain is two lookups: \<open>beacon_list\<close>, the number of a block of the canonical chain, and
  \<open>block_details\<close>, number and parent of any stored block. The lemmas show that the two walks up the
  branch decide ancestry on a well-formed store, and where the check as a whole does not.
\<close>

subsection \<open>The check\<close>

type_synonym beacon_list = "bytes \<Rightarrow> nat option"
type_synonym details_lookup = "bytes \<Rightarrow> (nat \<times> bytes) option"

text \<open>The two inner loops; the block number goes down with the parent, below zero it panics.\<close>

fun canon_walk :: "beacon_list \<Rightarrow> details_lookup \<Rightarrow> nat \<Rightarrow> bytes \<Rightarrow> bytes \<Rightarrow> nat \<Rightarrow> unit checked" where
  "canon_walk canon details beacon_num hash parent_hash block_num =
     (if canon parent_hash \<noteq> None then Ok ()
      else if block_num = beacon_num then Err (InvalidBeaconHash hash)
      else (case details parent_hash of
              None \<Rightarrow> Err IncompleteBranch
            | Some (_, parent) \<Rightarrow>
                (case block_num of
                   0 \<Rightarrow> Panic
                 | Suc n \<Rightarrow> canon_walk canon details beacon_num hash parent n)))"

fun branch_walk :: "beacon_list \<Rightarrow> details_lookup \<Rightarrow> nat \<Rightarrow> bytes \<Rightarrow> bytes \<Rightarrow> nat \<Rightarrow> unit checked" where
  "branch_walk canon details beacon_num hash parent_hash block_num =
     (if parent_hash = hash then Ok ()
      else if beacon_num = block_num \<or> canon parent_hash \<noteq> None then Err (InvalidBeaconHash hash)
      else (case details parent_hash of
              None \<Rightarrow> Err IncompleteBranch
            | Some (_, parent) \<Rightarrow>
                (case block_num of
                   0 \<Rightarrow> Panic
                 | Suc n \<Rightarrow> branch_walk canon details beacon_num hash parent n)))"

declare canon_walk.simps [simp del] branch_walk.simps [simp del]

text \<open>
  One transaction when the parent is not canonical. \<open>Ok False\<close> is the \<^verbatim>\<open>break\<close> that leaves the loop over the
  transactions, \<open>Ok True\<close> goes on with the next one.
\<close>

definition beacon_on_branch :: "beacon_list \<Rightarrow> details_lookup \<Rightarrow> bytes \<Rightarrow> nat \<Rightarrow> bytes \<Rightarrow> bytes \<Rightarrow> bool checked"
  where
  "beacon_on_branch canon details parent_hash parent_number grand_parent_hash hash =
     (case canon hash of
        Some beacon_num \<Rightarrow>
          if canon parent_hash \<noteq> None then Ok True
          else if parent_number = beacon_num then Err (InvalidBeaconHash hash)
          else (case parent_number of
                  0 \<Rightarrow> Panic
                | Suc n \<Rightarrow> map_ok (\<lambda>_. True) (canon_walk canon details beacon_num hash grand_parent_hash n))
      | None \<Rightarrow>
          (case details hash of
             None \<Rightarrow> Err (InvalidBeaconHash hash)
           | Some (beacon_num, _) \<Rightarrow>
               if parent_hash = hash then Ok False
               else if beacon_num = parent_number \<or> canon parent_hash \<noteq> None then Err (InvalidBeaconHash hash)
               else (case parent_number of
                       0 \<Rightarrow> Panic
                     | Suc n \<Rightarrow>
                         map_ok (\<lambda>_. True) (branch_walk canon details beacon_num hash grand_parent_hash n))))"

definition beacon_on_canon :: "beacon_list \<Rightarrow> bytes \<Rightarrow> bool checked" where
  "beacon_on_canon canon hash = (if canon hash = None then Err (InvalidBeaconHash hash) else Ok True)"

fun beacon_loop :: "(bytes \<Rightarrow> bool checked) \<Rightarrow> bytes option list \<Rightarrow> unit checked" where
  "beacon_loop check [] = Ok ()"
| "beacon_loop check (tx # txs) =
     (case tx of
        None \<Rightarrow> beacon_loop check txs
      | Some hash \<Rightarrow> try_ok (check hash) (\<lambda>go_on. if go_on then beacon_loop check txs else Ok ()))"

definition beacon_check :: "nat option \<Rightarrow> beacon_list \<Rightarrow> details_lookup \<Rightarrow> header \<Rightarrow> header \<Rightarrow>
    bytes option list \<Rightarrow> unit checked" where
  "beacon_check unity_update canon details h parent txs =
     (if (case unity_update of Some update_num \<Rightarrow> h_number h > update_num | None \<Rightarrow> False) then
        let parent_hash = h_parent_hash h in
        (case canon parent_hash of
           Some _ \<Rightarrow> beacon_loop (beacon_on_canon canon) txs
         | None \<Rightarrow> beacon_loop
             (beacon_on_branch canon details parent_hash (h_number parent) (h_parent_hash parent)) txs)
      else if list_all (\<lambda>tx. tx = None) txs then Ok () else Err BeaconHashBanned)"

definition verify_block_family :: "(bytes \<Rightarrow> bytes) \<Rightarrow> (bytes \<Rightarrow> nat option) \<Rightarrow> unity_engine \<Rightarrow>
    machine_params \<Rightarrow> header \<Rightarrow> header \<Rightarrow> header option \<Rightarrow> header option \<Rightarrow>
    (beacon_list \<times> details_lookup \<times> bytes option list) option \<Rightarrow> unit checked" where
  "verify_block_family blake2b total_stake engine p h parent grand_parent great_grand_parent do_full =
     try_ok (verify_parent blake2b h parent (mp_gas_limit_bound_divisor p)) (\<lambda>_.
       (case do_full of
          None \<Rightarrow> Ok ()
        | Some (canon, details, txs) \<Rightarrow>
            try_ok (engine_verify_block_family blake2b total_stake engine h parent grand_parent
                      great_grand_parent) (\<lambda>_.
            beacon_check (ue_unity_update engine) canon details h parent txs)))"

subsection \<open>Ancestry in a well-formed store\<close>

inductive ancestor :: "details_lookup \<Rightarrow> bytes \<Rightarrow> bytes \<Rightarrow> bool" for details where
  self: "ancestor details h h"
| up: "details h = Some (Suc n, p) \<Longrightarrow> ancestor details p a \<Longrightarrow> ancestor details h a"

inductive_cases ancestorE: "ancestor details h a"

text \<open>
  What the store promises: the parent of a stored block is stored with the preceding number; the
  canonical blocks are stored, closed under parents and one per number, and contain the genesis.
\<close>

definition well_formed_store :: "beacon_list \<Rightarrow> details_lookup \<Rightarrow> bool" where
  "well_formed_store canon details \<longleftrightarrow>
     (\<forall>h n p. details h = Some (Suc n, p) \<longrightarrow> (\<exists>q. details p = Some (n, q))) \<and>
     (\<forall>h n. canon h = Some n \<longrightarrow> (\<exists>p. details h = Some (n, p))) \<and>
     (\<forall>h n p. canon h = Some (Suc n) \<longrightarrow> details h = Some (Suc n, p) \<longrightarrow> canon p = Some n) \<and>
     (\<forall>h h' n. canon h = Some n \<longrightarrow> canon h' = Some n \<longrightarrow> h = h') \<and>
     (\<forall>h p. details h = Some (0, p) \<longrightarrow> canon h \<noteq> None)"

lemma well_formed_storeD:
  assumes "well_formed_store canon details"
  shows parent_stored: "details h = Some (Suc n, p) \<Longrightarrow> \<exists>q. details p = Some (n, q)"
    and canon_stored: "canon h = Some m \<Longrightarrow> \<exists>p. details h = Some (m, p)"
    and canon_parent: "canon h = Some (Suc n) \<Longrightarrow> details h = Some (Suc n, p) \<Longrightarrow> canon p = Some n"
    and canon_unique: "canon h = Some m \<Longrightarrow> canon h' = Some m \<Longrightarrow> h = h'"
    and genesis_canon: "details h = Some (0, p) \<Longrightarrow> canon h \<noteq> None"
  using assms unfolding well_formed_store_def by blast+

lemma ancestor_number:
  assumes wf: "well_formed_store canon details" and "ancestor details h a" and "details h = Some (n, p)"
  shows "h = a \<or> (\<exists>m q. details a = Some (m, q) \<and> m < n)"
  using assms(2,3)
proof (induction arbitrary: n p rule: ancestor.induct)
  case (up h k p' a)
  obtain q where q: "details p' = Some (k, q)" using parent_stored [OF wf up.hyps(1)] by blast
  from up.IH [OF q] show ?case using q up.hyps(1) up.prems by auto
qed simp

lemma ancestor_of_canon:
  assumes wf: "well_formed_store canon details" and "ancestor details h a" and "canon h \<noteq> None"
  shows "canon a \<noteq> None"
  using assms(2,3)
proof (induction rule: ancestor.induct)
  case (up h n p a)
  then obtain m where m: "canon h = Some m" by auto
  then have "m = Suc n" using canon_stored [OF wf m] up.hyps(1) by auto
  then have "canon p = Some n" using canon_parent [OF wf] up.hyps(1) m by blast
  then show ?case using up.IH by simp
qed simp

lemma canon_ancestor:
  assumes wf: "well_formed_store canon details" and "canon h = Some n" and "canon a = Some m" and "m \<le> n"
  shows "ancestor details h a"
  using assms(2-)
proof (induction n arbitrary: h)
  case 0
  then show ?case using canon_unique [OF wf, of h 0 a] by (simp add: ancestor.self)
next
  case (Suc n)
  show ?case
  proof (cases "m = Suc n")
    case True
    then show ?thesis using canon_unique [OF wf Suc.prems(1)] Suc.prems(2) by (simp add: ancestor.self)
  next
    case False
    obtain p where p: "details h = Some (Suc n, p)" using canon_stored [OF wf Suc.prems(1)] by blast
    have "canon p = Some n" using canon_parent [OF wf Suc.prems(1) p] .
    then have "ancestor details p a" using Suc.IH Suc.prems(2,3) False by simp
    with p show ?thesis by (rule ancestor.up)
  qed
qed

lemma canon_walk_decides:
  assumes wf: "well_formed_store canon details" and "details ph = Some (n, p)" and "canon b = Some m" and "m \<le> n"
  shows "canon_walk canon details m b ph n = (if ancestor details ph b then Ok () else Err (InvalidBeaconHash b))"
  using assms(2-)
proof (induction n arbitrary: ph p)
  case 0
  then obtain k where "canon ph = Some k" using genesis_canon [OF wf] by blast
  moreover from this have "k = 0" using canon_stored [OF wf] 0 by force
  ultimately show ?case using canon_ancestor [OF wf] 0 by (subst canon_walk.simps) simp
next
  case (Suc n)
  obtain q where q: "details p = Some (n, q)" using parent_stored [OF wf Suc.prems(1)] by blast
  show ?case
  proof (cases "canon ph")
    case (Some k)
    then have "k = Suc n" using canon_stored [OF wf] Suc.prems(1) by force
    then show ?thesis using Some Suc.prems canon_ancestor [OF wf] by (subst canon_walk.simps) simp
  next
    case None
    then have neq: "ph \<noteq> b" using Suc.prems(2) by auto
    have b: "\<exists>r. details b = Some (m, r)" using canon_stored [OF wf] Suc.prems(2) by blast
    show ?thesis
    proof (cases "m = Suc n")
      case True
      then have "\<not> ancestor details ph b" using ancestor_number [OF wf _ Suc.prems(1)] neq b by force
      then show ?thesis using None True by (subst canon_walk.simps) simp
    next
      case False
      have "ancestor details ph b \<longleftrightarrow> ancestor details p b"
        using neq Suc.prems(1) by (auto intro: ancestor.up elim: ancestorE)
      then show ?thesis using None False Suc.IH [OF q] Suc.prems by (subst canon_walk.simps) simp
    qed
  qed
qed

lemma branch_walk_decides:
  assumes wf: "well_formed_store canon details" and "details ph = Some (n, p)" and "canon b = None" and "details b = Some (m, q)" and "m \<le> n"
  shows "branch_walk canon details m b ph n = (if ancestor details ph b then Ok () else Err (InvalidBeaconHash b))"
  using assms(2-)
proof (induction n arbitrary: ph p)
  case 0
  then have "canon ph \<noteq> None" using genesis_canon [OF wf] by blast
  then have "\<not> ancestor details ph b" using ancestor_of_canon [OF wf] 0 by blast
  then show ?case using \<open>canon ph \<noteq> None\<close> 0 ancestor.self by (subst branch_walk.simps) auto
next
  case (Suc n)
  obtain q' where q': "details p = Some (n, q')" using parent_stored [OF wf Suc.prems(1)] by blast
  consider "ph = b" | "ph \<noteq> b" "canon ph \<noteq> None" | "ph \<noteq> b" "canon ph = None" "m = Suc n"
    | "ph \<noteq> b" "canon ph = None" "m \<noteq> Suc n" by blast
  then show ?case
  proof cases
    case 2
    then have "\<not> ancestor details ph b" using ancestor_of_canon [OF wf] Suc.prems(2) by blast
    then show ?thesis using 2 by (subst branch_walk.simps) auto
  next
    case 3
    then have "\<not> ancestor details ph b" using ancestor_number [OF wf _ Suc.prems(1)] Suc.prems(3) by force
    then show ?thesis using 3 by (subst branch_walk.simps) simp
  next
    case 4
    then have "ancestor details ph b \<longleftrightarrow> ancestor details p b"
      using Suc.prems(1) by (auto intro: ancestor.up elim: ancestorE)
    then show ?thesis using 4 Suc.IH [OF q'] Suc.prems by (subst branch_walk.simps) simp
  qed (subst branch_walk.simps, simp add: ancestor.self)
qed

subsection \<open>The whole check\<close>

lemma ancestor_up_iff:
  "details h = Some (Suc n, p) \<Longrightarrow> h \<noteq> b \<Longrightarrow> ancestor details h b \<longleftrightarrow> ancestor details p b"
  by (auto intro: ancestor.up elim: ancestorE)

lemma ancestor_stored:
  assumes "well_formed_store canon details" and "ancestor details h b" and "details h = Some (n, p)"
  shows "\<exists>m q. details b = Some (m, q) \<and> m \<le> n"
  using ancestor_number [OF assms] assms(3) by auto

lemma beacon_on_canon_decides:
  assumes wf: "well_formed_store canon details" and ph: "canon ph = Some n"
    and low: "\<And>m q. details b = Some (m, q) \<Longrightarrow> m \<le> n"
  shows "beacon_on_canon canon b = (if ancestor details ph b then Ok True else Err (InvalidBeaconHash b))"
proof (cases "canon b")
  case None
  then have "\<not> ancestor details ph b" using ancestor_of_canon [OF wf] ph by force
  then show ?thesis using None by (simp add: beacon_on_canon_def)
next
  case (Some m)
  then have "m \<le> n" using canon_stored [OF wf Some] low by blast
  then show ?thesis using Some canon_ancestor [OF wf ph Some] by (simp add: beacon_on_canon_def)
qed

lemma beacon_on_branch_decides:
  assumes wf: "well_formed_store canon details" and ph: "details ph = Some (n, gp)" and branch: "canon ph = None"
    and low: "\<And>m q. details b = Some (m, q) \<Longrightarrow> m \<le> n" and not_parent: "b \<noteq> ph"
  shows "beacon_on_branch canon details ph n gp b =
    (if ancestor details ph b then Ok True else Err (InvalidBeaconHash b))"
proof -
  obtain k where n: "n = Suc k" using genesis_canon [OF wf, of ph gp] ph branch by (cases n) auto
  obtain q where gp: "details gp = Some (k, q)" using parent_stored [OF wf] ph n by blast
  have up: "ancestor details ph b \<longleftrightarrow> ancestor details gp b"
    using ancestor_up_iff [of details ph k gp b] ph n not_parent by simp
  have same: "\<not> ancestor details ph b" if "details b = Some (n, r)" for r
    using ancestor_number [OF wf _ ph, of b] not_parent that by auto
  show ?thesis
  proof (cases "canon b")
    case (Some m)
    obtain r where r: "details b = Some (m, r)" using canon_stored [OF wf Some] by blast
    show ?thesis
    proof (cases "m = n")
      case True
      then show ?thesis using Some branch same r by (simp add: beacon_on_branch_def)
    next
      case False
      then have "m \<le> k" using low [OF r] n by simp
      then show ?thesis using Some branch n False up canon_walk_decides [OF wf gp Some]
        by (simp add: beacon_on_branch_def)
    qed
  next
    case None
    show ?thesis
    proof (cases "details b")
      case unknown: None
      then have "\<not> ancestor details ph b" using ancestor_stored [OF wf _ ph, of b] by auto
      then show ?thesis using None unknown by (simp add: beacon_on_branch_def)
    next
      case (Some d)
      then obtain m r where r: "details b = Some (m, r)" by (cases d) simp
      show ?thesis
      proof (cases "m = n")
        case True
        then show ?thesis using None branch same r not_parent by (simp add: beacon_on_branch_def)
      next
        case False
        then have "m \<le> k" using low [OF r] n by simp
        then show ?thesis using None branch n False up r not_parent branch_walk_decides [OF wf gp None r]
          by (simp add: beacon_on_branch_def)
      qed
    qed
  qed
qed

lemma beacon_loop_decides:
  "(\<And>b. Some b \<in> set txs \<Longrightarrow> check b = (if P b then Ok True else Err (InvalidBeaconHash b))) \<Longrightarrow>
   beacon_loop check txs = Ok () \<longleftrightarrow> (\<forall>b. Some b \<in> set txs \<longrightarrow> P b)"
proof (induction txs)
  case (Cons tx txs)
  then have IH: "beacon_loop check txs = Ok () \<longleftrightarrow> (\<forall>b. Some b \<in> set txs \<longrightarrow> P b)" by simp
  show ?case
  proof (cases tx)
    case (Some b)
    then show ?thesis using IH Cons.prems [of b] by auto
  qed (use IH in auto)
qed simp

subsection \<open>Properties\<close>

text \<open>
  C5 (beacon hashes name ancestors). On a well-formed store, after the Unity fork, a block passes the
  beacon check exactly when every beacon hash of its transactions names an ancestor of it, provided
  that no named block lies above the parent and none is the parent itself on a side branch.
\<close>

theorem beacon_check_ancestry:
  assumes "well_formed_store canon details" and "u < h_number h"
    and "details (h_parent_hash h) = Some (h_number parent, h_parent_hash parent)"
    and "\<And>b m q. Some b \<in> set txs \<Longrightarrow> details b = Some (m, q) \<Longrightarrow> m \<le> h_number parent"
    and "canon (h_parent_hash h) = None \<Longrightarrow> Some (h_parent_hash h) \<notin> set txs"
  shows "beacon_check (Some u) canon details h parent txs = Ok () \<longleftrightarrow>
    (\<forall>b. Some b \<in> set txs \<longrightarrow> ancestor details (h_parent_hash h) b)"
proof (cases "canon (h_parent_hash h)")
  case None
  have "beacon_loop (beacon_on_branch canon details (h_parent_hash h) (h_number parent) (h_parent_hash parent)) txs
      = Ok () \<longleftrightarrow> (\<forall>b. Some b \<in> set txs \<longrightarrow> ancestor details (h_parent_hash h) b)"
    using assms(4,5) None
    by (intro beacon_loop_decides beacon_on_branch_decides [OF assms(1,3) None]) auto
  then show ?thesis using assms(2) None by (simp add: beacon_check_def)
next
  case (Some n)
  then have "n = h_number parent" using canon_stored [OF assms(1) Some] assms(3) by simp
  then have "beacon_loop (beacon_on_canon canon) txs = Ok () \<longleftrightarrow>
      (\<forall>b. Some b \<in> set txs \<longrightarrow> ancestor details (h_parent_hash h) b)"
    using assms(4) by (intro beacon_loop_decides beacon_on_canon_decides [OF assms(1) Some]) auto
  then show ?thesis using assms(2) Some by (simp add: beacon_check_def)
qed

text \<open>A store with genesis, a canonical block and a side block, for concrete instances.\<close>

abbreviation fork_canon :: beacon_list where
  "fork_canon \<equiv> [[0] \<mapsto> 0, [1] \<mapsto> 1]"

abbreviation fork_details :: details_lookup where
  "fork_details \<equiv> [[0] \<mapsto> (0, []), [1] \<mapsto> (1, [0]), [2] \<mapsto> (1, [0])]"

lemma fork_store: "well_formed_store fork_canon fork_details"
  unfolding well_formed_store_def by (auto split: if_splits)

abbreviation side_child :: header where
  "side_child \<equiv> header_default\<lparr>h_number := 2, h_parent_hash := [2]\<rparr>"

abbreviation side_block :: header where
  "side_block \<equiv> header_default\<lparr>h_number := 1, h_parent_hash := [0]\<rparr>"

theorem beacon_check_ancestry_witness:
  "beacon_check (Some 0) fork_canon fork_details side_child side_block [Some [0], None] = Ok ()"
proof -
  have "ancestor fork_details [2] [0]"
    by (rule ancestor.up [where n = 0 and p = "[0]"]) (simp_all add: ancestor.self)
  then show ?thesis
    by (subst beacon_check_ancestry [OF fork_store]) (auto split: if_splits)
qed

text \<open>
  C37 (the check stops at the parent). When the first beacon hash names the parent and the parent is
  on a side branch, the loop over the transactions is left and no later beacon hash is looked at.
\<close>

theorem beacon_check_stops:
  assumes "u < h_number h" and "canon (h_parent_hash h) = None" and "details (h_parent_hash h) \<noteq> None"
  shows "beacon_check (Some u) canon details h parent (Some (h_parent_hash h) # txs) = Ok ()"
  using assms by (auto simp: beacon_check_def beacon_on_branch_def)

theorem beacon_check_stops_witness:
  "beacon_check (Some 0) fork_canon fork_details side_child side_block [Some [2], Some [7]] = Ok () \<and>
   beacon_check (Some 0) fork_canon fork_details side_child side_block [Some [7]] = Err (InvalidBeaconHash [7])"
  using beacon_check_stops [of 0 side_child fork_canon fork_details side_block "[Some [7]]"]
  by (simp add: beacon_check_def beacon_on_branch_def)

text \<open>
  A canonical block above the parent passes. A block on the canonical chain may name a canonical
  block that is not its ancestor: any one with a higher number than its parent.
\<close>

theorem beacon_above_parent_passes:
  assumes "well_formed_store canon details" and "u < h_number h"
    and "canon (h_parent_hash h) = Some n" and "canon b = Some m" and "n < m"
  shows "beacon_check (Some u) canon details h parent [Some b] = Ok () \<and> \<not> ancestor details (h_parent_hash h) b"
proof
  show "beacon_check (Some u) canon details h parent [Some b] = Ok ()"
    using assms(2-4) by (simp add: beacon_check_def beacon_on_canon_def)
  obtain p where p: "details (h_parent_hash h) = Some (n, p)" using canon_stored [OF assms(1,3)] by blast
  obtain q where q: "details b = Some (m, q)" using canon_stored [OF assms(1,4)] by blast
  show "\<not> ancestor details (h_parent_hash h) b"
    using ancestor_stored [OF assms(1) _ p, of b] q assms(5) by auto
qed

theorem beacon_above_parent_passes_witness:
  "beacon_check (Some 0) fork_canon fork_details (side_child\<lparr>h_parent_hash := [0]\<rparr>) side_block [Some [1]] = Ok ()"
  using beacon_above_parent_passes [OF fork_store, of 0 "side_child\<lparr>h_parent_hash := [0]\<rparr>" 0 "[1]" 1 side_block]
  by simp

end
