(* ===== verification/Block_Verification.thy ===== *)
theory Block_Verification
  imports Transaction Beacon
begin

text \<open>
  The first two phases of block verification, \<^verbatim>\<open>verify_block_basic\<close> and \<^verbatim>\<open>verify_block_unordered\<close> of
  \<^verbatim>\<open>src/core/src/verification/mod.rs\<close>, the views onto encoded blocks that they and the block chain
  read, \<^verbatim>\<open>src/core/src/views\<close>, and the gas limit a new block gets, \<^verbatim>\<open>src/core/src/machine.rs\<close>.

  \<^item> A view is the RLP reader of \<open>Rlp_Decode\<close> on the bytes; its accessors use the trusted reader, so that \<open>None\<close>
    is a panic on malformed bytes.
  \<^item> The phases are run on the bytes of a block: the first one with the reader that returns errors, the second
    one with the reader that panics. The lemmas show that the first excludes the panics of the second.
\<close>

subsection \<open>Errors\<close>

text \<open>The part of \<^verbatim>\<open>types::error::Error\<close> that the two phases produce.\<close>

datatype core_error = ErrUtil decoder_error | ErrBlock block_error | ErrTransaction tx_error | ErrEthkey key_error

definition map_err :: "('e \<Rightarrow> 'f) \<Rightarrow> ('e, 'a) outcome \<Rightarrow> ('f, 'a) outcome" where
  "map_err f m = (case m of Ok a \<Rightarrow> Ok a | Err e \<Rightarrow> Err (f e) | Panic \<Rightarrow> Panic)"

lemma map_err_simps [simp]:
  "map_err f (Ok a) = Ok a" "map_err f (Err e) = Err (f e)" "map_err f Panic = Panic"
  "map_err f m = Ok a \<longleftrightarrow> m = Ok a" "map_err f m = Panic \<longleftrightarrow> m = Panic"
  by (auto simp: map_err_def split: outcome.splits)

subsection \<open>Views\<close>

text \<open>The view of a header reads single fields of its RLP form; \<open>None\<close> is the panic of the trusted reader.\<close>

definition hv_hash :: "(bytes \<Rightarrow> bytes) \<Rightarrow> untrusted_rlp \<Rightarrow> bytes" where
  "hv_hash blake2b r = blake2b (raw r)"

definition hv_seal_type :: "untrusted_rlp \<Rightarrow> seal_type option option" where
  "hv_seal_type r = map_option Some (trusted_val_at seal_type_decode r 0)"

definition hv_number :: "untrusted_rlp \<Rightarrow> nat option" where
  "hv_number r = trusted_val_at (u_decode 8) r 1"

definition hv_parent_hash :: "untrusted_rlp \<Rightarrow> bytes option" where
  "hv_parent_hash r = trusted_val_at (hash_decode 32) r 2"

definition hv_author :: "untrusted_rlp \<Rightarrow> bytes option" where
  "hv_author r = trusted_val_at (hash_decode 32) r 3"

definition hv_state_root :: "untrusted_rlp \<Rightarrow> bytes option" where
  "hv_state_root r = trusted_val_at (hash_decode 32) r 4"

definition hv_transactions_root :: "untrusted_rlp \<Rightarrow> bytes option" where
  "hv_transactions_root r = trusted_val_at (hash_decode 32) r 5"

definition hv_receipts_root :: "untrusted_rlp \<Rightarrow> bytes option" where
  "hv_receipts_root r = trusted_val_at (hash_decode 32) r 6"

definition hv_log_bloom :: "untrusted_rlp \<Rightarrow> bytes option" where
  "hv_log_bloom r = trusted_val_at (hash_decode 256) r 7"

definition hv_difficulty :: "untrusted_rlp \<Rightarrow> nat option" where
  "hv_difficulty r = map_option (\<lambda>bs. to_u256 bs 16) (trusted_val_at vec_decode r 8)"

definition hv_extra_data :: "untrusted_rlp \<Rightarrow> bytes option" where
  "hv_extra_data r = trusted_val_at vec_decode r 9"

definition hv_gas_used :: "untrusted_rlp \<Rightarrow> nat option" where
  "hv_gas_used r = trusted_val_at (uint_decode 32) r 10"

definition hv_gas_limit :: "untrusted_rlp \<Rightarrow> nat option" where
  "hv_gas_limit r = trusted_val_at (uint_decode 32) r 11"

definition hv_timestamp :: "untrusted_rlp \<Rightarrow> nat option" where
  "hv_timestamp r = trusted_val_at (u_decode 8) r 12"

fun hv_seals :: "untrusted_rlp \<Rightarrow> nat list \<Rightarrow> bytes list option" where
  "hv_seals r [] = Some []"
| "hv_seals r (i # is) = do { b \<leftarrow> trusted_val_at vec_decode r i; bs \<leftarrow> hv_seals r is; Some (b # bs) }"

definition hv_seal :: "untrusted_rlp \<Rightarrow> bytes list option" where
  "hv_seal r = do { n \<leftarrow> trusted_item_count r; hv_seals r [13..<n] }"

text \<open>The view of a block: the header is item 0, the transactions are the list in item 1. A body has them in item 0.\<close>

definition bv_header :: "(bytes \<Rightarrow> bytes) \<Rightarrow> untrusted_rlp \<Rightarrow> header option" where
  "bv_header blake2b r = trusted_val_at (header_decode blake2b) r 0"

definition bv_header_view :: "untrusted_rlp \<Rightarrow> untrusted_rlp option" where
  "bv_header_view r = trusted_at r 0"

definition bv_hash :: "(bytes \<Rightarrow> bytes) \<Rightarrow> untrusted_rlp \<Rightarrow> bytes option" where
  "bv_hash blake2b r = map_option (hv_hash blake2b) (bv_header_view r)"

definition bv_transactions :: "(bytes \<Rightarrow> bytes) \<Rightarrow> untrusted_rlp \<Rightarrow> unverified_transaction list option" where
  "bv_transactions blake2b r = trusted_list_at (unverified_decode blake2b) r 1"

definition localize :: "bytes \<Rightarrow> nat \<Rightarrow> nat \<Rightarrow> unverified_transaction \<Rightarrow> localized_transaction" where
  "localize hash number i t =
     \<lparr>lt_signed = t, lt_block_number = number, lt_block_hash = hash, lt_transaction_index = i, lt_cached_sender = None\<rparr>"

definition bv_localized_transactions :: "(bytes \<Rightarrow> bytes) \<Rightarrow> untrusted_rlp \<Rightarrow> localized_transaction list option" where
  "bv_localized_transactions blake2b r = do {
     header \<leftarrow> bv_header_view r;
     let block_hash = hv_hash blake2b header;
     block_number \<leftarrow> hv_number header;
     ts \<leftarrow> bv_transactions blake2b r;
     Some (map (\<lambda>(i, t). localize block_hash block_number i t) (enumerate 0 ts))
   }"

definition bv_transactions_count :: "untrusted_rlp \<Rightarrow> nat option" where
  "bv_transactions_count r = map_option (\<lambda>x. length (snd (rlp_iter x))) (trusted_at r 1)"

definition bv_transaction_hashes :: "(bytes \<Rightarrow> bytes) \<Rightarrow> untrusted_rlp \<Rightarrow> bytes list option" where
  "bv_transaction_hashes blake2b r = map_option (\<lambda>x. map (\<lambda>t. blake2b (raw t)) (snd (rlp_iter x))) (trusted_at r 1)"

definition bv_transaction_at :: "(bytes \<Rightarrow> bytes) \<Rightarrow> untrusted_rlp \<Rightarrow> nat \<Rightarrow> unverified_transaction option option" where
  "bv_transaction_at blake2b r index = do {
     x \<leftarrow> trusted_at r 1;
     (let ts = snd (rlp_iter x) in
      if index < length ts then map_option Some (trusted_as_val (unverified_decode blake2b) (ts ! index)) else Some None)
   }"

definition bv_localized_transaction_at :: "(bytes \<Rightarrow> bytes) \<Rightarrow> untrusted_rlp \<Rightarrow> nat \<Rightarrow>
    localized_transaction option option" where
  "bv_localized_transaction_at blake2b r index = do {
     header \<leftarrow> bv_header_view r;
     let block_hash = hv_hash blake2b header;
     block_number \<leftarrow> hv_number header;
     t \<leftarrow> bv_transaction_at blake2b r index;
     Some (map_option (localize block_hash block_number index) t)
   }"

definition body_transactions :: "(bytes \<Rightarrow> bytes) \<Rightarrow> untrusted_rlp \<Rightarrow> unverified_transaction list option" where
  "body_transactions blake2b r = trusted_list_at (unverified_decode blake2b) r 0"

definition body_localized_transactions :: "(bytes \<Rightarrow> bytes) \<Rightarrow> bytes \<Rightarrow> nat \<Rightarrow> untrusted_rlp \<Rightarrow>
    localized_transaction list option" where
  "body_localized_transactions blake2b block_hash block_number r =
     map_option (\<lambda>ts. map (\<lambda>(i, t). localize block_hash block_number i t) (enumerate 0 ts)) (body_transactions blake2b r)"

definition body_transactions_count :: "untrusted_rlp \<Rightarrow> nat option" where
  "body_transactions_count r = trusted_at r 0 \<bind> trusted_item_count"

definition body_transaction_hashes :: "(bytes \<Rightarrow> bytes) \<Rightarrow> untrusted_rlp \<Rightarrow> bytes list option" where
  "body_transaction_hashes blake2b r = map_option (\<lambda>x. map (\<lambda>t. blake2b (raw t)) (snd (rlp_iter x))) (trusted_at r 0)"

definition body_transaction_at :: "(bytes \<Rightarrow> bytes) \<Rightarrow> untrusted_rlp \<Rightarrow> nat \<Rightarrow> unverified_transaction option option" where
  "body_transaction_at blake2b r index = do {
     x \<leftarrow> trusted_at r 0;
     (let ts = snd (rlp_iter x) in
      if index < length ts then map_option Some (trusted_as_val (unverified_decode blake2b) (ts ! index)) else Some None)
   }"

definition body_localized_transaction_at :: "(bytes \<Rightarrow> bytes) \<Rightarrow> bytes \<Rightarrow> nat \<Rightarrow> untrusted_rlp \<Rightarrow> nat \<Rightarrow>
    localized_transaction option option" where
  "body_localized_transaction_at blake2b block_hash block_number r index =
     map_option (map_option (localize block_hash block_number index)) (body_transaction_at blake2b r index)"

text \<open>The view of a transaction; \<^verbatim>\<open>v\<close>, \<^verbatim>\<open>r\<close> and \<^verbatim>\<open>s\<close> read the items 8 to 10.\<close>

definition tv_hash :: "(bytes \<Rightarrow> bytes) \<Rightarrow> untrusted_rlp \<Rightarrow> bytes" where
  "tv_hash blake2b r = blake2b (raw r)"

definition tv_nonce :: "untrusted_rlp \<Rightarrow> nat option" where
  "tv_nonce r = trusted_val_at (uint_decode 32) r 0"

definition tv_gas_price :: "untrusted_rlp \<Rightarrow> nat option" where
  "tv_gas_price r = map_option (\<lambda>bs. to_u256 bs 32) (trusted_val_at vec_decode r 6)"

definition tv_gas :: "untrusted_rlp \<Rightarrow> nat option" where
  "tv_gas r = map_option (\<lambda>bs. to_u256 bs 32) (trusted_val_at vec_decode r 5)"

definition tv_value :: "untrusted_rlp \<Rightarrow> nat option" where
  "tv_value r = trusted_val_at (uint_decode 32) r 2"

definition tv_data :: "untrusted_rlp \<Rightarrow> bytes option" where
  "tv_data r = trusted_val_at vec_decode r 3"

definition tv_timestamp :: "untrusted_rlp \<Rightarrow> bytes option" where
  "tv_timestamp r = trusted_val_at vec_decode r 4"

definition tv_v :: "untrusted_rlp \<Rightarrow> nat option" where
  "tv_v r = map_option (\<lambda>n. n mod 256) (trusted_val_at (u_decode 2) r 8)"

definition tv_r :: "untrusted_rlp \<Rightarrow> nat option" where
  "tv_r r = trusted_val_at (uint_decode 32) r 9"

definition tv_s :: "untrusted_rlp \<Rightarrow> nat option" where
  "tv_s r = trusted_val_at (uint_decode 32) r 10"

definition bv_transaction_views :: "untrusted_rlp \<Rightarrow> untrusted_rlp list option" where
  "bv_transaction_views r = map_option (\<lambda>x. snd (rlp_iter x)) (trusted_at r 1)"

definition body_transaction_views :: "untrusted_rlp \<Rightarrow> untrusted_rlp list option" where
  "body_transaction_views r = map_option (\<lambda>x. snd (rlp_iter x)) (trusted_at r 0)"

subsection \<open>The two phases\<close>

fun verify_each :: "nat option \<Rightarrow> nat \<Rightarrow> (bytes \<Rightarrow> bytes) \<Rightarrow> untrusted_rlp list \<Rightarrow> (core_error, unit) outcome" where
  "verify_each fork number blake2b [] = Ok ()"
| "verify_each fork number blake2b (x # xs) =
     try_ok (map_err ErrUtil (unverified_decode blake2b (raw x))) (\<lambda>t.
     try_ok (map_err ErrTransaction (verify_transaction_basic fork t (Some number))) (\<lambda>_.
     verify_each fork number blake2b xs))"

definition verify_block_basic :: "(bytes \<Rightarrow> bytes) \<Rightarrow> machine_params \<Rightarrow> nat option \<Rightarrow> header \<Rightarrow> bytes \<Rightarrow>
    (core_error, unit) outcome" where
  "verify_block_basic blake2b p monetary_policy_update h bs =
     try_ok (map_err ErrBlock (verify_header_params p h)) (\<lambda>_.
     try_ok (map_err ErrBlock (engine_verify_block_basic blake2b h)) (\<lambda>_.
     try_ok (map_err ErrUtil (snd (rlp_at (rlp_new bs) 1))) (\<lambda>r.
     verify_each monetary_policy_update (h_number h) blake2b (snd (rlp_iter r)))))"

record preverified_block =
  pb_header :: header
  pb_transactions :: "signed_transaction list"
  pb_bytes :: bytes

definition verify_transaction_signature :: "(bytes \<Rightarrow> bytes) \<Rightarrow> (bytes \<Rightarrow> bytes \<Rightarrow> bytes \<Rightarrow> bool) \<Rightarrow>
    unverified_transaction \<Rightarrow> (core_error, signed_transaction) outcome" where
  "verify_transaction_signature blake2b ed25519_verify t = map_err ErrEthkey (signed_new blake2b ed25519_verify t)"

fun sign_each :: "(bytes \<Rightarrow> bytes) \<Rightarrow> (bytes \<Rightarrow> bytes \<Rightarrow> bytes \<Rightarrow> bool) \<Rightarrow> unverified_transaction list \<Rightarrow>
    (core_error, signed_transaction list) outcome" where
  "sign_each blake2b ed25519_verify [] = Ok []"
| "sign_each blake2b ed25519_verify (t # ts) =
     try_ok (verify_transaction_signature blake2b ed25519_verify t) (\<lambda>s.
     map_ok (\<lambda>ss. s # ss) (sign_each blake2b ed25519_verify ts))"

definition verify_block_unordered :: "(bytes \<Rightarrow> bytes) \<Rightarrow> (bytes \<Rightarrow> bytes \<Rightarrow> bytes \<Rightarrow> bool) \<Rightarrow>
    (bytes \<Rightarrow> bytes \<Rightarrow> bytes \<Rightarrow> bool) \<Rightarrow> header \<Rightarrow> bytes \<Rightarrow> (core_error, preverified_block) outcome" where
  "verify_block_unordered blake2b is_valid_solution ed25519_verify h bs =
     try_ok (map_err ErrBlock (engine_verify_block_unordered blake2b is_valid_solution h)) (\<lambda>_.
       (case bv_transactions blake2b (rlp_new bs) of
          None \<Rightarrow> Panic
        | Some ts \<Rightarrow> map_ok (\<lambda>transactions. \<lparr>pb_header = h, pb_transactions = transactions, pb_bytes = bs\<rparr>)
            (sign_each blake2b ed25519_verify ts)))"

subsection \<open>The gas limit of a new block\<close>

text \<open>
  The arithmetic on \<^verbatim>\<open>i64\<close>: a conversion keeps the low 64 bits in two's complement, an overflow and a
  division by zero panic, and division rounds towards zero.
\<close>

definition as_i64 :: "nat \<Rightarrow> int" where
  "as_i64 n = (let m = int (n mod 2 ^ 64) in if m < 2 ^ 63 then m else m - 2 ^ 64)"

definition i64_check :: "int \<Rightarrow> int option" where
  "i64_check i = (if - (2 ^ 63) \<le> i \<and> i < 2 ^ 63 then Some i else None)"

definition i64_div :: "int \<Rightarrow> int \<Rightarrow> int option" where
  "i64_div a b = (if b = 0 then None else i64_check (sgn a * sgn b * (\<bar>a\<bar> div \<bar>b\<bar>)))"

definition next_gas_limit :: "nat \<Rightarrow> header \<Rightarrow> nat \<Rightarrow> nat \<Rightarrow> nat option" where
  "next_gas_limit bound_divisor parent gas_floor_target gas_ceil_target =
     (let gas_limit = h_gas_limit parent in
      if gas_limit < gas_floor_target then do { d \<leftarrow> checked_div gas_limit bound_divisor; u256_add gas_limit d }
      else if gas_limit > gas_ceil_target then do { d \<leftarrow> checked_div gas_limit bound_divisor; u256_sub gas_limit d }
      else do {
        let gas_used = as_i64 (h_gas_used parent);
        let gas_limit_i64 = as_i64 gas_limit;
        let bound_divisor_i64 = as_i64 bound_divisor;
        a \<leftarrow> i64_check (gas_used * 4);
        b \<leftarrow> i64_div a 3;
        c \<leftarrow> i64_check (b - gas_limit_i64);
        delta \<leftarrow> i64_div c bound_divisor_i64;
        e \<leftarrow> i64_check (gas_limit_i64 + delta);
        Some (nat (max 0 e))
      })"

definition set_gas_limit_from_parent :: "machine_params \<Rightarrow> header \<Rightarrow> header \<Rightarrow> nat \<Rightarrow> nat \<Rightarrow> header option" where
  "set_gas_limit_from_parent p h parent gas_floor_target gas_ceil_target =
     map_option (\<lambda>g. set_gas_limit g h)
       (next_gas_limit (mp_gas_limit_bound_divisor p) parent gas_floor_target gas_ceil_target)"

subsection \<open>Writing a list of values never panics\<close>

definition appends :: "(rlp_stream \<Rightarrow> rlp_stream option) \<Rightarrow> bool" where
  "appends f \<longleftrightarrow> (\<forall>s. \<exists>bs. f s = Some (s\<lparr>buffer := buffer s @ bs\<rparr>))"

lemma value_appends: "appends (value_append v)"
proof -
  have "\<exists>bs. encode_value v buf = Some (buf @ bs)" for buf
    by (auto simp: encode_value_def insert_size_def insert_slice_def set_byte_before_def Let_def list_update_append nth_append)
  then show ?thesis unfolding appends_def value_append_def by (metis bind.bind_lunit)
qed

lemma field_appends:
  "appends (vec_append v)" "appends (hash_append v)" "appends (u8_append b)" "appends (uint_append sz n)"
  "appends (action_append a)" "appends (encode_long n)"
proof -
  show v: "appends (vec_append v)" for v using value_appends by (simp add: appends_def vec_append_def)
  show h: "appends (hash_append v)" for v using value_appends by (simp add: appends_def hash_append_def)
  show "appends (u8_append b)" using value_appends by (simp add: appends_def u8_append_def)
  show u: "appends (uint_append sz n)" for sz n using value_appends by (simp add: appends_def uint_append_def Let_def)
  show "appends (action_append a)" using value_appends h by (cases a) (simp_all add: action_append_def)
  show "appends (encode_long n)" using v u by (simp add: encode_long_def Let_def)
qed

lemma append_each_total:
  assumes "list_all appends fs" and "unfinished_lists s = [\<lparr>li_position = p, li_current = c, li_max = Some m\<rparr>]"
    and "0 < p" and "p \<le> length (buffer s)" and "c + length fs = m" and "fs \<noteq> []"
  shows "append_each fs s \<noteq> None"
  using assms
proof (induction fs arbitrary: s c)
  case (Cons f fs)
  obtain bs where f: "f (s\<lparr>finished_list := False\<rparr>) = Some (s\<lparr>finished_list := False, buffer := buffer s @ bs\<rparr>)"
    using Cons.prems(1) by (auto simp: appends_def dest!: spec [of _ "s\<lparr>finished_list := False\<rparr>"])
  let ?s = "s\<lparr>finished_list := False, buffer := buffer s @ bs\<rparr>"
  have step: "append_with f s = note_appended ?s 1" by (simp add: append_with_def f)
  show ?case
  proof (cases "fs = []")
    case True
    have "insert_list_payload n p buf \<noteq> None" if "p \<le> length buf" for n buf
      using that Cons.prems(3)
      by (auto simp: insert_list_payload_def set_byte_before_def insert_size_def insert_slice_def Let_def)
    then have "insert_list_payload (length (buffer ?s) - p) p (buffer ?s) \<noteq> None"
      using Cons.prems(4) by (simp del: insert_list_payload_def)
    then have "note_appended ?s 1 \<noteq> None"
      using Cons.prems True by (subst note_appended.simps) (auto simp: Let_def note_appended.simps)
    then show ?thesis using True step by (auto simp: bind_eq_None_conv)
  next
    case False
    let ?t = "?s\<lparr>unfinished_lists := [\<lparr>li_position = p, li_current = c + 1, li_max = Some m\<rparr>]\<rparr>"
    have "0 < length fs" using False by simp
    then have "note_appended ?s 1 = Some ?t"
      using Cons.prems(2,5) by (subst note_appended.simps) (auto simp: Let_def)
    moreover have "append_each fs ?t \<noteq> None" using Cons.prems False by (intro Cons.IH [of ?t "c + 1"]) auto
    ultimately show ?thesis by (simp add: step)
  qed
qed simp

lemma transaction_hash_total: "\<exists>h. transaction_hash blake2b t ts = Some h"
proof -
  let ?fs = "unsigned_fields t ts @ beacon_fields t"
  have "list_all appends ?fs"
    by (auto simp: unsigned_fields_def beacon_fields_def field_appends split: option.splits)
  moreover have "length ?fs = (if t_beacon t \<noteq> None then 10 else 8)"
    by (auto simp: unsigned_fields_def beacon_fields_def)
  moreover have "?fs \<noteq> []" by (simp add: unsigned_fields_def)
  ultimately have "append_each ?fs (stream_new\<lparr>buffer := [0], unfinished_lists := [list_info_new 1 (Some (length ?fs))]\<rparr>) \<noteq> None"
    by (intro append_each_total [where p = 1 and c = 0 and m = "length ?fs"]) (simp_all add: list_info_new_def)
  then show ?thesis
    using \<open>length ?fs = _\<close> by (auto simp: transaction_hash_def rlp_append_unsigned_transaction_def begin_list_def stream_new_def Let_def split: if_splits)
qed

subsection \<open>What the phases accept\<close>

lemma verify_each_Ok:
  assumes "verify_each fork n blake2b xs = Ok ()"
  shows "\<exists>ts. trusted_all (unverified_decode blake2b) xs = Some ts \<and>
    (\<forall>t \<in> set ts. verify_transaction_basic fork t (Some n) = Ok ())"
  using assms by (induction xs) (fastforce simp: try_ok_eq_Ok_iff trusted_as_val_def unwrap_def)+

lemma sign_each_Ok:
  assumes "sign_each blake2b ed25519_verify ts = Ok ss"
  shows "list_all2 (\<lambda>t s. signed_new blake2b ed25519_verify t = Ok s) ts ss"
  using assms
  by (induction ts arbitrary: ss) (auto simp: try_ok_eq_Ok_iff map_ok_eq_Ok_iff verify_transaction_signature_def)

lemma recover_no_panic:
  "length (ut_sig t) = 96 \<Longrightarrow> signed_new blake2b ed25519_verify t \<noteq> Panic"
  using transaction_hash_total [of blake2b "ut_unsigned t" "ut_timestamp t"]
  by (auto simp: signed_new_def recover_public_def signature_from_def recover_ed25519_def Let_def try_ok_eq_Panic_iff split: if_splits)

lemma sign_each_no_panic:
  "\<forall>t \<in> set ts. length (ut_sig t) = 96 \<Longrightarrow> sign_each blake2b ed25519_verify ts \<noteq> Panic"
  by (induction ts) (auto simp: try_ok_eq_Panic_iff verify_transaction_signature_def recover_no_panic)

text \<open>What a sender that phase two has established stands for.\<close>

definition sender_established :: "(bytes \<Rightarrow> bytes) \<Rightarrow> (bytes \<Rightarrow> bytes \<Rightarrow> bytes \<Rightarrow> bool) \<Rightarrow> signed_transaction \<Rightarrow> bool" where
  "sender_established blake2b ed25519_verify s \<longleftrightarrow>
     (let u = st_transaction s; pub = take 32 (ut_sig u) in
      st_sender s = public_to_address_ed25519 blake2b pub \<and> st_public s = Some pub \<and>
      (\<exists>msg. transaction_hash blake2b (ut_unsigned u) (ut_timestamp u) = Some msg \<and>
        ed25519_verify msg pub (take 64 (drop 32 (ut_sig u)))))"

lemma signed_new_Ok:
  assumes "signed_new blake2b ed25519_verify t = Ok s"
  shows "st_transaction s = t \<and> (if is_unsigned t then st_sender s = UNSIGNED_SENDER else sender_established blake2b ed25519_verify s)"
  using assms
  by (auto simp: signed_new_def recover_public_def recover_ed25519_def signature_from_def sender_established_def Let_def
      try_ok_eq_Ok_iff split: if_splits option.splits)

lemma verify_block_basic_Ok:
  assumes "verify_block_basic blake2b p fork h bs = Ok ()"
  shows "\<exists>ts. bv_transactions blake2b (rlp_new bs) = Some ts \<and>
    (\<forall>t \<in> set ts. is_allowed_type t fork (h_number h) = Ok () \<and> verify_basic t = Ok ())"
proof -
  obtain r where r: "snd (rlp_at (rlp_new bs) 1) = Ok r" "verify_each fork (h_number h) blake2b (snd (rlp_iter r)) = Ok ()"
    using assms by (auto simp: verify_block_basic_def try_ok_eq_Ok_iff)
  from verify_each_Ok [OF r(2)] show ?thesis
    using r(1) by (auto simp: bv_transactions_def trusted_list_at_def trusted_at_def trusted_as_list_def unwrap_def
        verify_transaction_basic_def try_ok_eq_Ok_iff)
qed

lemma engine_unordered_no_panic: "engine_verify_block_unordered blake2b is_valid_solution h \<noteq> Panic"
  by (auto simp: engine_verify_block_unordered_def equihash_solution_validate_def Let_def)

subsection \<open>Properties\<close>

text \<open>
  C8 (what the first two phases establish). When the first phase accepts the bytes of a block, the second
  one does not panic on them, although it reads the transactions with the reader that panics on a
  malformed one and takes the signatures apart unchecked. When it succeeds, the result has exactly the
  transactions of the bytes, each of an allowed type and within the basic limits, and each sender is the
  address of a key that signed the transaction, unless its signature is all zeros: such a
  transaction is accepted, without any check, as one of the address of unsigned transactions.
\<close>

theorem phases_compose:
  assumes "verify_block_basic blake2b p fork h bs = Ok ()"
  shows "\<exists>ts. bv_transactions blake2b (rlp_new bs) = Some ts \<and>
    verify_block_unordered blake2b is_valid_solution ed25519_verify h bs \<noteq> Panic \<and>
    (\<forall>b. verify_block_unordered blake2b is_valid_solution ed25519_verify h bs = Ok b \<longrightarrow>
      pb_header b = h \<and> pb_bytes b = bs \<and> map st_transaction (pb_transactions b) = ts \<and>
      list_all (\<lambda>s. is_allowed_type (st_transaction s) fork (h_number h) = Ok () \<and> verify_basic (st_transaction s) = Ok () \<and>
        (if is_unsigned (st_transaction s) then st_sender s = UNSIGNED_SENDER
         else sender_established blake2b ed25519_verify s)) (pb_transactions b))"
proof -
  obtain ts where ts: "bv_transactions blake2b (rlp_new bs) = Some ts"
      "\<forall>t \<in> set ts. is_allowed_type t fork (h_number h) = Ok () \<and> verify_basic t = Ok ()"
    using verify_block_basic_Ok [OF assms] by blast
  let ?run = "verify_block_unordered blake2b is_valid_solution ed25519_verify h bs"
  have "\<forall>t \<in> set ts. length (ut_sig t) = 96" using ts(2) by (simp add: verify_basic_Ok)
  then have "?run \<noteq> Panic"
    using sign_each_no_panic ts(1) engine_unordered_no_panic by (auto simp: verify_block_unordered_def try_ok_eq_Panic_iff)
  moreover have "pb_header b = h \<and> pb_bytes b = bs \<and> map st_transaction (pb_transactions b) = ts \<and>
      list_all (\<lambda>s. is_allowed_type (st_transaction s) fork (h_number h) = Ok () \<and> verify_basic (st_transaction s) = Ok () \<and>
        (if is_unsigned (st_transaction s) then st_sender s = UNSIGNED_SENDER
         else sender_established blake2b ed25519_verify s)) (pb_transactions b)" if run: "?run = Ok b" for b
  proof -
    obtain ss where ss: "sign_each blake2b ed25519_verify ts = Ok ss" "b = \<lparr>pb_header = h, pb_transactions = ss, pb_bytes = bs\<rparr>"
      using run ts(1) by (auto simp: verify_block_unordered_def try_ok_eq_Ok_iff map_ok_eq_Ok_iff)
    have each: "list_all2 (\<lambda>t s. signed_new blake2b ed25519_verify t = Ok s) ts ss" by (rule sign_each_Ok [OF ss(1)])
    then have "map st_transaction ss = ts"
      by (induction rule: list_all2_induct) (auto dest: signed_new_Ok)
    moreover have "if is_unsigned (st_transaction s) then st_sender s = UNSIGNED_SENDER
        else sender_established blake2b ed25519_verify s" if "s \<in> set ss" for s
    proof -
      from each that have "\<exists>t. signed_new blake2b ed25519_verify t = Ok s" by (induction rule: list_all2_induct) auto
      then show ?thesis using signed_new_Ok by fastforce
    qed
    ultimately show ?thesis using ss(2) ts(2) by (auto simp: list_all_iff)
  qed
  ultimately show ?thesis using ts(1) by blast
qed

lemma i64_div_bound: "0 < b \<Longrightarrow> \<bar>a\<bar> < 2 ^ 63 \<Longrightarrow> \<exists>q. i64_div a b = Some q \<and> \<bar>q\<bar> = \<bar>a\<bar> div b \<and> (a \<le> 0 \<longrightarrow> q \<le> 0) \<and> (0 \<le> a \<longrightarrow> 0 \<le> q)"
proof -
  assume b: "0 < b" and a: "\<bar>a\<bar> < (2::int) ^ 63"
  have q: "0 \<le> \<bar>a\<bar> div b" "\<bar>a\<bar> div b \<le> \<bar>a\<bar>" using b zdiv_mono2 [of "\<bar>a\<bar>" 1 b] by (simp_all add: pos_imp_zdiv_nonneg_iff)
  consider "a = 0" | "0 < a" | "a < 0" by linarith
  then show ?thesis using a b q by cases (auto simp: i64_div_def i64_check_def)
qed

lemma next_gas_limit_bounds:
  assumes "h_gas_used parent \<le> h_gas_limit parent" and "h_gas_limit parent < 2 ^ 61" and "0 < d" and "d < 2 ^ 63"
  shows "\<exists>g. next_gas_limit d parent fl ceil = Some g \<and>
    h_gas_limit parent - h_gas_limit parent div d \<le> g \<and> g \<le> h_gas_limit parent + h_gas_limit parent div d"
proof -
  let ?g = "h_gas_limit parent" and ?u = "h_gas_used parent"
  have g: "?g div d \<le> ?g" by simp
  have "(2::nat) ^ 62 = 2 * 2 ^ 61" by simp
  then have sum: "?g + ?g div d < 2 ^ 62" using g assms(2) by linarith
  consider "?g < fl" | "\<not> ?g < fl" "?g > ceil" | "\<not> ?g < fl" "\<not> ?g > ceil" by blast
  then show ?thesis
  proof cases
    case 1
    moreover have "?g + ?g div d < 2 ^ 256" using sum by simp
    ultimately show ?thesis using assms(3) unfolding next_gas_limit_def Let_def
      by (simp add: checked_div_def u256_add_def del: power_numeral)
  next
    case 2
    then show ?thesis using assms g by (simp add: next_gas_limit_def checked_div_def u256_sub_def Let_def)
  next
    case 3
    have i: "as_i64 ?u = int ?u" "as_i64 ?g = int ?g" "as_i64 d = int d"
      using assms by (simp_all add: as_i64_def Let_def)
    have a: "i64_check (int ?u * 4) = Some (int ?u * 4)" using assms by (simp add: i64_check_def)
    obtain b where b: "i64_div (int ?u * 4) 3 = Some b" "\<bar>b\<bar> = \<bar>int ?u * 4\<bar> div 3" "0 \<le> b"
      using i64_div_bound [of 3 "int ?u * 4"] assms by auto
    have b_le: "b - int ?g \<le> int ?g" "- int ?g \<le> b - int ?g" using b(2,3) assms(1) by linarith+
    then have c: "i64_check (b - int ?g) = Some (b - int ?g)" using assms(2) by (simp add: i64_check_def)
    have "\<bar>b - int ?g\<bar> \<le> int ?g" using b_le by linarith
    moreover obtain q where q: "i64_div (b - int ?g) (int d) = Some q" "\<bar>q\<bar> = \<bar>b - int ?g\<bar> div int d"
      using i64_div_bound [of "int d" "b - int ?g"] assms(2,3) calculation by auto
    ultimately have "\<bar>q\<bar> \<le> int (?g div d)" using assms(3) by (simp add: zdiv_int zdiv_mono1)
    then have bound: "int ?g - int (?g div d) \<le> int ?g + q" "int ?g + q \<le> int ?g + int (?g div d)" by linarith+
    have nonneg: "0 \<le> int ?g + q" using bound(1) g by linarith
    have "int ?g + int (?g div d) < 2 ^ 62" using sum unfolding of_nat_add [symmetric] by simp
    then have top: "int ?g + q < 2 ^ 63" using bound(2) by simp
    have "i64_check (int ?g + q) = Some (int ?g + q)" using nonneg top by (simp add: i64_check_def)
    then have "next_gas_limit d parent fl ceil = Some (nat (int ?g + q))"
      using 3 nonneg unfolding next_gas_limit_def Let_def i by (simp add: a b(1) c q(1))
    moreover have "?g - ?g div d \<le> nat (int ?g + q)" "nat (int ?g + q) \<le> ?g + ?g div d"
      using bound nonneg by linarith+
    ultimately show ?thesis by blast
  qed
qed

lemma verify_parent_gas:
  assumes "verify_parent blake2b h parent d = Err (InvalidGasLimit bounds)"
  shows "h_gas_limit h < h_gas_limit parent - h_gas_limit parent div d \<or> h_gas_limit parent + h_gas_limit parent div d < h_gas_limit h"
proof -
  have "(if h_parent_hash h = replicate 32 0 then Ok ()
        else unless_panic (header_hash blake2b parent) (\<lambda>(_, hash).
          if hash \<noteq> h_parent_hash h then Err (InvalidParentHash (Mismatch hash (h_parent_hash h))) else Ok ())) \<noteq> Err (InvalidGasLimit bounds)"
    by (auto simp: unless_panic_def split: option.splits)
  then show ?thesis
    using assms unfolding verify_parent_def Let_def unless_panic_def checked_div_def u256_sub_def u256_add_def
    by (simp add: try_ok_def u64_add_def split: outcome.splits if_splits)
qed

text \<open>
  C22 (a produced gas limit is accepted). The gas limit that a block producer derives from the parent is
  computed without an overflow and never fails the check of the gas limit against the parent, whatever
  the targets are; the parent used no more gas than its limit, which is below \<open>2 ^ 61\<close>.
\<close>

theorem gas_limit_accepted:
  assumes "h_gas_used parent \<le> h_gas_limit parent" and "h_gas_limit parent < 2 ^ 61"
    and "0 < mp_gas_limit_bound_divisor p" and "mp_gas_limit_bound_divisor p < 2 ^ 63"
  shows "\<exists>h'. set_gas_limit_from_parent p h parent gas_floor_target gas_ceil_target = Some h' \<and>
    (\<forall>bounds. verify_parent blake2b h' parent (mp_gas_limit_bound_divisor p) \<noteq> Err (InvalidGasLimit bounds))"
proof -
  let ?d = "mp_gas_limit_bound_divisor p"
  obtain g where g: "next_gas_limit ?d parent gas_floor_target gas_ceil_target = Some g"
      "h_gas_limit parent - h_gas_limit parent div ?d \<le> g" "g \<le> h_gas_limit parent + h_gas_limit parent div ?d"
    using next_gas_limit_bounds [OF assms] by blast
  have lim: "h_gas_limit (set_gas_limit g h) = g" by (simp add: set_gas_limit_def note_dirty_def)
  have "verify_parent blake2b (set_gas_limit g h) parent ?d \<noteq> Err (InvalidGasLimit bounds)" for bounds
    using verify_parent_gas [of blake2b "set_gas_limit g h" parent ?d bounds] g(2,3) unfolding lim by linarith
  then show ?thesis using g(1) by (simp add: set_gas_limit_from_parent_def)
qed

theorem gas_limit_accepted_witness:
  "\<exists>h'. set_gas_limit_from_parent \<lparr>mp_gas_limit_bound_divisor = 1024, mp_min_gas_limit = 0, mp_maximum_extra_data_size = 0\<rparr>
       header_default (header_default\<lparr>h_gas_limit := 3000000, h_gas_used := 3000000\<rparr>) 1 5000000 = Some h' \<and>
     verify_parent (\<lambda>b. b) h' (header_default\<lparr>h_gas_limit := 3000000, h_gas_used := 3000000\<rparr>) 1024 \<noteq>
       Err (InvalidGasLimit (OutOfBounds None None 0))"
  using gas_limit_accepted [of "header_default\<lparr>h_gas_limit := 3000000, h_gas_used := 3000000\<rparr>"
      "\<lparr>mp_gas_limit_bound_divisor = 1024, mp_min_gas_limit = 0, mp_maximum_extra_data_size = 0\<rparr>" header_default 1 5000000 "\<lambda>b. b"]
  by auto

subsection \<open>Views and decoded headers\<close>

lemma trusted_val_at_views:
  assumes "views bss r" and "i < length bss" and "dec (bss ! i) = x"
  shows "trusted_val_at dec r i = unwrap x"
  using read_framed(1) [of bss r i] assms
  by (simp add: trusted_val_at_def trusted_at_def trusted_as_val_def views_def list_all_iff unwrap_def)

lemma hv_seals_views:
  assumes "views bss r" and "\<And>i. i \<in> set is \<Longrightarrow> i < length bss \<and> vec_decode (bss ! i) = Ok (f i)"
  shows "hv_seals r is = Some (map f is)"
  using assms(2) by (induction "is") (auto simp: trusted_val_at_views [OF assms(1)] unwrap_def)

lemma views_header:
  assumes "fits32 (list_enc (concat (header_encs With h)))"
  shows "views (header_encs With h) (rlp_new (list_enc (concat (header_encs With h))))"
  using views_values [of "[[seal_type_to_u8 (seal_type_or_default (h_seal_type h))], be_min (h_number h),
         h_parent_hash h, h_author h, h_state_root h, h_transactions_root h, h_receipts_root h,
         h_log_bloom h, difficulty_buffer h, h_extra_data h, be_min (h_gas_used h), be_min (h_gas_limit h),
         be_min (h_timestamp h)] @ h_seal h"] assms
  by (simp only: header_encs_def seal_mode.case)



text \<open>A header on the wire whose number field has nine bytes.\<close>

definition wide_number_fields :: "bytes list" where
  "wide_number_fields = [[1], be_min (2 ^ 64), replicate 32 0, replicate 32 0, replicate 32 0, replicate 32 0, replicate 32 0,
     replicate 256 0, [0, 0], [], [], [], []]"

lemma wide_number_views:
  "views (map data_enc wide_number_fields) (rlp_new (list_enc (concat (map data_enc wide_number_fields))))"
proof (rule views_values, rule fits32_sum)
  have "length (be_min (2 ^ 64)) \<le> 9" by (rule length_be_min_le) simp
  then show "sum_list (map length wide_number_fields) + 5 * length wide_number_fields + 5 < 2 ^ 32"
    by (simp add: wide_number_fields_def)
qed

text \<open>
  C24 (a header that its view cannot read). The decoder of headers reads the number as a 256-bit integer and
  keeps the low 64 bits, the view reads it as a 64-bit integer and panics otherwise: bytes that decode
  to a header with the number 0 make the view of the same bytes panic.
\<close>

theorem view_panics_on_decoded:
  "\<exists>bs h. header_decode blake2b bs = Ok h \<and> h_number h = 0 \<and> hv_number (rlp_new bs) = None"
proof -
  let ?bss = "map data_enc wide_number_fields" and ?bs = "list_enc (concat (map data_enc wide_number_fields))"
  note V = wide_number_views
  have len: "length ?bss = 13" by (simp add: wide_number_fields_def)
  have all_fit: "list_all (\<lambda>b. fits32 b) ?bss"
    using V fits32_concat_elem [of ?bss] by (simp add: views_def list_all_iff)
  have "be_size (2 ^ 64) \<le> 32" "\<not> be_size (2 ^ 64) \<le> 8" by (simp_all add: be_size_le_iff)
  then have u: "uint_decode 32 (?bss ! 1) = Ok (2 ^ 64)" "\<And>n. u_decode 8 (?bss ! 1) \<noteq> Ok n"
    using all_fit by (auto simp: wide_number_fields_def uint_decode_iff u_decode_iff)
  have seal_type: "seal_type_decode (?bss ! 0) = Ok PoW"
    using seal_type_roundtrip [of PoW] by (simp add: wide_number_fields_def)
  have zero: "uint_decode 32 (data_enc []) = Ok 0" using uint_decode_iff [of "[]" 32 0] all_fit be_min_iff [of "[]" 0] by (simp add: wide_number_fields_def)
  have dec: "hash_decode 32 (?bss ! 2) = Ok (replicate 32 0)" "hash_decode 32 (?bss ! 3) = Ok (replicate 32 0)"
      "hash_decode 32 (?bss ! 4) = Ok (replicate 32 0)" "hash_decode 32 (?bss ! 5) = Ok (replicate 32 0)"
      "hash_decode 32 (?bss ! 6) = Ok (replicate 32 0)" "hash_decode 256 (?bss ! 7) = Ok (replicate 256 0)"
      "vec_decode (?bss ! 8) = Ok [0, 0]" "vec_decode (?bss ! 9) = Ok []" "vec_decode (?bss ! 10) = Ok []"
      "vec_decode (?bss ! 11) = Ok []" "uint_decode 32 (?bss ! 12) = Ok 0"
    using all_fit zero by (simp_all add: wide_number_fields_def hash_rlp.dec_enc vec_rlp.dec_enc)
  have seals: "decode_seals (length wide_number_fields - 13) 13 r = Ok []" for r by (simp add: wide_number_fields_def)
  have "\<exists>h. header_decode blake2b ?bs = Ok h \<and> h_number h = low_u64 (2 ^ 64)"
    unfolding header_decode_def using V
    apply -
    apply (intro exI conjI)
     apply ((rule at_field_Ok, assumption, simp add: wide_number_fields_def, (rule dec | rule u(1) | rule seal_type))+)
     apply (rule views_item_count, assumption)
     apply (simp only: length_map seals map_ok_simps outcome.inject)
    apply simp
    done
  moreover have "hv_number (rlp_new ?bs) = None"
    using trusted_val_at_views [OF V, of 1 "u_decode 8"] u(2) len
    by (cases "u_decode 8 (?bss ! 1)") (auto simp: hv_number_def unwrap_def)
  ultimately show ?thesis by (auto simp: low_u64_def)
qed

text \<open>A block with one transaction, and a proof-of-stake header for it.\<close>

definition sample_header :: header where
  "sample_header = header_default\<lparr>h_seal_type := Some PoS, h_seal := [[], [], []]\<rparr>"

definition sample_params :: machine_params where
  "sample_params = \<lparr>mp_gas_limit_bound_divisor = 1024, mp_min_gas_limit = 0, mp_maximum_extra_data_size = 32\<rparr>"

definition sample_block :: bytes where
  "sample_block = list_enc (data_enc [] @ list_enc (sealed_enc (plain_transaction 10)))"

lemma list_enc_fits: "length p + 5 < 2 ^ 32 \<Longrightarrow> fits32 (list_enc p)"
  using length_list_enc_le [of p] by simp

lemma sample_length: "length (sealed_enc (plain_transaction 10)) \<le> 500"
proof -
  define vs where "vs = unsigned_values (ut_unsigned (plain_transaction 10)) (replicate 8 0) @ [replicate 96 1] @
    beacon_values (ut_unsigned (plain_transaction 10))"
  have m: "length (be_min 5) \<le> 1" "length (be_min 7) \<le> 1" "length (be_min 10) \<le> 1" "length (be_min 1) \<le> 1"
      "length (be_min 21000) \<le> 2" by (intro length_be_min_le; simp)+
  have v: "vs = [be_min 5, replicate 32 1, be_min 7, [], replicate 8 0, be_min 21000, be_min 10, be_min 1, replicate 96 1]"
    by (simp add: vs_def unsigned_values_def beacon_values_def plain_transaction_def transaction_new_def number_bytes_def
        long_bytes_def action_bytes_def)
  have d: "length (data_enc v) \<le> length v + 5" if "v \<in> set vs" for v
    using that m by (intro length_data_enc_le) (auto simp: v)
  then have "length (concat (map data_enc vs)) \<le> 195"
    using m d [of "be_min 5"] d [of "replicate 32 1"] d [of "be_min 7"] d [of "[]"] d [of "replicate 8 0"]
      d [of "be_min 21000"] d [of "be_min 10"] d [of "be_min 1"] d [of "replicate 96 1"]
    by (simp add: v)
  then show ?thesis
    using length_list_enc_le [of "concat (map data_enc vs)"] by (simp add: sealed_enc_def vs_def plain_transaction_def)
qed

lemma sample_reads:
  "snd (rlp_at (rlp_new sample_block) 1) = Ok (rlp_new (list_enc (sealed_enc (plain_transaction 10))))"
  "snd (rlp_iter (rlp_new (list_enc (sealed_enc (plain_transaction 10))))) = [rlp_new (sealed_enc (plain_transaction 10))]"
proof -
  let ?u = "plain_transaction 10"
  define vs where "vs = unsigned_values (ut_unsigned ?u) (ut_timestamp ?u) @ [ut_sig ?u] @ beacon_values (ut_unsigned ?u)"
  have tree: "sealed_enc ?u = item_enc (Seq (map Data vs))" "list_enc (sealed_enc ?u) = item_enc (Seq [Seq (map Data vs)])"
    by (simp_all add: sealed_enc_def vs_def comp_def)
  have fits: "fits32 (sealed_enc ?u)" "fits32 (list_enc (sealed_enc ?u))" "fits32 sample_block"
    using sample_length length_list_enc_le [of "sealed_enc ?u"] list_enc_fits [of "sealed_enc ?u"]
      list_enc_fits [of "data_enc [] @ list_enc (sealed_enc ?u)"] length_data_enc_le [of "[]"]
    by (simp_all add: sample_block_def)
  have framed: "framed (data_enc [])" "framed (list_enc (sealed_enc ?u))" "framed (sealed_enc ?u)"
    using framed_data [of "[]"] length_data_enc_le [of "[]"] framed_item [of "Seq (map Data vs)"]
      framed_item [of "Seq [Seq (map Data vs)]"] fits(1,2) tree by simp_all
  show "snd (rlp_at (rlp_new sample_block) 1) = Ok (rlp_new (list_enc (sealed_enc ?u)))"
    using read_framed(1) [of "[data_enc [], list_enc (sealed_enc ?u)]" "rlp_new sample_block" 1] framed fits(3) coherent_new
    by (fastforce simp: sample_block_def)
  show "snd (rlp_iter (rlp_new (list_enc (sealed_enc ?u)))) = [rlp_new (sealed_enc ?u)]"
    using read_framed(3) [of "[sealed_enc ?u]" "rlp_new (list_enc (sealed_enc ?u))"] framed(3) fits(2) coherent_new by simp
qed

lemma sample_basic: "verify_block_basic (\<lambda>b. b) sample_params None sample_header sample_block = Ok ()"
proof -
  let ?u = "plain_transaction 10"
  let ?v = "?u\<lparr>ut_unsigned := read_back (ut_unsigned ?u), ut_hash := sealed_enc ?u\<rparr>"
  have dec: "unverified_decode (\<lambda>b. b) (sealed_enc ?u) = Ok ?v"
    using decode_sealed [OF plain_transaction_ok(1,2), of 10 "\<lambda>b. b"] by simp
  have "verify_basic ?v = Ok ()"
    by (simp add: verify_basic_Ok plain_transaction_def transaction_new_def read_back_def is_gas_limit_valid_def
        gas_required_def max_gas_limit_def gas_constants)
  then have "verify_transaction_basic None ?v (Some 0) = Ok ()" by (simp add: verify_transaction_basic_def is_allowed_type_def)
  moreover have "h_number sample_header = 0" by (simp add: sample_header_def header_default_def)
  moreover have "verify_header_params sample_params sample_header = Ok ()" "engine_verify_block_basic (\<lambda>b. b) sample_header = Ok ()"
    by (simp_all add: verify_header_params_def engine_verify_block_basic_def energy_consumed_validate_def sample_header_def
        sample_params_def header_default_def seal_fields_def)
  ultimately show ?thesis by (simp add: verify_block_basic_def sample_reads sample_reads(1) [simplified] dec)
qed

theorem phases_compose_witness:
  "verify_block_basic (\<lambda>b. b) sample_params None sample_header sample_block = Ok () \<and>
   verify_block_unordered (\<lambda>b. b) (\<lambda>_ _ _. True) (\<lambda>_ _ _. True) sample_header sample_block \<noteq> Panic \<and>
   (\<exists>ts. bv_transactions (\<lambda>b. b) (rlp_new sample_block) = Some ts)"
  using phases_compose [OF sample_basic, of "\<lambda>_ _ _. True" "\<lambda>_ _ _. True"] sample_basic by blast

end
