(* ===== verification/Bloom_Chain.thy ===== *)
theory Bloom_Chain
  imports Prelude "HOL-Library.AList" "HOL-Library.Monad_Syntax"
begin

unbundle bit_operations_syntax

text \<open>
  The log bloom index: \<^verbatim>\<open>util/ethbloom\<close> (the 2048-bit bloom filter) and \<^verbatim>\<open>util/bloomchain\<close>
  (the multi-level index over the blooms of the canonical blocks that log queries search).

  \<^item> A bloom is the byte array of \<^verbatim>\<open>Bloom\<close>, 256 bytes; positions, managers, configurations and
    groups are records with the fields of the structs. A \<^verbatim>\<open>HashMap\<close> that is built and iterated
    is an association list with distinct keys, a database is a partial function.
  \<^item> \<^verbatim>\<open>BloomChain\<close> reads a \<^verbatim>\<open>BloomDatabase\<close> and only returns the entries to write. The locale
    \<open>bloom_db\<close> is that interface together with the write-back; the grouped database that the
    block chain uses (\<^verbatim>\<open>GroupDatabaseBridge\<close>, \<^verbatim>\<open>BloomGroupChain\<close>) interprets it.
  \<^item> Block numbers are natural numbers: products of an index with a level size never exceed the
    block range rounded up to a top-level entry, and the sizes themselves are checked when the
    manager is built.
\<close>

subsection \<open>Bloom filters (\<^verbatim>\<open>util/ethbloom/src/lib.rs\<close>)\<close>

type_synonym bloom = "u8 list"

definition BLOOM_BITS :: nat where "BLOOM_BITS = 3"

definition BLOOM_SIZE :: nat where "BLOOM_SIZE = 256"

definition bloom_default :: bloom where
  "bloom_default = replicate BLOOM_SIZE 0"

definition bloom_log2 :: "nat \<Rightarrow> nat" where
  "bloom_log2 x = (if x \<le> 1 then 0 else 64 - leading_zeros 64 x)"

datatype bloom_input = Raw bytes | Hash bytes

definition input_hash :: "(bytes \<Rightarrow> bytes) \<Rightarrow> bloom_input \<Rightarrow> bytes" where
  "input_hash blake2b input = (case input of Raw raw \<Rightarrow> blake2b raw | Hash h \<Rightarrow> h)"

definition bloom_is_empty :: "bloom \<Rightarrow> bool" where
  "bloom_is_empty b \<longleftrightarrow> list_all (\<lambda>x. x = 0) b"

definition contains_bloom :: "bloom \<Rightarrow> bloom \<Rightarrow> bool" where
  "contains_bloom s b \<longleftrightarrow> list_all2 (\<lambda>x y. x AND y = y) s b"

definition accrue_bloom :: "bloom \<Rightarrow> bloom \<Rightarrow> bloom" where
  "accrue_bloom s b = map2 (\<lambda>x y. x OR y) s b"

text \<open>One pass of the unrolled loop: \<open>bloom_bytes\<close> bytes of the hash, starting at \<open>ptr\<close>, give
  the index of the bit to set.\<close>

definition bloom_index :: "bytes \<Rightarrow> nat \<Rightarrow> nat \<Rightarrow> nat \<Rightarrow> nat" where
  "bloom_index hash bloom_bytes bits_mask ptr =
     fold (\<lambda>i index. push_bit 8 index OR unat (hash ! (ptr + i))) [0..<bloom_bytes] 0 AND bits_mask"

definition set_bloom_bit :: "nat \<Rightarrow> nat \<Rightarrow> bloom \<Rightarrow> bloom" where
  "set_bloom_bit m index s =
     s[m - 1 - index div 8 := s ! (m - 1 - index div 8) OR push_bit (index mod 8) 1]"

definition bloom_accrue :: "bytes \<Rightarrow> bloom \<Rightarrow> bloom option" where
  "bloom_accrue hash s =
     (let p = BLOOM_BITS;
          m = length s;
          bloom_bits = m * 8;
          bits_mask = bloom_bits - 1;
          bloom_bytes = (bloom_log2 bloom_bits + 7) div 8
      in if m AND (m - 1) \<noteq> 0 then None
         else if \<not> p * bloom_bytes \<le> length hash then None
         else Some (fold (\<lambda>i. set_bloom_bit m (bloom_index hash bloom_bytes bits_mask (i * bloom_bytes)))
                      [0..<3] s))"

definition bloom_of_input :: "(bytes \<Rightarrow> bytes) \<Rightarrow> bloom_input \<Rightarrow> bloom option" where
  "bloom_of_input blake2b input = bloom_accrue (input_hash blake2b input) bloom_default"

definition contains_input :: "(bytes \<Rightarrow> bytes) \<Rightarrow> bloom \<Rightarrow> bloom_input \<Rightarrow> bool option" where
  "contains_input blake2b s input =
     do { b \<leftarrow> bloom_of_input blake2b input; Some (contains_bloom s b) }"

subsection \<open>Positions (\<^verbatim>\<open>bloomchain/src/position\<close>, \<^verbatim>\<open>group/position\<close>)\<close>

record position =
  p_level :: nat
  p_index :: nat

record manager =
  index_size :: nat
  level_sizes :: "nat list"

text \<open>\<^verbatim>\<open>scan\<close> with the running product, which overflows past \<^verbatim>\<open>usize\<close>.\<close>

fun scan_sizes :: "nat \<Rightarrow> nat \<Rightarrow> nat \<Rightarrow> nat list option" where
  "scan_sizes k acc 0 = Some []"
| "scan_sizes k acc (Suc n) =
     (if acc * k \<le> usize_max then map_option (\<lambda>r. acc * k # r) (scan_sizes k (acc * k) n) else None)"

definition manager_new :: "nat \<Rightarrow> nat \<Rightarrow> manager option" where
  "manager_new k levels =
     (if levels = 0 then None
      else do {
        sizes \<leftarrow> scan_sizes k 1 (levels - 1);
        Some \<lparr>index_size = k, level_sizes = 1 # sizes\<rparr>
      })"

definition level_size :: "manager \<Rightarrow> nat \<Rightarrow> nat" where
  "level_size m level = level_sizes m ! level"

definition position_of :: "manager \<Rightarrow> nat \<Rightarrow> nat \<Rightarrow> position" where
  "position_of m block_number level =
     \<lparr>p_level = level, p_index = block_number div level_size m level\<rparr>"

definition lower_level_positions :: "manager \<Rightarrow> position \<Rightarrow> position list" where
  "lower_level_positions m index =
     (if p_level index = 0 then []
      else (let new_level = p_level index - 1; offset = index_size m * p_index index
            in map (\<lambda>i. \<lparr>p_level = new_level, p_index = offset + i\<rparr>) [0..<index_size m]))"

definition manager_levels :: "manager \<Rightarrow> nat" where
  "manager_levels m = length (level_sizes m)"

definition max_level :: "manager \<Rightarrow> nat" where
  "max_level m = length (level_sizes m) - 1"

subsection \<open>The chain of blooms (\<^verbatim>\<open>bloomchain/src/chain.rs\<close>)\<close>

text \<open>A range carries its two ends; \<^verbatim>\<open>BloomChain\<close> reads the end as included.\<close>

type_synonym block_range = "nat \<times> nat"

primrec blocks :: "manager \<Rightarrow> (position \<Rightarrow> bloom option) \<Rightarrow> block_range \<Rightarrow> bloom \<Rightarrow> nat \<Rightarrow> nat
    \<Rightarrow> nat list option" where
  "blocks m bloom_at rng bloom 0 offset =
     (case bloom_at (position_of m offset 0) of
        None \<Rightarrow> None
      | Some level_bloom \<Rightarrow> if contains_bloom level_bloom bloom then Some [offset] else None)"
| "blocks m bloom_at rng bloom (Suc level) offset =
     (let index = position_of m offset (Suc level) in
      case bloom_at index of
        None \<Rightarrow> None
      | Some level_bloom \<Rightarrow>
          if \<not> contains_bloom level_bloom bloom then None
          else (let from_position = position_of m (fst rng) level;
                    to_position = position_of m (snd rng) level
                in Some (concat (List.map_filter (blocks m bloom_at rng bloom level)
                     (map (\<lambda>li. p_index li * level_size m level)
                       (filter (\<lambda>li. p_index li \<ge> p_index from_position
                                   \<and> p_index li \<le> p_index to_position)
                         (lower_level_positions m index)))))))"

definition chain_insert :: "manager \<Rightarrow> (position \<Rightarrow> bloom option) \<Rightarrow> nat \<Rightarrow> bloom
    \<Rightarrow> (position \<times> bloom) list" where
  "chain_insert m bloom_at number bloom =
     fold (\<lambda>level result.
             let pos = position_of m number level;
                 new_bloom = (case bloom_at pos of
                                Some old_bloom \<Rightarrow> accrue_bloom old_bloom bloom
                              | None \<Rightarrow> bloom)
             in AList.update pos new_bloom result)
       [0..<manager_levels m] []"

text \<open>The three loops of \<^verbatim>\<open>replace\<close>: the new blooms and the resets at level 0, then the entries
  above the new blooms, level by level, each the union of its children.\<close>

definition replace_base :: "manager \<Rightarrow> block_range \<Rightarrow> bloom list \<Rightarrow> (position \<times> bloom) list" where
  "replace_base m rng blooms =
     fold (\<lambda>reset_number. AList.update (position_of m reset_number 0) bloom_default)
       [fst rng + length blooms ..< snd rng + 1]
       (fold (\<lambda>(i, bloom). AList.update (position_of m (fst rng + i) 0) bloom)
         (enumerate 0 blooms) [])"

definition overlay :: "(position \<times> bloom) list \<Rightarrow> (position \<Rightarrow> bloom option) \<Rightarrow> position \<Rightarrow> bloom option"
  where "overlay result bloom_at i = (case map_of result i of Some b \<Rightarrow> Some b | None \<Rightarrow> bloom_at i)"

definition children_union :: "manager \<Rightarrow> (position \<Rightarrow> bloom option) \<Rightarrow> (position \<times> bloom) list
    \<Rightarrow> position \<Rightarrow> bloom" where
  "children_union m bloom_at result index =
     fold (\<lambda>bloom acc. accrue_bloom acc bloom)
       (List.map_filter (overlay result bloom_at) (lower_level_positions m index))
       bloom_default"

definition replace_level :: "manager \<Rightarrow> (position \<Rightarrow> bloom option) \<Rightarrow> nat \<Rightarrow> nat \<Rightarrow> nat
    \<Rightarrow> (position \<times> bloom) list \<Rightarrow> (position \<times> bloom) list" where
  "replace_level m bloom_at start n level result =
     fold (\<lambda>i result.
             let index = position_of m (start + i) level
             in AList.update index (children_union m bloom_at result index) result)
       [0..<n] result"

definition chain_replace :: "manager \<Rightarrow> (position \<Rightarrow> bloom option) \<Rightarrow> block_range \<Rightarrow> bloom list
    \<Rightarrow> (position \<times> bloom) list" where
  "chain_replace m bloom_at rng blooms =
     fold (replace_level m bloom_at (fst rng) (length blooms)) [1..<manager_levels m]
       (replace_base m rng blooms)"

definition with_bloom :: "manager \<Rightarrow> (position \<Rightarrow> bloom option) \<Rightarrow> block_range \<Rightarrow> bloom \<Rightarrow> nat list"
  where
  "with_bloom m bloom_at rng bloom =
     (let top = max_level m;
          size = level_size m top;
          from_position = position_of m (fst rng) top;
          to_position = position_of m (snd rng) top
      in fold (\<lambda>index result.
                 case blocks m bloom_at rng bloom top (size * index) of
                   Some bs \<Rightarrow> result @ bs
                 | None \<Rightarrow> result)
           [p_index from_position ..< p_index to_position + 1] [])"

text \<open>\<^verbatim>\<open>filter\<close> collects into a \<^verbatim>\<open>HashSet\<close> and sorts.\<close>

definition chain_filter :: "manager \<Rightarrow> (position \<Rightarrow> bloom option) \<Rightarrow> block_range \<Rightarrow> bloom list \<Rightarrow> nat list"
  where
  "chain_filter m bloom_at rng bloom_possibilities =
     sort (remdups (concat (map (with_bloom m bloom_at rng) bloom_possibilities)))"

subsection \<open>Groups of blooms (\<^verbatim>\<open>bloomchain/src/group\<close>)\<close>

record bloom_config =
  levels :: nat
  elements_per_index :: nat

definition bloom_config_default :: bloom_config where
  "bloom_config_default = \<lparr>levels = 3, elements_per_index = 16\<rparr>"

record group_position =
  g_level :: nat
  g_index :: nat

record position_in_group =
  pg_group :: group_position
  pg_number :: nat

type_synonym bloom_group = "bloom list"
type_synonym group_db = "group_position \<Rightarrow> bloom_group option"

definition bloom_group_new :: "nat \<Rightarrow> bloom_group" where
  "bloom_group_new n = map (\<lambda>_. bloom_default) [0..<n]"

definition group_position_of :: "nat \<Rightarrow> position \<Rightarrow> group_position" where
  "group_position_of k pos = \<lparr>g_level = p_level pos, g_index = p_index pos div k\<rparr>"

definition position_in :: "nat \<Rightarrow> position \<Rightarrow> position_in_group" where
  "position_in k pos = \<lparr>pg_group = group_position_of k pos, pg_number = p_index pos mod k\<rparr>"

definition bridge_bloom_at :: "nat \<Rightarrow> group_db \<Rightarrow> position \<Rightarrow> bloom option" where
  "bridge_bloom_at k db pos =
     (let position = position_in k pos in
      do {
        group \<leftarrow> db (pg_group position);
        (if pg_number position < length group then Some (group ! pg_number position) else None)
      })"

text \<open>One step of the fold of \<^verbatim>\<open>group_blooms\<close>; \<open>None\<close> is its assertion on the size of a group.\<close>

definition group_bloom :: "nat \<Rightarrow> group_db \<Rightarrow> position \<times> bloom
    \<Rightarrow> (group_position \<times> bloom_group) list \<Rightarrow> (group_position \<times> bloom_group) list option" where
  "group_bloom k db pb acc =
     (let position = position_in k (fst pb);
          group = (case map_of acc (pg_group position) of
                     Some g \<Rightarrow> g
                   | None \<Rightarrow> (case db (pg_group position) of Some g \<Rightarrow> g | None \<Rightarrow> bloom_group_new k))
      in if k \<noteq> length group then None
         else Some (AList.update (pg_group position) (group[pg_number position := snd pb]) acc))"

fun group_blooms :: "nat \<Rightarrow> group_db \<Rightarrow> (position \<times> bloom) list
    \<Rightarrow> (group_position \<times> bloom_group) list \<Rightarrow> (group_position \<times> bloom_group) list option" where
  "group_blooms k db [] acc = Some acc"
| "group_blooms k db (pb # pbs) acc =
     do { acc' \<leftarrow> group_bloom k db pb acc; group_blooms k db pbs acc' }"

definition group_chain_insert :: "bloom_config \<Rightarrow> group_db \<Rightarrow> nat \<Rightarrow> bloom
    \<Rightarrow> (group_position \<times> bloom_group) list option" where
  "group_chain_insert c db number bloom =
     do {
       m \<leftarrow> manager_new (elements_per_index c) (levels c);
       group_blooms (elements_per_index c) db
         (chain_insert m (bridge_bloom_at (elements_per_index c) db) number bloom) []
     }"

definition group_chain_replace :: "bloom_config \<Rightarrow> group_db \<Rightarrow> block_range \<Rightarrow> bloom list
    \<Rightarrow> (group_position \<times> bloom_group) list option" where
  "group_chain_replace c db rng blooms =
     do {
       m \<leftarrow> manager_new (elements_per_index c) (levels c);
       group_blooms (elements_per_index c) db
         (chain_replace m (bridge_bloom_at (elements_per_index c) db) rng blooms) []
     }"

definition group_with_bloom :: "bloom_config \<Rightarrow> group_db \<Rightarrow> block_range \<Rightarrow> bloom \<Rightarrow> nat list option"
  where
  "group_with_bloom c db rng bloom =
     do {
       m \<leftarrow> manager_new (elements_per_index c) (levels c);
       Some (with_bloom m (bridge_bloom_at (elements_per_index c) db) rng bloom)
     }"

definition group_filter :: "bloom_config \<Rightarrow> group_db \<Rightarrow> block_range \<Rightarrow> bloom list \<Rightarrow> nat list option"
  where
  "group_filter c db rng bloom_possibilities =
     do {
       m \<leftarrow> manager_new (elements_per_index c) (levels c);
       Some (chain_filter m (bridge_bloom_at (elements_per_index c) db) rng bloom_possibilities)
     }"

subsection \<open>The index in the block chain (\<^verbatim>\<open>core/src/blockchain/blockchain.rs\<close>)\<close>

text \<open>The groups on disk and the cache over them. A block import reads through the cache, writes
  both, and the cache manager may drop entries at any time. The narrowing of a group position to
  \<^verbatim>\<open>u8\<close> and \<^verbatim>\<open>u32\<close> in the database key is the identity below block \<open>2 ^ 36\<close>.\<close>

record blooms_store =
  blooms_cache :: group_db
  blooms_disk :: group_db

definition blooms_at :: "blooms_store \<Rightarrow> group_db" where
  "blooms_at st p = (case blooms_cache st p of Some g \<Rightarrow> Some g | None \<Rightarrow> blooms_disk st p)"

definition blooms_read :: "group_position \<Rightarrow> blooms_store \<Rightarrow> blooms_store" where
  "blooms_read p st =
     (case blooms_cache st p of
        Some g \<Rightarrow> st
      | None \<Rightarrow> (case blooms_disk st p of
                   Some g \<Rightarrow> st\<lparr>blooms_cache := (blooms_cache st)(p \<mapsto> g)\<rparr>
                 | None \<Rightarrow> st))"

definition blooms_evict :: "group_position \<Rightarrow> blooms_store \<Rightarrow> blooms_store" where
  "blooms_evict p st = st\<lparr>blooms_cache := (blooms_cache st)(p := None)\<rparr>"

definition accrue_bloom_group :: "bloom_group \<Rightarrow> bloom_group \<Rightarrow> bloom_group" where
  "accrue_bloom_group s other = map2 accrue_bloom s other @ drop (length other) s"

text \<open>\<^verbatim>\<open>prepare_update\<close> on a new best block: every updated group is merged into the cached one.\<close>

definition write_blooms_canon :: "(group_position \<times> bloom_group) list \<Rightarrow> blooms_store \<Rightarrow> blooms_store"
  where
  "write_blooms_canon update =
     fold (\<lambda>(key, group) st.
             let group' = (case blooms_cache st key of
                             Some cached \<Rightarrow> accrue_bloom_group cached group
                           | None \<Rightarrow> group)
             in \<lparr>blooms_cache = (blooms_cache st)(key \<mapsto> group'),
                 blooms_disk = (blooms_disk st)(key \<mapsto> group')\<rparr>)
       update"

text \<open>On a reorganisation the cache becomes the update, which overwrites the groups on disk.\<close>

definition write_blooms_branch :: "(group_position \<times> bloom_group) list \<Rightarrow> blooms_store \<Rightarrow> blooms_store"
  where
  "write_blooms_branch update st =
     \<lparr>blooms_cache = map_of update, blooms_disk = blooms_disk st ++ map_of update\<rparr>"

text \<open>The block location with the data \<^verbatim>\<open>prepare_block_blooms_update\<close> looks up for it: the number and
  the log bloom of the block; on a reorganisation the numbers of the common ancestor and of the
  old best block, the log blooms of the enacted blocks and of the block itself.\<close>

datatype bloom_location =
    BloomBranch
  | BloomCanon nat bloom
  | BloomReorg nat nat "bloom list" bloom

definition prepare_block_blooms_update :: "bloom_config \<Rightarrow> blooms_store \<Rightarrow> bloom_location
    \<Rightarrow> (group_position \<times> bloom_group) list option" where
  "prepare_block_blooms_update c st location =
     (case location of
        BloomBranch \<Rightarrow> Some []
      | BloomCanon number log_bloom \<Rightarrow>
          if bloom_is_empty log_bloom then Some []
          else group_chain_insert c (blooms_at st) number log_bloom
      | BloomReorg ancestor_number best_number enacted log_bloom \<Rightarrow>
          group_chain_replace c (blooms_at st) (ancestor_number + 1, best_number)
            (enacted @ [log_bloom]))"

definition prepare_update_blooms :: "bloom_location \<Rightarrow> (group_position \<times> bloom_group) list
    \<Rightarrow> blooms_store \<Rightarrow> blooms_store" where
  "prepare_update_blooms location update st =
     (case location of
        BloomBranch \<Rightarrow> st
      | BloomCanon _ _ \<Rightarrow> write_blooms_canon update st
      | BloomReorg _ _ _ _ \<Rightarrow> write_blooms_branch update st)"

definition import_blooms :: "bloom_config \<Rightarrow> bloom_location \<Rightarrow> blooms_store \<Rightarrow> blooms_store option"
  where
  "import_blooms c location st =
     do {
       update \<leftarrow> prepare_block_blooms_update c st location;
       Some (prepare_update_blooms location update st)
     }"

definition blocks_with_bloom :: "bloom_config \<Rightarrow> blooms_store \<Rightarrow> bloom \<Rightarrow> nat \<Rightarrow> nat \<Rightarrow> nat list option"
  where
  "blocks_with_bloom c st bloom from_block to_block =
     group_with_bloom c (blooms_at st) (from_block, to_block) bloom"

text \<open>A history of the store: block imports, reads that fill the cache, and evictions.\<close>

datatype bloom_event = Import bloom_location | Fill group_position | Evict group_position

fun run_blooms :: "bloom_config \<Rightarrow> bloom_event list \<Rightarrow> blooms_store \<Rightarrow> blooms_store option" where
  "run_blooms c [] st = Some st"
| "run_blooms c (Import loc # evs) st = do { st' \<leftarrow> import_blooms c loc st; run_blooms c evs st' }"
| "run_blooms c (Fill p # evs) st = run_blooms c evs (blooms_read p st)"
| "run_blooms c (Evict p # evs) st = run_blooms c evs (blooms_evict p st)"
subsection \<open>Bloom algebra\<close>

named_theorems bloom_simps \<open>sizes and containment of blooms\<close>

lemma length_bloom_default [bloom_simps]: "length bloom_default = BLOOM_SIZE"
  by (simp add: bloom_default_def)

lemma length_accrue_bloom [bloom_simps]:
  "length a = BLOOM_SIZE \<Longrightarrow> length b = BLOOM_SIZE \<Longrightarrow> length (accrue_bloom a b) = BLOOM_SIZE"
  by (simp add: accrue_bloom_def)

lemma contains_bloom_refl: "contains_bloom a a"
  by (simp add: contains_bloom_def list_all2_conv_all_nth)

lemma contains_bloom_trans: "contains_bloom a b \<Longrightarrow> contains_bloom b c \<Longrightarrow> contains_bloom a c"
proof -
  have step: "x AND z = z" if "x AND y = y" "y AND z = z" for x y z :: u8
    using and.assoc [of x y z] unfolding that by simp
  show "contains_bloom a b \<Longrightarrow> contains_bloom b c \<Longrightarrow> contains_bloom a c"
    unfolding contains_bloom_def by (rule list_all2_trans [OF step])
qed

lemma or_and_absorb: "(x OR y) AND x = x" "(x OR y) AND y = y" for x y :: u8
  by (auto intro!: bit_word_eqI simp: bit_simps)

lemma accrue_contains_left: "length a = length b \<Longrightarrow> contains_bloom (accrue_bloom a b) a"
  by (simp add: contains_bloom_def accrue_bloom_def list_all2_conv_all_nth or_and_absorb)

lemma accrue_contains_right: "length a = length b \<Longrightarrow> contains_bloom (accrue_bloom a b) b"
  by (simp add: contains_bloom_def accrue_bloom_def list_all2_conv_all_nth or_and_absorb)

lemma contains_bloom_length: "contains_bloom a b \<Longrightarrow> length a = length b"
  by (simp add: contains_bloom_def list_all2_lengthD)

lemma contains_nonempty: "contains_bloom b q \<Longrightarrow> \<not> bloom_is_empty q \<Longrightarrow> \<not> bloom_is_empty b"
  by (fastforce simp: contains_bloom_def bloom_is_empty_def list_all_length list_all2_conv_all_nth)

lemma contains_empty: "bloom_is_empty b \<Longrightarrow> length a = length b \<Longrightarrow> contains_bloom a b"
  by (simp add: contains_bloom_def bloom_is_empty_def list_all_length list_all2_conv_all_nth)

lemma contains_accrue:
  assumes "contains_bloom c a" "contains_bloom c b"
  shows "contains_bloom c (accrue_bloom a b)"
proof -
  have lub: "z AND (x OR y) = x OR y" if "z AND x = x" "z AND y = y" for x y z :: u8
    using that by (simp add: bit.conj_disj_distrib)
  show ?thesis
    using assms by (auto simp: contains_bloom_def accrue_bloom_def list_all2_conv_all_nth intro!: lub)
qed

lemma accrue_absorb: "contains_bloom b a \<Longrightarrow> accrue_bloom a b = b"
proof -
  have absorb: "x OR y = y" if "y AND x = x" for x y :: u8
  proof (rule bit_word_eqI)
    fix n
    have "bit x n \<Longrightarrow> bit y n" using that by (metis bit_and_iff)
    then show "bit (x OR y) n = bit y n" by (auto simp: bit_simps)
  qed
  show "contains_bloom b a \<Longrightarrow> accrue_bloom a b = b"
    by (auto simp: contains_bloom_def accrue_bloom_def list_all2_conv_all_nth list_eq_iff_nth_eq
        intro!: absorb)
qed

lemma bloom_default_empty: "bloom_is_empty bloom_default"
  by (simp add: bloom_default_def bloom_is_empty_def list_all_length)

lemma accrue_default: "length b = BLOOM_SIZE \<Longrightarrow> accrue_bloom bloom_default b = b"
  by (simp add: accrue_bloom_def bloom_default_def list_eq_iff_nth_eq)

lemma fold_accrue_length:
  "length acc = BLOOM_SIZE \<Longrightarrow> \<forall>b\<in>set bs. length b = BLOOM_SIZE
   \<Longrightarrow> length (fold (\<lambda>bloom acc. accrue_bloom acc bloom) bs acc) = BLOOM_SIZE"
  by (induction bs arbitrary: acc) (simp_all add: bloom_simps)

lemma fold_accrue_contains:
  "length acc = BLOOM_SIZE \<Longrightarrow> \<forall>b\<in>set bs. length b = BLOOM_SIZE
   \<Longrightarrow> contains_bloom (fold (\<lambda>bloom acc. accrue_bloom acc bloom) bs acc) acc
       \<and> (\<forall>b\<in>set bs. contains_bloom (fold (\<lambda>bloom acc. accrue_bloom acc bloom) bs acc) b)"
proof (induction bs arbitrary: acc)
  case Nil
  then show ?case by (simp add: contains_bloom_refl)
next
  case (Cons b bs)
  have len: "length (accrue_bloom acc b) = BLOOM_SIZE" "length acc = length b"
    using Cons.prems by (simp_all add: bloom_simps)
  note IH = Cons.IH [OF len(1)]
  show ?case
    using Cons.prems IH accrue_contains_left [OF len(2)] accrue_contains_right [OF len(2)]
    by (auto intro: contains_bloom_trans)
qed

lemma nth_update_if: "xs[i := x] ! j = (if i = j \<and> j < length xs then x else xs ! j)"
  by (cases "j < length xs"; cases "i = j") (simp_all add: nth_list_update list_update_beyond)

lemma or_mono:
  fixes x y z :: u8
  assumes "x AND y = y"
  shows "(x OR z) AND (y OR z) = y OR z"
proof (rule bit_word_eqI)
  fix n
  have "bit y n \<Longrightarrow> bit x n" using assms by (metis bit_and_iff)
  then show "bit ((x OR z) AND (y OR z)) n = bit (y OR z) n" by (auto simp: bit_simps)
qed

text \<open>A bloom that accrued an input contains it: \<open>set_bloom_bit\<close> is monotone.\<close>

lemma set_bloom_bit_mono:
  "contains_bloom a b \<Longrightarrow> contains_bloom (set_bloom_bit m i a) (set_bloom_bit m i b)"
  by (auto simp: contains_bloom_def set_bloom_bit_def list_all2_conv_all_nth nth_update_if or_mono)

lemma set_bloom_bit_grows: "contains_bloom (set_bloom_bit m i a) a"
  by (auto simp: contains_bloom_def set_bloom_bit_def list_all2_conv_all_nth nth_update_if
      or_and_absorb)

lemma fold_bits_mono:
  "contains_bloom a b \<Longrightarrow>
   contains_bloom (fold (\<lambda>i. set_bloom_bit m (f i)) xs a) (fold (\<lambda>i. set_bloom_bit m (f i)) xs b)"
  by (induction xs arbitrary: a b) (simp_all add: set_bloom_bit_mono)

lemma fold_bits_grows: "contains_bloom (fold (\<lambda>i. set_bloom_bit m (f i)) xs a) a"
proof (induction xs arbitrary: a)
  case (Cons x xs)
  show ?case using contains_bloom_trans [OF Cons.IH set_bloom_bit_grows] by simp
qed (simp add: contains_bloom_refl)

lemma contains_default: "length a = BLOOM_SIZE \<Longrightarrow> contains_bloom a bloom_default"
  by (simp add: contains_bloom_def bloom_default_def list_all2_conv_all_nth)

lemma bloom_256: "(256::nat) AND (256 - 1) = 0" "bloom_log2 (256 * 8) = 12"
proof -
  have "nbits 2048 = 12" using nbits_eqI [of 11 2048] by simp
  then show "bloom_log2 (256 * 8) = 12" by (simp add: bloom_log2_def leading_zeros_def)
qed simp

lemma bloom_accrue_256:
  assumes "length s = BLOOM_SIZE" "length h = 32"
  shows "bloom_accrue h s
    = Some (fold (\<lambda>i. set_bloom_bit 256 (bloom_index h 2 2047 (i * 2))) [0..<3] s)"
proof -
  have len: "length s = 256" using assms by (simp add: BLOOM_SIZE_def)
  have sizes: "256 * 8 - 1 = (2047::nat)" "(12 + 7) div 8 = (2::nat)" "(3::nat) * 2 \<le> 32" by simp_all
  show ?thesis
    unfolding bloom_accrue_def Let_def BLOOM_BITS_def len assms(2) bloom_256 sizes
    using sizes(3) by argo
qed

subsection \<open>Levels\<close>

lemma scan_sizes_Some: "scan_sizes k acc n = Some r \<Longrightarrow> r = map (\<lambda>i. acc * k ^ Suc i) [0..<n]"
proof (induction n arbitrary: acc r)
  case (Suc n)
  then obtain r' where r: "scan_sizes k (acc * k) n = Some r'" "r = acc * k # r'"
    by (auto split: if_splits)
  show ?case
    unfolding r(2) Suc.IH [OF r(1)]
    by (intro nth_equalityI) (auto simp: nth_Cons mult.assoc split: nat.split simp del: upt_Suc)
qed simp

definition manager_ok :: "manager \<Rightarrow> bool" where
  "manager_ok m \<longleftrightarrow> 0 < index_size m \<and> 0 < manager_levels m
     \<and> level_sizes m = map (\<lambda>l. index_size m ^ l) [0..<manager_levels m]"

lemma manager_new_ok: 
  assumes "manager_new k n = Some m" "0 < k"
  shows "manager_ok m \<and> index_size m = k \<and> manager_levels m = n"
proof -
  obtain r where r: "scan_sizes k 1 (n - 1) = Some r" "m = \<lparr>index_size = k, level_sizes = 1 # r\<rparr>" "n \<noteq> 0"
    using assms by (auto simp: manager_new_def split: if_splits Option.bind_splits)
  have "1 # r = map (\<lambda>l. k ^ l) [0..<n]"
    unfolding scan_sizes_Some [OF r(1)] using r(3)
    by (intro nth_equalityI) (auto simp: nth_Cons split: nat.split)
  then show ?thesis using r assms
    by (simp add: manager_ok_def manager_levels_def scan_sizes_Some [OF r(1)])
qed

lemma position_ok: 
  "manager_ok m \<Longrightarrow> l < manager_levels m
   \<Longrightarrow> position_of m n l = \<lparr>p_level = l, p_index = n div index_size m ^ l\<rparr>"
  unfolding manager_ok_def position_of_def level_size_def by (metis add_0 nth_map_upt diff_zero)

lemma level_size_ok: "manager_ok m \<Longrightarrow> l < manager_levels m \<Longrightarrow> level_size m l = index_size m ^ l"
  unfolding manager_ok_def level_size_def by (metis add_0 nth_map_upt diff_zero)

subsection \<open>The index invariant and the search\<close>

abbreviation pos_at :: "nat \<Rightarrow> nat \<Rightarrow> position" where
  "pos_at l i \<equiv> \<lparr>p_level = l, p_index = i\<rparr>"

text \<open>Every block bloom that is not empty is contained in the entries above it. Resets leave the
  bits of removed blocks in upper entries, so these may only be too large.\<close>

definition indexed :: "manager \<Rightarrow> (position \<Rightarrow> bloom option) \<Rightarrow> bool" where
  "indexed m db \<longleftrightarrow>
     (\<forall>n b. db (pos_at 0 n) = Some b \<longrightarrow> \<not> bloom_is_empty b \<longrightarrow>
        (\<forall>l < manager_levels m. \<exists>B. db (pos_at l (n div index_size m ^ l)) = Some B
           \<and> contains_bloom B b))"

definition sized :: "(position \<Rightarrow> bloom option) \<Rightarrow> bool" where
  "sized db \<longleftrightarrow> (\<forall>p b. db p = Some b \<longrightarrow> length b = BLOOM_SIZE)"

text \<open>The blooms of the blocks, as a linear scan reads them: an absent entry is the empty bloom.\<close>

definition block_bloom :: "(position \<Rightarrow> bloom option) \<Rightarrow> nat \<Rightarrow> bloom" where
  "block_bloom db n = (case db (pos_at 0 n) of Some b \<Rightarrow> b | None \<Rightarrow> bloom_default)"

lemma indexed_hit:
  assumes "indexed m db" "contains_bloom (block_bloom db n) q" "\<not> bloom_is_empty q"
    "l < manager_levels m"
  obtains B where "db (pos_at l (n div index_size m ^ l)) = Some B" "contains_bloom B q"
proof -
  have ne: "\<not> bloom_is_empty (block_bloom db n)"
    using assms(2,3) by (rule contains_nonempty)
  then have some: "db (pos_at 0 n) = Some (block_bloom db n)"
    by (auto simp: block_bloom_def bloom_default_empty split: option.splits)
  then obtain B where "db (pos_at l (n div index_size m ^ l)) = Some B"
      "contains_bloom B (block_bloom db n)"
    using assms(1,4) ne unfolding indexed_def by blast
  with that assms(2) show thesis by (blast intro: contains_bloom_trans)
qed

lemma concat_intervals:
  "concat (map (\<lambda>i. [i * w ..< Suc i * w]) [a ..< a + n]) = [a * w ..< (a + n) * w]"
proof (induction n)
  case (Suc n)
  have "[a * w ..< (a + n) * w] @ [(a + n) * w ..< (a + n) * w + w] = [a * w ..< (a + n) * w + w]"
    by (rule upt_add_eq_append [symmetric]) simp
  then show ?case using Suc by (simp add: add.commute)
qed simp

lemma filter_interval:
  fixes s e a b :: nat
  assumes "a \<le> s" "e < b"
  shows "filter (\<lambda>n. s \<le> n \<and> n \<le> e \<and> P n) [a..<b] = filter P [s..<Suc e]"
  by (rule sorted_distinct_set_unique) (use assms in \<open>auto simp: sorted_wrt_filter simp del: upt_Suc\<close>)

lemma concat_map_filter: "concat (List.map_filter f xs) = concat (map (\<lambda>x. case f x of None \<Rightarrow> [] | Some v \<Rightarrow> v) xs)"
  by (induction xs) (auto simp: List.map_filter_def split: option.split)

lemma concat_map_filtered:
  "(\<And>x. x \<in> set xs \<Longrightarrow> \<not> Q x \<Longrightarrow> g x = []) \<Longrightarrow> concat (map g (filter Q xs)) = concat (map g xs)"
  by (induction xs) auto

lemma filter_concat_map: "concat (map (\<lambda>i. filter P (f i)) xs) = filter P (concat (map f xs))"
  by (induction xs) auto

text \<open>The blocks found below one entry are those of its interval that the range and the bloom
  select, in order.\<close>

lemma blocks_found:
  assumes m: "manager_ok m" and inv: "indexed m db" and q: "\<not> bloom_is_empty q"
  shows "l < manager_levels m \<Longrightarrow> (l = 0 \<longrightarrow> s \<le> i \<and> i \<le> e) \<Longrightarrow>
    (case blocks m db (s, e) q l (i * index_size m ^ l) of None \<Rightarrow> [] | Some v \<Rightarrow> v)
    = filter (\<lambda>n. s \<le> n \<and> n \<le> e \<and> contains_bloom (block_bloom db n) q)
        [i * index_size m ^ l ..< Suc i * index_size m ^ l]"
proof (induction l arbitrary: i)
  case 0
  have "\<not> contains_bloom bloom_default q"
    using contains_nonempty [OF _ q] bloom_default_empty by blast
  with 0 show ?case by (auto simp: position_ok [OF m] block_bloom_def split: option.split)
next
  case (Suc l)
  let ?k = "index_size m"
  let ?P = "\<lambda>n. s \<le> n \<and> n \<le> e \<and> contains_bloom (block_bloom db n) q"
  let ?idx = "pos_at (Suc l) i"
  have k: "0 < ?k" using m by (simp add: manager_ok_def)
  have div: "n div ?k ^ Suc l = i" if "n \<in> set [i * ?k ^ Suc l ..< Suc i * ?k ^ Suc l]" for n
    using that k by (intro div_nat_eqI) (auto simp: mult.commute)
  have pos: "position_of m (i * ?k ^ Suc l) (Suc l) = ?idx"
    using position_ok [OF m Suc.prems(1)] k by simp
  have lm: "l < manager_levels m" using Suc.prems by simp
  show ?case
  proof (cases "\<exists>B. db ?idx = Some B \<and> contains_bloom B q")
    case False
    then have "\<not> ?P n" if "n \<in> set [i * ?k ^ Suc l ..< Suc i * ?k ^ Suc l]" for n
      using indexed_hit [OF inv _ q Suc.prems(1), of n] div [OF that] by metis
    then have none: "filter ?P [i * ?k ^ Suc l ..< Suc i * ?k ^ Suc l] = []"
      by (simp add: filter_empty_conv del: upt_Suc)
    have "blocks m db (s, e) q (Suc l) (i * ?k ^ Suc l) = None"
      using False by (auto simp: pos Let_def simp del: power_Suc split: option.split)
    with none show ?thesis by (simp del: power_Suc upt_Suc)
  next
    case True
    let ?f = "\<lambda>off. case blocks m db (s, e) q l off of None \<Rightarrow> [] | Some v \<Rightarrow> v"
    let ?Q = "\<lambda>j. s div ?k ^ l \<le> j \<and> j \<le> e div ?k ^ l"
    have low: "map p_index (lower_level_positions m ?idx) = [?k * i ..< ?k * i + ?k]"
      using map_add_upt [of "?k * i" ?k]
      by (simp add: lower_level_positions_def comp_def add.commute)
    have "(case blocks m db (s, e) q (Suc l) (i * ?k ^ Suc l) of None \<Rightarrow> [] | Some v \<Rightarrow> v)
      = concat (map ?f (map (\<lambda>j. j * ?k ^ l) (filter ?Q (map p_index (lower_level_positions m ?idx)))))"
      using True lm by (auto simp: pos Let_def concat_map_filter level_size_ok [OF m lm]
          position_ok [OF m lm] filter_map comp_def simp del: power_Suc)
    also have "\<dots> = concat (map (\<lambda>j. filter ?P [j * ?k ^ l ..< Suc j * ?k ^ l])
        (filter ?Q [?k * i ..< ?k * i + ?k]))"
      unfolding low map_map comp_def
    proof (intro arg_cong [of _ _ concat] map_cong refl)
      fix j assume "j \<in> set (filter ?Q [?k * i ..< ?k * i + ?k])"
      then show "?f (j * ?k ^ l) = filter ?P [j * ?k ^ l ..< Suc j * ?k ^ l]"
        by (intro Suc.IH lm) auto
    qed
    also have "\<dots> = concat (map (\<lambda>j. filter ?P [j * ?k ^ l ..< Suc j * ?k ^ l])
        [?k * i ..< ?k * i + ?k])"
    proof (rule concat_map_filtered)
      fix j assume "\<not> ?Q j"
      then have "Suc j \<le> s div ?k ^ l \<or> Suc (e div ?k ^ l) \<le> j" by auto
      then have "Suc j * ?k ^ l \<le> s \<or> e < j * ?k ^ l"
        using k by (metis div_less_iff_less_mult le_simps(3) less_eq_div_iff_mult_less_eq zero_less_power)
      then show "filter ?P [j * ?k ^ l ..< Suc j * ?k ^ l] = []"
        by (auto simp: filter_empty_conv)
    qed
    also have "\<dots> = filter ?P [i * ?k ^ Suc l ..< Suc i * ?k ^ Suc l]"
      unfolding filter_concat_map concat_intervals by (simp add: algebra_simps)
    finally show ?thesis .
  qed
qed

lemma fold_append: "fold (\<lambda>i r. case f i of Some bs \<Rightarrow> r @ bs | None \<Rightarrow> r) xs r0
    = r0 @ concat (map (\<lambda>i. case f i of None \<Rightarrow> [] | Some v \<Rightarrow> v) xs)"
  by (induction xs arbitrary: r0) (auto split: option.split)

lemma with_bloom_scan:
  assumes m: "manager_ok m" and inv: "indexed m db" and q: "\<not> bloom_is_empty q"
  shows "with_bloom m db (s, e) q
    = filter (\<lambda>n. contains_bloom (block_bloom db n) q) [s ..< Suc e]"
proof -
  let ?l = "max_level m"
  let ?w = "index_size m ^ ?l"
  let ?P = "\<lambda>n. s \<le> n \<and> n \<le> e \<and> contains_bloom (block_bloom db n) q"
  have l: "?l < manager_levels m"
    using m by (auto simp: manager_ok_def max_level_def manager_levels_def)
  have w: "0 < ?w" using m by (simp add: manager_ok_def)
  have "with_bloom m db (s, e) q
    = concat (map (\<lambda>i. case blocks m db (s, e) q ?l (i * ?w) of None \<Rightarrow> [] | Some v \<Rightarrow> v)
        [s div ?w ..< Suc (e div ?w)])"
    unfolding with_bloom_def Let_def fold_append
    by (simp add: level_size_ok [OF m l] position_ok [OF m l] mult.commute del: upt_Suc)
  also have "\<dots> = concat (map (\<lambda>i. filter ?P [i * ?w ..< Suc i * ?w]) [s div ?w ..< Suc (e div ?w)])"
    by (intro arg_cong [of _ _ concat] map_cong refl blocks_found [OF m inv q l])
      (auto simp del: upt_Suc)
  also have "\<dots> = filter (\<lambda>n. contains_bloom (block_bloom db n) q) [s ..< Suc e]"
  proof (cases "s div ?w \<le> Suc (e div ?w)")
    case True
    then obtain d where d: "Suc (e div ?w) = s div ?w + d" by (metis le_Suc_ex)
    have "e < Suc (e div ?w) * ?w" using w by (metis div_less_iff_less_mult lessI)
    then show ?thesis
      unfolding filter_concat_map d concat_intervals
      by (intro filter_interval) (auto simp: d [symmetric])
  next
    case False
    then have "e div ?w < s div ?w" by simp
    then have "e < s" by (meson div_le_mono leD leI)
    with False show ?thesis by simp
  qed
  finally show ?thesis .
qed

subsection \<open>What the operations write\<close>

lemma position_0: "manager_ok m \<Longrightarrow> position_of m n 0 = pos_at 0 n"
  by (simp add: position_ok manager_ok_def)

lemma chain_insert_lookup:
  assumes m: "manager_ok m"
  shows "map_of (chain_insert m db n b) (pos_at l i) =
    (if l < manager_levels m \<and> i = n div index_size m ^ l
     then Some (case db (pos_at l i) of Some old \<Rightarrow> accrue_bloom old b | None \<Rightarrow> b) else None)"
proof -
  have "j \<le> manager_levels m \<Longrightarrow>
    map_of (fold (\<lambda>level. let pos = position_of m n level in AList.update pos
        (case db pos of Some old \<Rightarrow> accrue_bloom old b | None \<Rightarrow> b)) [0..<j] []) (pos_at l i) =
    (if l < j \<and> i = n div index_size m ^ l
     then Some (case db (pos_at l i) of Some old \<Rightarrow> accrue_bloom old b | None \<Rightarrow> b) else None)" for j
    by (induction j) (auto simp: position_ok [OF m] Let_def update_conv')
  from this [of "manager_levels m"] show ?thesis by (simp add: chain_insert_def Let_def)
qed

lemma replace_base_lookup:
  assumes m: "manager_ok m"
  shows "map_of (replace_base m (s, e) bs) (pos_at l i) =
    (if l \<noteq> 0 \<or> i < s then None
     else if i < s + length bs then Some (bs ! (i - s))
     else if i \<le> e then Some bloom_default else None)"
proof -
  let ?ins = "\<lambda>bs. fold (\<lambda>(j, bloom). AList.update (position_of m (s + j) 0) bloom) (enumerate 0 bs) []"
  have ins: "map_of (?ins bs) (pos_at l i) =
    (if l = 0 \<and> s \<le> i \<and> i < s + length bs then Some (bs ! (i - s)) else None)" for bs
    by (induction bs rule: rev_induct)
      (auto simp: enumerate_append_eq position_0 [OF m] update_conv' nth_append)
  have resets: "map_of (fold (\<lambda>n. AList.update (position_of m n 0) bloom_default) [a..<b] r) (pos_at l i) =
    (if l = 0 \<and> a \<le> i \<and> i < b then Some bloom_default else map_of r (pos_at l i))" for a b r
    by (induction b) (auto simp: position_0 [OF m] update_conv' not_less_eq_eq)
  show ?thesis unfolding replace_base_def fst_conv snd_conv resets ins by auto
qed

lemma map_filter_cong: "(\<And>x. x \<in> set xs \<Longrightarrow> f x = g x) \<Longrightarrow> List.map_filter f xs = List.map_filter g xs"
  by (induction xs) (auto simp: List.map_filter_def)

lemma children_union_cong:
  assumes "\<And>i. map_of r (pos_at (l - 1) i) = map_of r' (pos_at (l - 1) i)"
  shows "children_union m db r (pos_at l x) = children_union m db r' (pos_at l x)"
  unfolding children_union_def
  by (intro arg_cong [of _ _ "\<lambda>l. fold _ l bloom_default"] map_filter_cong)
    (auto simp: lower_level_positions_def overlay_def assms [simplified] split: if_splits)

lemma replace_level_lookup:
  assumes m: "manager_ok m" and l: "0 < l" "l < manager_levels m"
  shows "map_of (replace_level m db s n l r) (pos_at l' i) =
    (if l' = l \<and> (\<exists>j<n. i = (s + j) div index_size m ^ l)
     then Some (children_union m db r (pos_at l i)) else map_of r (pos_at l' i))"
proof (induction n arbitrary: l' i)
  case 0
  then show ?case by (simp add: replace_level_def)
next
  case (Suc n)
  let ?r = "replace_level m db s n l r"
  let ?x = "(s + n) div index_size m ^ l"
  have below: "map_of ?r (pos_at (l - 1) i) = map_of r (pos_at (l - 1) i)" for i
    unfolding Suc.IH using l by auto
  have "replace_level m db s (Suc n) l r
    = AList.update (pos_at l ?x) (children_union m db ?r (pos_at l ?x)) ?r"
    by (simp add: replace_level_def Let_def position_ok [OF m l(2)])
  then have "map_of (replace_level m db s (Suc n) l r)
      = (map_of ?r)(pos_at l ?x \<mapsto> children_union m db r (pos_at l ?x))"
    by (simp add: update_conv' children_union_cong [OF below])
  then show ?case by (auto simp: Suc.IH less_Suc_eq)
qed

lemma chain_replace_lookup:
  assumes m: "manager_ok m"
  shows "map_of (chain_replace m db (s, e) bs) (pos_at l i) =
    (if l = 0 then map_of (replace_base m (s, e) bs) (pos_at 0 i)
     else if l < manager_levels m \<and> (\<exists>j<length bs. i = (s + j) div index_size m ^ l)
     then Some (children_union m db (chain_replace m db (s, e) bs) (pos_at l i)) else None)"
proof -
  let ?b = "replace_base m (s, e) bs"
  define F where "F = (\<lambda>n. fold (replace_level m db s (length bs)) [1..<Suc n] ?b)"
  have F: "Suc n \<le> manager_levels m \<Longrightarrow> map_of (F n) (pos_at l i) =
    (if l = 0 then map_of ?b (pos_at 0 i)
     else if l < Suc n \<and> (\<exists>j<length bs. i = (s + j) div index_size m ^ l)
     then Some (children_union m db (F n) (pos_at l i)) else None)" for n l i
  proof (induction n arbitrary: l i)
    case 0
    then show ?case by (simp add: F_def replace_base_lookup [OF m])
  next
    case (Suc n)
    have step: "F (Suc n) = replace_level m db s (length bs) (Suc n) (F n)"
      by (simp add: F_def)
    have look: "map_of (F (Suc n)) (pos_at l i) =
      (if l = Suc n \<and> (\<exists>j<length bs. i = (s + j) div index_size m ^ Suc n)
       then Some (children_union m db (F n) (pos_at (Suc n) i)) else map_of (F n) (pos_at l i))" for l i
      unfolding step using replace_level_lookup [OF m, of "Suc n"] Suc.prems by simp
    have same: "children_union m db (F (Suc n)) (pos_at l i) = children_union m db (F n) (pos_at l i)"
      if "l \<noteq> 0" "l \<le> Suc n" for l i
      by (rule children_union_cong) (use that in \<open>auto simp: look\<close>)
    show ?case
      using Suc.IH [of l i] Suc.prems same [of l i] same [of "Suc n" i] unfolding look [of l i]
      by (auto simp: less_Suc_eq simp del: power_Suc)
  qed
  have "chain_replace m db (s, e) bs = F (manager_levels m - 1)"
    using m by (simp add: F_def chain_replace_def manager_ok_def del: upt_Suc)
  with F [of "manager_levels m - 1" l i] m show ?thesis by (auto simp: manager_ok_def)
qed

lemma distinct_writes:
  "distinct (map fst (chain_insert m db n b))" "distinct (map fst (chain_replace m db rng bs))"
proof -
  have upd: "distinct (map fst (fold (\<lambda>x. AList.update (f x) (g x)) xs r))"
    if "distinct (map fst r)" for f :: "'c \<Rightarrow> position" and g :: "'c \<Rightarrow> bloom" and xs r
    using that by (induction xs arbitrary: r) (simp_all add: distinct_update)
  have upd2: "distinct (map fst (fold (\<lambda>x r. AList.update (f x) (g x r) r) xs r))"
    if "distinct (map fst r)" for f :: "'c \<Rightarrow> position" and g :: "'c \<Rightarrow> _ \<Rightarrow> bloom" and xs r
    using that by (induction xs arbitrary: r) (simp_all add: distinct_update)
  show "distinct (map fst (chain_insert m db n b))"
    unfolding chain_insert_def Let_def by (rule upd) simp
  have "distinct (map fst (replace_base m rng bs))"
    unfolding replace_base_def case_prod_unfold by (intro upd) simp
  moreover have "distinct (map fst (fold (replace_level m db s n) ls r))"
    if "distinct (map fst r)" for s n ls r
    using that by (induction ls arbitrary: r) (simp_all add: replace_level_def Let_def upd2)
  ultimately show "distinct (map fst (chain_replace m db rng bs))"
    unfolding chain_replace_def by blast
qed

lemma in_children:
  "0 < index_size m \<Longrightarrow>
   pos_at l (n div index_size m ^ l) \<in> set (lower_level_positions m (pos_at (Suc l) (n div index_size m ^ Suc l)))"
proof -
  assume k: "0 < index_size m"
  let ?c = "n div index_size m ^ l"
  have up: "n div index_size m ^ Suc l = ?c div index_size m"
    by (simp only: power_Suc2 div_mult2_eq)
  show ?thesis
    unfolding up lower_level_positions_def Let_def set_map
    by (simp add: image_iff) (rule bexI [of _ "?c mod index_size m"], use k in auto)
qed

lemma set_map_filter: "b \<in> set (List.map_filter f xs) \<longleftrightarrow> (\<exists>x\<in>set xs. f x = Some b)"
  by (induction xs) (auto simp: List.map_filter_def split: option.splits)

lemma children_union_sized:
  assumes "\<And>i b. overlay r db (pos_at l i) = Some b \<Longrightarrow> length b = BLOOM_SIZE"
  shows "length (children_union m db r (pos_at (Suc l) x)) = BLOOM_SIZE"
    and "pos_at l i \<in> set (lower_level_positions m (pos_at (Suc l) x))
      \<Longrightarrow> overlay r db (pos_at l i) = Some b
      \<Longrightarrow> contains_bloom (children_union m db r (pos_at (Suc l) x)) b"
proof -
  let ?bs = "List.map_filter (overlay r db) (lower_level_positions m (pos_at (Suc l) x))"
  have bs: "\<forall>b\<in>set ?bs. length b = BLOOM_SIZE"
    using assms by (auto simp: set_map_filter lower_level_positions_def split: if_splits)
  show "length (children_union m db r (pos_at (Suc l) x)) = BLOOM_SIZE"
    unfolding children_union_def by (rule fold_accrue_length [OF length_bloom_default bs])
  assume "pos_at l i \<in> set (lower_level_positions m (pos_at (Suc l) x))"
      "overlay r db (pos_at l i) = Some b"
  then have "b \<in> set ?bs" unfolding set_map_filter by blast
  then show "contains_bloom (children_union m db r (pos_at (Suc l) x)) b"
    unfolding children_union_def using fold_accrue_contains [OF length_bloom_default bs] by blast
qed

lemma chain_replace_sized:
  assumes m: "manager_ok m" and db: "sized db" and bs: "\<forall>b\<in>set bs. length b = BLOOM_SIZE"
  shows "sized (map_of (chain_replace m db (s, e) bs))"
proof -
  let ?R = "chain_replace m db (s, e) bs"
  have "map_of ?R (pos_at l i) = Some b \<Longrightarrow> length b = BLOOM_SIZE" for l i b
  proof (induction l arbitrary: i b)
    case 0
    then show ?case
      using bs by (auto simp: chain_replace_lookup [OF m] replace_base_lookup [OF m] bloom_simps
          split: if_splits)
  next
    case (Suc l)
    have "overlay ?R db (pos_at l i) = Some c \<Longrightarrow> length c = BLOOM_SIZE" for i c
      using Suc.IH db by (auto simp: sized_def overlay_def split: option.splits)
    then have "length (children_union m db ?R (pos_at (Suc l) i)) = BLOOM_SIZE"
      by (rule children_union_sized(1))
    with Suc.prems show ?case
      unfolding chain_replace_lookup [OF m, of _ _ _ _ "Suc l"] by (simp split: if_splits)
  qed
  then show ?thesis unfolding sized_def by (metis position.cases)
qed

lemma replace_indexed:
  assumes m: "manager_ok m" and db: "sized db" "sized db'" and ix: "indexed m db"
    and bs: "\<forall>b\<in>set bs. length b = BLOOM_SIZE"
    and w_def: "w = chain_replace m db (a, e) bs"
    and hit: "\<And>p b. map_of w p = Some b \<Longrightarrow> db' p = Some b"
    and miss: "\<And>p. map_of w p = None \<Longrightarrow> db' p = db p \<or> db p = None \<and> db' p = Some bloom_default"
  shows "indexed m db'"
proof -
  let ?k = "index_size m"
  have k: "0 < ?k" using m by (simp add: manager_ok_def)
  have sz: "sized (map_of w)" unfolding w_def by (rule chain_replace_sized [OF m db(1) bs])
  have "\<exists>B. db' (pos_at l (x div ?k ^ l)) = Some B \<and> contains_bloom B c"
    if c: "db' (pos_at 0 x) = Some c" "\<not> bloom_is_empty c" and l: "l < manager_levels m" for x c l
    using l
  proof (induction l)
    case 0
    then show ?case using c by (simp add: contains_bloom_refl)
  next
    case (Suc l)
    let ?p = "pos_at (Suc l) (x div ?k ^ Suc l)"
    obtain C where C: "db' (pos_at l (x div ?k ^ l)) = Some C" "contains_bloom C c"
      using Suc by auto
    show ?case
    proof (cases "map_of w ?p")
      case (Some B)
      have B: "B = children_union m db w ?p"
        using Some unfolding w_def chain_replace_lookup [OF m, of _ _ _ _ "Suc l"]
        by (simp split: if_splits)
      have "overlay w db (pos_at l (x div ?k ^ l)) = Some C"
        using hit [of "pos_at l (x div ?k ^ l)"] miss [of "pos_at l (x div ?k ^ l)"] C
          contains_nonempty [OF C(2) c(2)] bloom_default_empty
        by (auto simp: overlay_def split: option.splits)
      moreover have "overlay w db (pos_at l i) = Some b \<Longrightarrow> length b = BLOOM_SIZE" for i b
        using sz db(1) by (auto simp: sized_def overlay_def split: option.splits)
      ultimately have "contains_bloom B C"
        unfolding B using in_children [OF k, of l x]
        by (intro children_union_sized(2)) simp_all
      then show ?thesis using hit [OF Some] C(2) by (blast intro: contains_bloom_trans)
    next
      case None
      then have out: "\<not> (a \<le> x \<and> x < a + length bs)"
        using Suc.prems unfolding w_def chain_replace_lookup [OF m, of _ _ _ _ "Suc l"]
        by (auto simp del: power_Suc split: if_splits) (metis add_diff_inverse_nat le_iff_add nat_add_left_cancel_less)
      have "map_of w (pos_at 0 x) = None"
        using out hit [of "pos_at 0 x"] c bloom_default_empty
        by (auto simp: w_def chain_replace_lookup [OF m] replace_base_lookup [OF m] split: if_splits)
      then have "db (pos_at 0 x) = Some c"
        using miss [of "pos_at 0 x"] c bloom_default_empty by auto
      then obtain B where "db ?p = Some B" "contains_bloom B c"
        using ix c(2) Suc.prems unfolding indexed_def by blast
      with miss [OF None] show ?thesis by auto
    qed
  qed
  then show ?thesis unfolding indexed_def by blast
qed

subsection \<open>The database interface\<close>

text \<open>
  What \<^verbatim>\<open>BloomChain\<close> relies on: a database of sized blooms that accepts the entries it returns.
  \<open>commit\<close> overwrites them, \<open>merge\<close> accrues them into what is there and is only used for entries
  that contain the old ones. An entry that was not written keeps its bloom, or turns from absent
  into empty when a neighbour in its group is written.
\<close>

locale bloom_db =
  fixes ok :: "nat \<Rightarrow> 's \<Rightarrow> bool"
    and bloom_at :: "nat \<Rightarrow> 's \<Rightarrow> position \<Rightarrow> bloom option"
    and commit :: "nat \<Rightarrow> (position \<times> bloom) list \<Rightarrow> 's \<Rightarrow> 's option"
    and merge :: "nat \<Rightarrow> (position \<times> bloom) list \<Rightarrow> 's \<Rightarrow> 's option"
  assumes bloom_sized: "ok k s \<Longrightarrow> sized (bloom_at k s)"
    and commit_law: "0 < k \<Longrightarrow> ok k s \<Longrightarrow> distinct (map fst w) \<Longrightarrow> sized (map_of w) \<Longrightarrow>
      \<exists>s'. commit k w s = Some s' \<and> ok k s'
        \<and> (\<forall>p b. map_of w p = Some b \<longrightarrow> bloom_at k s' p = Some b)
        \<and> (\<forall>p. map_of w p = None \<longrightarrow> bloom_at k s' p = bloom_at k s p
              \<or> bloom_at k s p = None \<and> bloom_at k s' p = Some bloom_default)"
    and merge_law: "0 < k \<Longrightarrow> ok k s \<Longrightarrow> distinct (map fst w) \<Longrightarrow> sized (map_of w) \<Longrightarrow>
      (\<And>p b old. map_of w p = Some b \<Longrightarrow> bloom_at k s p = Some old \<Longrightarrow> contains_bloom b old) \<Longrightarrow>
      commit k w s = Some s' \<Longrightarrow>
      \<exists>s''. merge k w s = Some s'' \<and> ok k s'' \<and> bloom_at k s'' = bloom_at k s'"
begin

definition index_inv :: "manager \<Rightarrow> 's \<Rightarrow> bool" where
  "index_inv m s \<longleftrightarrow> ok (index_size m) s \<and> indexed m (bloom_at (index_size m) s)"

lemma insert_grows:
  assumes m: "manager_ok m" and s: "ok (index_size m) s" and b: "length b = BLOOM_SIZE"
    and w: "map_of (chain_insert m (bloom_at (index_size m) s) n b) p = Some B"
  shows "length B = BLOOM_SIZE \<and> contains_bloom B b
    \<and> (\<forall>old. bloom_at (index_size m) s p = Some old \<longrightarrow> contains_bloom B old)"
proof -
  obtain l i where p: "p = pos_at l i" by (cases p) simp
  have len: "length old = BLOOM_SIZE" if "bloom_at (index_size m) s p = Some old" for old
    using bloom_sized [OF s] that by (auto simp: sized_def)
  show ?thesis
    using w b len unfolding p chain_insert_lookup [OF m]
    by (auto simp: bloom_simps accrue_contains_left accrue_contains_right contains_bloom_refl
        split: if_splits option.splits)
qed

lemma insert_step:
  assumes m: "manager_ok m" and inv: "index_inv m s" and b: "length b = BLOOM_SIZE"
  shows "\<exists>s'. merge (index_size m) (chain_insert m (bloom_at (index_size m) s) n b) s = Some s'
    \<and> index_inv m s'
    \<and> block_bloom (bloom_at (index_size m) s')
      = (block_bloom (bloom_at (index_size m) s))
          (n := accrue_bloom (block_bloom (bloom_at (index_size m) s) n) b)"
proof -
  let ?k = "index_size m" and ?db = "bloom_at (index_size m) s"
  let ?w = "chain_insert m ?db n b"
  have k: "0 < ?k" and L: "0 < manager_levels m" using m by (simp_all add: manager_ok_def)
  have s: "ok ?k s" and ix: "indexed m ?db" using inv by (simp_all add: index_inv_def)
  note grow = insert_grows [OF m s b]
  have sz: "sized (map_of ?w)" using grow by (auto simp: sized_def)
  obtain s0 where s0: "commit ?k ?w s = Some s0"
      and law: "\<forall>p b. map_of ?w p = Some b \<longrightarrow> bloom_at ?k s0 p = Some b"
        "\<forall>p. map_of ?w p = None \<longrightarrow> bloom_at ?k s0 p = ?db p
          \<or> ?db p = None \<and> bloom_at ?k s0 p = Some bloom_default"
    using commit_law [OF k s distinct_writes(1) sz] by blast
  obtain s' where s': "merge ?k ?w s = Some s'" "ok ?k s'" "bloom_at ?k s' = bloom_at ?k s0"
    using merge_law [OF k s distinct_writes(1) sz _ s0] grow by blast
  note hit = law(1) [rule_format, folded s'(3)] and miss = law(2) [rule_format, folded s'(3)]
  have up: "\<exists>B'. bloom_at ?k s' p = Some B' \<and> contains_bloom B' B" if "?db p = Some B" for p B
    using hit [of p] miss [of p] grow [of n p] that
    by (cases "map_of ?w p") (auto simp: contains_bloom_refl)
  have level: "\<exists>B. bloom_at ?k s' (pos_at l (n div ?k ^ l)) = Some B \<and> contains_bloom B b"
    if "l < manager_levels m" for l
    using hit grow that by (metis chain_insert_lookup [OF m])
  have n': "bloom_at ?k s' (pos_at 0 n) = Some (accrue_bloom (block_bloom ?db n) b)"
    using hit [of "pos_at 0 n"] L
    by (simp add: chain_insert_lookup [OF m] block_bloom_def accrue_default [OF b] split: option.splits)
  have other: "block_bloom (bloom_at ?k s') x = block_bloom ?db x" if "x \<noteq> n" for x
    using miss [of "pos_at 0 x"] that
    by (auto simp: chain_insert_lookup [OF m] block_bloom_def split: option.splits)
  have "indexed m (bloom_at ?k s')"
    unfolding indexed_def
  proof (intro allI impI)
    fix x c l
    assume c: "bloom_at ?k s' (pos_at 0 x) = Some c" "\<not> bloom_is_empty c" and l: "l < manager_levels m"
    let ?p = "pos_at l (x div ?k ^ l)"
    have old: "\<exists>B. bloom_at ?k s' ?p = Some B \<and> contains_bloom B (block_bloom ?db x)"
      if ne: "\<not> bloom_is_empty (block_bloom ?db x)"
      using indexed_hit [OF ix contains_bloom_refl ne l] up by (metis contains_bloom_trans)
    show "\<exists>B. bloom_at ?k s' ?p = Some B \<and> contains_bloom B c"
    proof (cases "x = n")
      case True
      obtain B where B: "bloom_at ?k s' ?p = Some B" "contains_bloom B b"
        using level [OF l] True by blast
      have "contains_bloom B (block_bloom ?db n)"
      proof (cases "bloom_is_empty (block_bloom ?db n)")
        case True
        moreover have "length (block_bloom ?db n) = BLOOM_SIZE"
          using bloom_sized [OF s] by (auto simp: block_bloom_def sized_def bloom_simps split: option.splits)
        ultimately show ?thesis using contains_empty contains_bloom_length [OF B(2)] b by metis
      qed (use old True B(1) in auto)
      then show ?thesis using B contains_accrue c(1) n' True by auto
    next
      case False
      then have "c = block_bloom ?db x" using other [OF False] c(1) by (simp add: block_bloom_def)
      then show ?thesis using old c(2) by simp
    qed
  qed
  moreover have "block_bloom (bloom_at ?k s')
      = (block_bloom ?db)(n := accrue_bloom (block_bloom ?db n) b)"
    using n' other by (auto simp: fun_eq_iff block_bloom_def)
  ultimately show ?thesis using s'(1,2) by (auto simp: index_inv_def)
qed

lemma replace_step:
  assumes m: "manager_ok m" and inv: "index_inv m s" and bs: "\<forall>b\<in>set bs. length b = BLOOM_SIZE"
  shows "\<exists>s'. commit (index_size m) (chain_replace m (bloom_at (index_size m) s) (a, e) bs) s = Some s'
    \<and> index_inv m s'
    \<and> block_bloom (bloom_at (index_size m) s')
      = (\<lambda>x. if a \<le> x \<and> x < a + length bs then bs ! (x - a)
             else if a \<le> x \<and> x \<le> e then bloom_default
             else block_bloom (bloom_at (index_size m) s) x)"
proof -
  let ?k = "index_size m" and ?db = "bloom_at (index_size m) s"
  let ?w = "chain_replace m ?db (a, e) bs"
  have k: "0 < ?k" using m by (simp add: manager_ok_def)
  have s: "ok ?k s" and ix: "indexed m ?db" using inv by (simp_all add: index_inv_def)
  obtain s' where s': "commit ?k ?w s = Some s'" "ok ?k s'"
      and hit: "\<And>p b. map_of ?w p = Some b \<Longrightarrow> bloom_at ?k s' p = Some b"
      and miss: "\<And>p. map_of ?w p = None \<Longrightarrow> bloom_at ?k s' p = ?db p
        \<or> ?db p = None \<and> bloom_at ?k s' p = Some bloom_default"
    using commit_law [OF k s distinct_writes(2) chain_replace_sized [OF m bloom_sized [OF s] bs]] by blast
  have "indexed m (bloom_at ?k s')"
    by (rule replace_indexed [OF m bloom_sized [OF s] bloom_sized [OF s'(2)] ix bs refl hit miss])
  moreover have "block_bloom (bloom_at ?k s') x =
      (if a \<le> x \<and> x < a + length bs then bs ! (x - a)
       else if a \<le> x \<and> x \<le> e then bloom_default else block_bloom ?db x)" for x
    using hit [of "pos_at 0 x"] miss [of "pos_at 0 x"]
    by (auto simp: block_bloom_def chain_replace_lookup [OF m] replace_base_lookup [OF m]
        split: if_splits option.splits)
  ultimately show ?thesis using s' by (auto simp: index_inv_def)
qed

end

subsection \<open>The grouped store implements the interface\<close>

definition groups_ok :: "nat \<Rightarrow> group_db \<Rightarrow> bool" where
  "groups_ok k db \<longleftrightarrow> (\<forall>p g. db p = Some g \<longrightarrow> length g = k \<and> (\<forall>b\<in>set g. length b = BLOOM_SIZE))"

definition store_ok :: "nat \<Rightarrow> blooms_store \<Rightarrow> bool" where
  "store_ok k st \<longleftrightarrow> groups_ok k (blooms_disk st) \<and> blooms_cache st \<subseteq>\<^sub>m blooms_disk st"

definition store_bloom_at :: "nat \<Rightarrow> blooms_store \<Rightarrow> position \<Rightarrow> bloom option" where
  "store_bloom_at k st = bridge_bloom_at k (blooms_at st)"

definition store_commit :: "nat \<Rightarrow> (position \<times> bloom) list \<Rightarrow> blooms_store \<Rightarrow> blooms_store option" where
  "store_commit k w st =
     do { u \<leftarrow> group_blooms k (blooms_at st) w []; Some (write_blooms_branch u st) }"

definition store_merge :: "nat \<Rightarrow> (position \<times> bloom) list \<Rightarrow> blooms_store \<Rightarrow> blooms_store option" where
  "store_merge k w st =
     do { u \<leftarrow> group_blooms k (blooms_at st) w []; Some (write_blooms_canon u st) }"

lemma bridge_eq:
  "bridge_bloom_at k db (pos_at l i) =
     (case db \<lparr>g_level = l, g_index = i div k\<rparr> of
        Some g \<Rightarrow> if i mod k < length g then Some (g ! (i mod k)) else None | None \<Rightarrow> None)"
  by (simp add: bridge_bloom_at_def position_in_def group_position_of_def split: option.split)

lemma store_ok_disk: "store_ok k st \<Longrightarrow> blooms_at st = blooms_disk st"
  by (auto simp: store_ok_def blooms_at_def map_le_def fun_eq_iff dom_def split: option.splits)

lemma bridge_update:
  assumes k: "0 < k" and g: "length g = k"
    and old: "case db \<lparr>g_level = l, g_index = i div k\<rparr> of Some g' \<Rightarrow> g' = g | None \<Rightarrow> g = bloom_group_new k"
    and db'_def: "db' = db(\<lparr>g_level = l, g_index = i div k\<rparr> \<mapsto> g[i mod k := b])"
  shows "bridge_bloom_at k db' (pos_at l i) = Some b"
    and "p \<noteq> pos_at l i \<Longrightarrow> bridge_bloom_at k db' p = bridge_bloom_at k db p
      \<or> bridge_bloom_at k db p = None \<and> bridge_bloom_at k db' p = Some bloom_default"
proof -
  show "bridge_bloom_at k db' (pos_at l i) = Some b"
    using k g by (simp add: bridge_eq db'_def)
  assume p: "p \<noteq> pos_at l i"
  obtain l' j where pe: "p = pos_at l' j" by (cases p) simp
  show "bridge_bloom_at k db' p = bridge_bloom_at k db p
      \<or> bridge_bloom_at k db p = None \<and> bridge_bloom_at k db' p = Some bloom_default"
  proof (cases "l' = l \<and> j div k = i div k")
    case True
    then have "j mod k \<noteq> i mod k" using p pe by (metis div_mult_mod_eq)
    moreover have "j mod k < k" using k by simp
    ultimately show ?thesis
      using True g old k unfolding pe bridge_eq db'_def
      by (auto simp: bloom_group_new_def split: option.splits)
  qed (auto simp: pe bridge_eq db'_def)
qed

lemma groups_ok_update:
  "groups_ok k db \<Longrightarrow> length g = k \<Longrightarrow> \<forall>b\<in>set g. length b = BLOOM_SIZE \<Longrightarrow> groups_ok k (db(p \<mapsto> g))"
  by (auto simp: groups_ok_def)

lemma group_bloom_step:
  assumes k: "0 < k" and ok: "groups_ok k (db ++ map_of acc)" and b: "length b = BLOOM_SIZE"
  shows "\<exists>acc'. group_bloom k db (p, b) acc = Some acc' \<and> groups_ok k (db ++ map_of acc')
    \<and> bridge_bloom_at k (db ++ map_of acc') p = Some b
    \<and> (\<forall>p'. p' \<noteq> p \<longrightarrow> bridge_bloom_at k (db ++ map_of acc') p' = bridge_bloom_at k (db ++ map_of acc) p'
         \<or> bridge_bloom_at k (db ++ map_of acc) p' = None
           \<and> bridge_bloom_at k (db ++ map_of acc') p' = Some bloom_default)"
proof -
  obtain l i where p: "p = pos_at l i" by (cases p) simp
  let ?gp = "\<lparr>g_level = l, g_index = i div k\<rparr>" and ?db = "db ++ map_of acc"
  define g where "g = (case ?db ?gp of Some g \<Rightarrow> g | None \<Rightarrow> bloom_group_new k)"
  have g: "length g = k" "\<forall>b\<in>set g. length b = BLOOM_SIZE"
    using ok by (auto simp: g_def groups_ok_def bloom_group_new_def bloom_simps split: option.splits)
  have g_alt: "g = (case map_of acc ?gp of Some g \<Rightarrow> g
      | None \<Rightarrow> (case db ?gp of Some g \<Rightarrow> g | None \<Rightarrow> bloom_group_new k))"
    by (auto simp: g_def map_add_def split: option.splits)
  let ?acc = "AList.update ?gp (g[i mod k := b]) acc"
  have step: "group_bloom k db (p, b) acc = Some ?acc"
    unfolding group_bloom_def Let_def p position_in_def group_position_of_def fst_conv snd_conv
      position.simps position_in_group.simps g_alt [symmetric] using g(1) by simp
  have db': "db ++ map_of ?acc = ?db(?gp \<mapsto> g[i mod k := b])"
    by (simp add: update_conv')
  have "case ?db ?gp of Some g' \<Rightarrow> g' = g | None \<Rightarrow> g = bloom_group_new k"
    by (simp add: g_def del: map_add_None map_add_Some_iff split: option.split)
  note upd = bridge_update [where db = ?db and b = b, OF k g(1) this refl]
  have ok': "groups_ok k (db ++ map_of ?acc)"
    unfolding db' using g b by (intro groups_ok_update ok) (auto dest: set_update_subset_insert [THEN subsetD])
  show ?thesis
    using step ok' upd(1) [folded db' p] upd(2) [folded db' p] by blast
qed

lemma group_blooms_law:
  assumes k: "0 < k"
  shows "groups_ok k (db ++ map_of acc) \<Longrightarrow> distinct (map fst w) \<Longrightarrow> \<forall>pb\<in>set w. length (snd pb) = BLOOM_SIZE
    \<Longrightarrow> \<exists>u. group_blooms k db w acc = Some u \<and> groups_ok k (db ++ map_of u)
      \<and> (\<forall>p b. map_of w p = Some b \<longrightarrow> bridge_bloom_at k (db ++ map_of u) p = Some b)
      \<and> (\<forall>p. map_of w p = None \<longrightarrow>
            bridge_bloom_at k (db ++ map_of u) p = bridge_bloom_at k (db ++ map_of acc) p
          \<or> bridge_bloom_at k (db ++ map_of acc) p = None
            \<and> bridge_bloom_at k (db ++ map_of u) p = Some bloom_default)"
proof (induction w arbitrary: acc)
  case (Cons pb w)
  obtain q c where pb: "pb = (q, c)" by (cases pb)
  obtain acc' where acc': "group_bloom k db pb acc = Some acc'" "groups_ok k (db ++ map_of acc')"
      "bridge_bloom_at k (db ++ map_of acc') q = Some c"
      and other: "\<And>p'. p' \<noteq> q \<Longrightarrow>
        bridge_bloom_at k (db ++ map_of acc') p' = bridge_bloom_at k (db ++ map_of acc) p'
         \<or> bridge_bloom_at k (db ++ map_of acc) p' = None
           \<and> bridge_bloom_at k (db ++ map_of acc') p' = Some bloom_default"
    using group_bloom_step [OF k Cons.prems(1), of c q] Cons.prems(3) pb by auto
  obtain u where u: "group_blooms k db w acc' = Some u" "groups_ok k (db ++ map_of u)"
      and hit: "\<And>p b. map_of w p = Some b \<Longrightarrow> bridge_bloom_at k (db ++ map_of u) p = Some b"
      and miss: "\<And>p. map_of w p = None \<Longrightarrow>
            bridge_bloom_at k (db ++ map_of u) p = bridge_bloom_at k (db ++ map_of acc') p
          \<or> bridge_bloom_at k (db ++ map_of acc') p = None
            \<and> bridge_bloom_at k (db ++ map_of u) p = Some bloom_default"
    using Cons.IH [OF acc'(2)] Cons.prems by auto
  have "map_of w q = None" using Cons.prems(2) pb by (simp add: map_of_eq_None_iff)
  then have q: "bridge_bloom_at k (db ++ map_of u) q = Some c" using miss [of q] acc'(3) by auto
  show ?case
  proof (intro exI [of _ u] conjI allI impI)
    show "group_blooms k db (pb # w) acc = Some u" using acc'(1) u(1) by simp
    show "groups_ok k (db ++ map_of u)" by (rule u(2))
    show "bridge_bloom_at k (db ++ map_of u) p = Some b" if "map_of (pb # w) p = Some b" for p b
      using that q hit by (auto simp: pb split: if_splits)
    show "bridge_bloom_at k (db ++ map_of u) p = bridge_bloom_at k (db ++ map_of acc) p
          \<or> bridge_bloom_at k (db ++ map_of acc) p = None
            \<and> bridge_bloom_at k (db ++ map_of u) p = Some bloom_default"
      if "map_of (pb # w) p = None" for p
      using that other [of p] miss [of p] by (auto simp: pb split: if_splits)
  qed
qed simp

lemma sized_map_of: "distinct (map fst w) \<Longrightarrow> sized (map_of w) \<Longrightarrow> \<forall>pb\<in>set w. length (snd pb) = BLOOM_SIZE"
  unfolding sized_def by (metis map_of_is_SomeI prod.collapse)

lemma bridge_sized: "groups_ok k db \<Longrightarrow> sized (bridge_bloom_at k db)"
  unfolding sized_def groups_ok_def bridge_bloom_at_def Let_def
  by (auto split: Option.bind_splits if_splits)

lemma group_blooms_distinct:
  "group_blooms k db w acc = Some u \<Longrightarrow> distinct (map fst acc) \<Longrightarrow> distinct (map fst u)"
  by (induction w arbitrary: acc)
    (auto simp: group_bloom_def Let_def distinct_update split: Option.bind_splits if_splits)

text \<open>Merging groups that contain the old ones into a coherent cache is overwriting them.\<close>

lemma accrue_group_absorb:
  assumes "length g = length h" "\<And>j. j < length g \<Longrightarrow> contains_bloom (h ! j) (g ! j)"
  shows "accrue_bloom_group g h = h"
  using assms by (auto simp: accrue_bloom_group_def list_eq_iff_nth_eq accrue_absorb)

lemma write_canon_overwrites:
  "distinct (map fst u) \<Longrightarrow> blooms_cache st \<subseteq>\<^sub>m blooms_disk st \<Longrightarrow>
   (\<And>p g h. map_of u p = Some h \<Longrightarrow> blooms_disk st p = Some g \<Longrightarrow> accrue_bloom_group g h = h) \<Longrightarrow>
   blooms_disk (write_blooms_canon u st) = blooms_disk st ++ map_of u
   \<and> blooms_cache (write_blooms_canon u st) \<subseteq>\<^sub>m blooms_disk (write_blooms_canon u st)"
proof (induction u arbitrary: st)
  case (Cons ph u)
  obtain p h where ph: "ph = (p, h)" by (cases ph)
  let ?st = "\<lparr>blooms_cache = (blooms_cache st)(p \<mapsto> h), blooms_disk = (blooms_disk st)(p \<mapsto> h)\<rparr>"
  have p: "map_of u p = None" using Cons.prems(1) by (simp add: ph map_of_eq_None_iff)
  have merged: "(case blooms_cache st p of Some c \<Rightarrow> accrue_bloom_group c h | None \<Rightarrow> h) = h"
    using Cons.prems(2) Cons.prems(3) [of p] by (auto simp: ph map_le_def dom_def split: option.split)
  have "write_blooms_canon (ph # u) st = write_blooms_canon u ?st"
    unfolding write_blooms_canon_def by (simp add: ph Let_def merged)
  moreover have "blooms_disk (write_blooms_canon u ?st) = blooms_disk ?st ++ map_of u
      \<and> blooms_cache (write_blooms_canon u ?st) \<subseteq>\<^sub>m blooms_disk (write_blooms_canon u ?st)"
  proof (rule Cons.IH)
    show "accrue_bloom_group g h' = h'" if "map_of u q = Some h'" "blooms_disk ?st q = Some g" for q g h'
      using Cons.prems(3) [of q h' g] p that by (auto simp: ph split: if_splits)
  qed (use Cons.prems in \<open>auto simp: ph map_le_def\<close>)
  moreover have "blooms_disk ?st ++ map_of u = blooms_disk st ++ map_of (ph # u)"
    using p by (auto simp: fun_eq_iff map_add_def ph split: option.splits)
  ultimately show ?case by metis
qed (simp add: write_blooms_canon_def)

lemma merged_groups_absorb:
  assumes k: "0 < k" and ok: "groups_ok k db" "groups_ok k (db ++ map_of u)"
    and gh: "map_of u p = Some h" "db p = Some g"
    and grows: "\<And>q. \<exists>B. bridge_bloom_at k (db ++ map_of u) q = Some B
      \<and> (\<forall>old. bridge_bloom_at k db q = Some old \<longrightarrow> contains_bloom B old)
      \<or> bridge_bloom_at k db q = None"
  shows "accrue_bloom_group g h = h"
proof (rule accrue_group_absorb)
  have h: "(db ++ map_of u) p = Some h" using gh by simp
  show "length g = length h" using ok gh(2) h by (auto simp: groups_ok_def)
  fix j assume j: "j < length g"
  then have jk: "j < k" and jh: "j < length h" using ok gh(2) h by (auto simp: groups_ok_def)
  let ?q = "pos_at (g_level p) (g_index p * k + j)"
  have p: "\<lparr>g_level = g_level p, g_index = (g_index p * k + j) div k\<rparr> = p" "(g_index p * k + j) mod k = j"
    using jk by simp_all
  have "bridge_bloom_at k (db ++ map_of u) ?q = Some (h ! j)" "bridge_bloom_at k db ?q = Some (g ! j)"
    unfolding bridge_eq p using gh h j jh by simp_all
  with grows [of ?q] show "contains_bloom (h ! j) (g ! j)" by auto
qed

lemma store_commit_law:
  assumes k: "0 < k" and ok: "store_ok k st" and w: "distinct (map fst w)" "sized (map_of w)"
  obtains u where "group_blooms k (blooms_at st) w [] = Some u" "distinct (map fst u)"
    "store_commit k w st = Some (write_blooms_branch u st)" "store_ok k (write_blooms_branch u st)"
    "blooms_at (write_blooms_branch u st) = blooms_disk st ++ map_of u"
    "\<And>p b. map_of w p = Some b \<Longrightarrow> store_bloom_at k (write_blooms_branch u st) p = Some b"
    "\<And>p. map_of w p = None \<Longrightarrow> store_bloom_at k (write_blooms_branch u st) p = store_bloom_at k st p
       \<or> store_bloom_at k st p = None \<and> store_bloom_at k (write_blooms_branch u st) p = Some bloom_default"
proof -
  let ?db = "blooms_disk st"
  have at: "blooms_at st = ?db" and g: "groups_ok k (?db ++ map_of [])"
    using store_ok_disk [OF ok] ok by (simp_all add: store_ok_def)
  obtain u where u: "group_blooms k ?db w [] = Some u" "groups_ok k (?db ++ map_of u)"
      and hit: "\<forall>p b. map_of w p = Some b \<longrightarrow> bridge_bloom_at k (?db ++ map_of u) p = Some b"
      and miss: "\<forall>p. map_of w p = None \<longrightarrow>
            bridge_bloom_at k (?db ++ map_of u) p = bridge_bloom_at k ?db p
          \<or> bridge_bloom_at k ?db p = None
            \<and> bridge_bloom_at k (?db ++ map_of u) p = Some bloom_default"
    using group_blooms_law [OF k g w(1) sized_map_of [OF w]] by auto
  have ok': "store_ok k (write_blooms_branch u st)"
    using u(2) by (simp add: store_ok_def write_blooms_branch_def map_le_map_add)
  have at': "blooms_at (write_blooms_branch u st) = ?db ++ map_of u"
    using store_ok_disk [OF ok'] by (simp add: write_blooms_branch_def)
  show thesis
    by (rule that [of u])
      (use u hit miss ok' at' group_blooms_distinct [OF u(1)] in \<open>auto simp: at store_commit_def store_bloom_at_def\<close>)
qed

interpretation log_db: bloom_db store_ok store_bloom_at store_commit store_merge
proof
  fix k st assume "store_ok k st"
  then show "sized (store_bloom_at k st)"
    unfolding store_bloom_at_def by (metis bridge_sized store_ok_def store_ok_disk)
next
  fix k st w
  assume "0 < k" "store_ok k st" "distinct (map fst w)" "sized (map_of w)"
  then show "\<exists>s'. store_commit k w st = Some s' \<and> store_ok k s'
        \<and> (\<forall>p b. map_of w p = Some b \<longrightarrow> store_bloom_at k s' p = Some b)
        \<and> (\<forall>p. map_of w p = None \<longrightarrow> store_bloom_at k s' p = store_bloom_at k st p
              \<or> store_bloom_at k st p = None \<and> store_bloom_at k s' p = Some bloom_default)"
    by (rule store_commit_law) blast
next
  fix k st w s'
  assume k: "0 < k" and ok: "store_ok k st" and w: "distinct (map fst w)" "sized (map_of w)"
    and grow: "\<And>p b old. map_of w p = Some b \<Longrightarrow> store_bloom_at k st p = Some old \<Longrightarrow> contains_bloom b old"
    and s': "store_commit k w st = Some s'"
  obtain u where u: "group_blooms k (blooms_at st) w [] = Some u" "distinct (map fst u)"
      "store_commit k w st = Some (write_blooms_branch u st)" "store_ok k (write_blooms_branch u st)"
      "blooms_at (write_blooms_branch u st) = blooms_disk st ++ map_of u"
    and hit: "\<And>p b. map_of w p = Some b \<Longrightarrow> store_bloom_at k (write_blooms_branch u st) p = Some b"
    and miss: "\<And>p. map_of w p = None \<Longrightarrow> store_bloom_at k (write_blooms_branch u st) p = store_bloom_at k st p
       \<or> store_bloom_at k st p = None \<and> store_bloom_at k (write_blooms_branch u st) p = Some bloom_default"
    using store_commit_law [OF k ok w] by blast
  let ?c = "write_blooms_canon u st"
  have at: "store_bloom_at k (write_blooms_branch u st) = bridge_bloom_at k (blooms_disk st ++ map_of u)"
      "store_bloom_at k st = bridge_bloom_at k (blooms_disk st)"
    by (simp_all add: store_bloom_at_def u(5) store_ok_disk [OF ok])
  have gs: "groups_ok k (blooms_disk st)" "groups_ok k (blooms_disk st ++ map_of u)"
    using ok u(4) by (simp_all add: store_ok_def write_blooms_branch_def)
  have grows: "\<exists>B. bridge_bloom_at k (blooms_disk st ++ map_of u) q = Some B
      \<and> (\<forall>old. bridge_bloom_at k (blooms_disk st) q = Some old \<longrightarrow> contains_bloom B old)
      \<or> bridge_bloom_at k (blooms_disk st) q = None" for q
    using hit [of q] miss [of q] grow [of q] unfolding at
    by (cases "map_of w q"; cases "bridge_bloom_at k (blooms_disk st) q") (auto simp: contains_bloom_refl)
  have c: "blooms_disk ?c = blooms_disk st ++ map_of u" "blooms_cache ?c \<subseteq>\<^sub>m blooms_disk ?c"
    using write_canon_overwrites [OF u(2), of st] merged_groups_absorb [OF k gs _ _ grows] ok
    by (auto simp: store_ok_def)
  have "store_ok k ?c" using c gs(2) by (simp add: store_ok_def)
  moreover have "store_bloom_at k ?c = store_bloom_at k s'"
    using s' u(3,5) c(1) by (auto simp: store_bloom_at_def store_ok_disk [OF calculation])
  ultimately show "\<exists>s''. store_merge k w st = Some s'' \<and> store_ok k s''
      \<and> store_bloom_at k s'' = store_bloom_at k s'"
    using u(1) by (simp add: store_merge_def)
qed

subsection \<open>Log queries over the history of the chain\<close>

text \<open>The blooms a history leaves, block by block: what a list of all block blooms would hold.\<close>

fun location_blooms :: "bloom_location \<Rightarrow> (nat \<Rightarrow> bloom) \<Rightarrow> nat \<Rightarrow> bloom" where
  "location_blooms BloomBranch f = f"
| "location_blooms (BloomCanon n b) f = f(n := accrue_bloom (f n) b)"
| "location_blooms (BloomReorg a best enacted b) f =
     (\<lambda>x. if a < x \<and> x \<le> a + Suc (length enacted) then (enacted @ [b]) ! (x - Suc a)
          else if a < x \<and> x \<le> best then bloom_default
          else f x)"

fun history_blooms :: "bloom_event list \<Rightarrow> (nat \<Rightarrow> bloom) \<Rightarrow> nat \<Rightarrow> bloom" where
  "history_blooms [] f = f"
| "history_blooms (Import loc # evs) f = history_blooms evs (location_blooms loc f)"
| "history_blooms (_ # evs) f = history_blooms evs f"

fun location_sized :: "bloom_location \<Rightarrow> bool" where
  "location_sized BloomBranch = True"
| "location_sized (BloomCanon n b) = (length b = BLOOM_SIZE)"
| "location_sized (BloomReorg a best enacted b) =
     list_all (\<lambda>c. length c = BLOOM_SIZE) (enacted @ [b])"

fun event_sized :: "bloom_event \<Rightarrow> bool" where
  "event_sized (Import loc) = location_sized loc"
| "event_sized _ = True"

definition blooms_empty :: blooms_store where
  "blooms_empty = \<lparr>blooms_cache = Map.empty, blooms_disk = Map.empty\<rparr>"

lemma store_cache_steps:
  assumes "store_ok k st"
  shows "store_ok k (blooms_read p st) \<and> blooms_at (blooms_read p st) = blooms_at st"
    and "store_ok k (blooms_evict p st) \<and> blooms_at (blooms_evict p st) = blooms_at st"
  using assms
  by (auto simp: store_ok_def blooms_read_def blooms_evict_def blooms_at_def map_le_def fun_eq_iff
      dom_def split: option.splits)

lemma block_bloom_sized: "sized db \<Longrightarrow> length (block_bloom db n) = BLOOM_SIZE"
  by (auto simp: block_bloom_def sized_def bloom_simps split: option.splits)

lemma accrue_empty: "bloom_is_empty b \<Longrightarrow> length a = length b \<Longrightarrow> accrue_bloom a b = a"
  by (auto simp: accrue_bloom_def bloom_is_empty_def list_all_length list_eq_iff_nth_eq)

lemma import_blooms_step:
  assumes m: "manager_new (elements_per_index c) (levels c) = Some m" and k: "0 < elements_per_index c"
    and inv: "log_db.index_inv m st" and loc: "location_sized loc"
  shows "\<exists>st'. import_blooms c loc st = Some st' \<and> log_db.index_inv m st'
    \<and> block_bloom (store_bloom_at (elements_per_index c) st')
      = location_blooms loc (block_bloom (store_bloom_at (elements_per_index c) st))"
proof -
  have mk: "manager_ok m" "index_size m = elements_per_index c"
    using manager_new_ok [OF m k] by simp_all
  show ?thesis
  proof (cases loc)
    case BloomBranch
    then show ?thesis using inv by (simp add: import_blooms_def prepare_block_blooms_update_def prepare_update_blooms_def)
  next
    case (BloomCanon n b)
    have sz: "sized (store_bloom_at (elements_per_index c) st)"
      using inv mk(2) log_db.bloom_sized by (auto simp: log_db.index_inv_def)
    show ?thesis
    proof (cases "bloom_is_empty b")
      case True
      then show ?thesis
        using inv BloomCanon loc block_bloom_sized [OF sz, of n]
        by (simp add: import_blooms_def prepare_block_blooms_update_def prepare_update_blooms_def
            write_blooms_canon_def accrue_empty fun_upd_idem)
    next
      case False
      have "import_blooms c loc st
        = store_merge (index_size m) (chain_insert m (store_bloom_at (index_size m) st) n b) st"
        using False by (simp add: BloomCanon import_blooms_def prepare_block_blooms_update_def
            prepare_update_blooms_def group_chain_insert_def m store_merge_def store_bloom_at_def mk(2))
      then show ?thesis
        using log_db.insert_step [OF mk(1) inv, of b n] loc BloomCanon mk(2) by auto
    qed
  next
    case (BloomReorg a best en b)
    have "import_blooms c loc st
      = store_commit (index_size m)
          (chain_replace m (store_bloom_at (index_size m) st) (a + 1, best) (en @ [b])) st"
      by (simp add: BloomReorg import_blooms_def prepare_block_blooms_update_def
          prepare_update_blooms_def group_chain_replace_def m store_commit_def store_bloom_at_def mk(2))
    moreover have "\<forall>c\<in>set (en @ [b]). length c = BLOOM_SIZE"
      using loc BloomReorg by (auto simp: list_all_iff)
    ultimately show ?thesis
      using log_db.replace_step [OF mk(1) inv, of "en @ [b]" "a + 1" best] mk(2)
      by (auto simp: BloomReorg fun_eq_iff)
  qed
qed

lemma run_blooms_inv:
  assumes m: "manager_new (elements_per_index c) (levels c) = Some m" and k: "0 < elements_per_index c"
  shows "log_db.index_inv m st \<Longrightarrow> list_all event_sized evs \<Longrightarrow>
    \<exists>st'. run_blooms c evs st = Some st' \<and> log_db.index_inv m st'
      \<and> block_bloom (store_bloom_at (elements_per_index c) st')
        = history_blooms evs (block_bloom (store_bloom_at (elements_per_index c) st))"
proof (induction evs arbitrary: st)
  case (Cons ev evs)
  have mk: "index_size m = elements_per_index c" using manager_new_ok [OF m k] by simp
  have cache: "log_db.index_inv m st'
      \<and> store_bloom_at (elements_per_index c) st' = store_bloom_at (elements_per_index c) st"
    if "store_ok (index_size m) st'" "blooms_at st' = blooms_at st" for st'
  proof -
    have "store_bloom_at k st' = store_bloom_at k st" for k
      by (simp add: store_bloom_at_def that(2))
    then show ?thesis using that(1) Cons.prems(1) by (simp add: log_db.index_inv_def)
  qed
  have ok: "store_ok (index_size m) st" using Cons.prems(1) by (simp add: log_db.index_inv_def)
  show ?case
  proof (cases ev)
    case (Import loc)
    then show ?thesis
      using import_blooms_step [OF m k Cons.prems(1), of loc] Cons.IH Cons.prems(2) by fastforce
  next
    case (Fill p)
    then show ?thesis
      using Cons.IH cache store_cache_steps(1) [OF ok, of p] Cons.prems(2) by fastforce
  next
    case (Evict p)
    then show ?thesis
      using Cons.IH cache store_cache_steps(2) [OF ok, of p] Cons.prems(2) by fastforce
  qed
qed simp

lemma empty_inv: "log_db.index_inv m blooms_empty" "block_bloom (store_bloom_at k blooms_empty) = (\<lambda>_. bloom_default)"
  by (auto simp: log_db.index_inv_def blooms_empty_def store_ok_def groups_ok_def indexed_def
      store_bloom_at_def blooms_at_def bridge_bloom_at_def block_bloom_def)

lemma chain_filter_scan:
  assumes m: "manager_ok m" and inv: "indexed m db" and qs: "list_all (\<lambda>q. \<not> bloom_is_empty q) qs"
  shows "chain_filter m db (s, e) qs
    = filter (\<lambda>n. list_ex (contains_bloom (block_bloom db n)) qs) [s ..< Suc e]"
proof -
  have "map (with_bloom m db (s, e)) qs
      = map (\<lambda>q. filter (\<lambda>n. contains_bloom (block_bloom db n) q) [s ..< Suc e]) qs"
    using qs with_bloom_scan [OF m inv] by (simp add: list_all_iff del: upt_Suc)
  then show ?thesis
    unfolding chain_filter_def
    by (intro sorted_distinct_set_unique)
      (auto simp: sorted_wrt_filter list_ex_iff simp del: upt_Suc)
qed


text \<open>Blooms have no false negatives. Accruing an input never panics, keeps every bit, and the
  bloom then reports the input as contained, for any hash function that returns 32 bytes.\<close>

theorem accrued_input_contained:
  assumes "length s = BLOOM_SIZE" "\<And>x. length (blake2b x) = 32" "\<And>h. input = Hash h \<Longrightarrow> length h = 32"
  shows "\<exists>s'. bloom_accrue (input_hash blake2b input) s = Some s' \<and> contains_bloom s' s
    \<and> contains_input blake2b s' input = Some True"
proof -
  have h: "length (input_hash blake2b input) = 32"
    using assms(2,3) by (auto simp: input_hash_def split: bloom_input.split)
  show ?thesis
    unfolding contains_input_def bloom_of_input_def bloom_accrue_256 [OF assms(1) h]
      bloom_accrue_256 [OF length_bloom_default h]
    by (auto simp del: upt_rec_numeral
        intro: fold_bits_grows fold_bits_mono [OF contains_default [OF assms(1)]])
qed

lemma contains_replicate:
  "contains_bloom (replicate BLOOM_SIZE a) (replicate BLOOM_SIZE b) \<longleftrightarrow> a AND b = b"
proof -
  have "0 < BLOOM_SIZE" by (simp add: BLOOM_SIZE_def)
  then show ?thesis by (auto simp: contains_bloom_def list_all2_conv_all_nth)
qed

lemma empty_replicate: "bloom_is_empty (replicate BLOOM_SIZE a) \<longleftrightarrow> a = 0"
  by (simp add: bloom_is_empty_def list_all_iff) (simp add: BLOOM_SIZE_def)


theorem accrued_input_contained_witness:
  "\<exists>s'. bloom_accrue (replicate 32 7) bloom_default = Some s' \<and> contains_bloom s' bloom_default
    \<and> contains_input (\<lambda>_. replicate 32 7) s' (Raw [1, 2]) = Some True"
  using accrued_input_contained [of bloom_default "\<lambda>_. replicate 32 7" "Raw [1, 2]"]
  by (simp add: input_hash_def length_bloom_default)

end
