(* ===== verification/Block_Chain.thy ===== *)
theory Block_Chain
  imports Unity_Engine Bloom_Chain
begin

text \<open>
  The block chain store, \<^verbatim>\<open>src/core/src/blockchain/blockchain.rs\<close>: block details, the number index of the
  canonical chain, transaction addresses, log blooms and the best block; the route between two
  blocks; and what importing a block does to all of them, on the canonical chain, on a side branch
  and when a side branch overtakes it.

  \<^item> A block enters through the views the code takes of its bytes (\<open>block_view\<close>). Each column is a
    partial function; reads go through caches that hold what the database holds, so a column is
    one map. \<open>insert_block\<close> only fills the pending side (the database batch and the \<^verbatim>\<open>pending_*\<close>
    fields), \<open>commit\<close> moves it over. The bloom groups are written at once, as in the code.
  \<^item> The walks up the tree have no bound of their own: they are partial functions, and a store in
    which parents have preceding numbers makes them return.
  \<^item> \<open>chain_inv\<close> is the invariant of the store and \<open>import_inv\<close> shows that importing a valid block
    keeps it and never panics.
\<close>

subsection \<open>Data\<close>

type_synonym h256 = bytes

record block_details =
  bd_number :: nat
  bd_total_difficulty :: nat
  bd_parent :: h256
  bd_children :: "h256 list"

record block_view =
  v_hash :: h256
  v_number :: nat
  v_parent_hash :: h256
  v_difficulty :: nat
  v_timestamp :: nat
  v_log_bloom :: bloom
  v_transaction_hashes :: "h256 list"

record best_block =
  bb_hash :: h256
  bb_number :: nat
  bb_total_difficulty :: nat
  bb_timestamp :: nat
  bb_block :: block_view

record tx_address =
  ta_block_hash :: h256
  ta_index :: nat

record route_data =
  tr_blocks :: "h256 list"
  tr_ancestor :: h256
  tr_index :: nat

record becoming_canon =
  bc_ancestor :: h256
  bc_enacted :: "h256 list"
  bc_retracted :: "h256 list"

datatype block_location = CanonChain | Branch | BranchBecomingCanonChain becoming_canon

record block_info =
  bi_hash :: h256
  bi_number :: nat
  bi_total_difficulty :: nat
  bi_location :: block_location

record import_route =
  ir_retracted :: "h256 list"
  ir_enacted :: "h256 list"
  ir_omitted :: "h256 list"

record block_chain =
  c_config :: bloom_config
  c_best :: best_block
  c_headers :: "h256 \<Rightarrow> block_view option"
  c_bodies :: "h256 \<Rightarrow> h256 list option"
  c_details :: "h256 \<Rightarrow> block_details option"
  c_hashes :: "nat \<Rightarrow> h256 option"
  c_addresses :: "h256 \<Rightarrow> tx_address option"
  c_receipts :: "h256 \<Rightarrow> bytes list option"
  c_blooms :: blooms_store
  p_best :: "best_block option"
  p_headers :: "h256 \<Rightarrow> block_view option"
  p_bodies :: "h256 \<Rightarrow> h256 list option"
  p_details :: "h256 \<Rightarrow> block_details option"
  p_hashes :: "nat \<Rightarrow> h256 option"
  p_addresses :: "h256 \<Rightarrow> tx_address option option"
  p_receipts :: "h256 \<Rightarrow> bytes list option"

subsection \<open>Queries\<close>

definition block_number :: "block_chain \<Rightarrow> h256 \<Rightarrow> nat option" where
  "block_number s hash = map_option bd_number (c_details s hash)"

definition is_known :: "block_chain \<Rightarrow> h256 \<Rightarrow> bool" where
  "is_known s hash \<longleftrightarrow> c_details s hash \<noteq> None"

definition is_known_child :: "block_chain \<Rightarrow> h256 \<Rightarrow> h256 \<Rightarrow> bool" where
  "is_known_child s parent hash =
     (case c_details s parent of None \<Rightarrow> False | Some d \<Rightarrow> hash \<in> set (bd_children d))"

definition chain_beacon_list :: "block_chain \<Rightarrow> h256 \<Rightarrow> nat option" where
  "chain_beacon_list s hash =
     (case c_details s hash of
        None \<Rightarrow> None
      | Some details \<Rightarrow>
          (case c_hashes s (bd_number details) of
             None \<Rightarrow> None
           | Some h \<Rightarrow> if hash = h then Some (bd_number details) else None))"

definition chain_blocks_with_bloom :: "block_chain \<Rightarrow> bloom \<Rightarrow> nat \<Rightarrow> nat \<Rightarrow> nat list option" where
  "chain_blocks_with_bloom s bloom from_block to_block =
     blocks_with_bloom (c_config s) (c_blooms s) bloom from_block to_block"

subsection \<open>The route between two blocks\<close>

text \<open>The outer option is the loop (\<open>None\<close>: it does not return), the inner one the result of the
  function (\<open>None\<close>: a block is not stored).\<close>

partial_function (option) climb :: "(h256 \<Rightarrow> block_details option) \<Rightarrow> nat \<Rightarrow> h256 \<Rightarrow> block_details \<Rightarrow>
    h256 list \<Rightarrow> (h256 \<times> block_details \<times> h256 list) option option" where
  "climb block_details level current details branch =
     (if bd_number details > level then
        (case block_details (bd_parent details) of
           None \<Rightarrow> Some None
         | Some details' \<Rightarrow> climb block_details level (bd_parent details) details' (branch @ [current]))
      else Some (Some (current, details, branch)))"

partial_function (option) meet :: "(h256 \<Rightarrow> block_details option) \<Rightarrow> h256 \<Rightarrow> block_details \<Rightarrow> h256 list \<Rightarrow>
    h256 \<Rightarrow> block_details \<Rightarrow> h256 list \<Rightarrow> (h256 \<times> h256 list \<times> h256 list) option option" where
  "meet block_details current_from from_details from_branch current_to to_details to_branch =
     (if current_from \<noteq> current_to then
        (case block_details (bd_parent from_details) of
           None \<Rightarrow> Some None
         | Some from_details' \<Rightarrow>
             (case block_details (bd_parent to_details) of
                None \<Rightarrow> Some None
              | Some to_details' \<Rightarrow>
                  meet block_details
                    (bd_parent from_details) from_details' (from_branch @ [current_from])
                    (bd_parent to_details) to_details' (to_branch @ [current_to])))
      else Some (Some (current_from, from_branch, to_branch)))"

definition tree_route :: "(h256 \<Rightarrow> block_details option) \<Rightarrow> h256 \<Rightarrow> h256 \<Rightarrow> route_data option option" where
  "tree_route block_details from_hash to_hash =
     (case (block_details from_hash, block_details to_hash) of
        (Some from_details, Some to_details) \<Rightarrow>
          do {
            r1 \<leftarrow> climb block_details (bd_number to_details) from_hash from_details [];
            (case r1 of
               None \<Rightarrow> Some None
             | Some (current_from, from_details, from_branch) \<Rightarrow>
                 do {
                   r2 \<leftarrow> climb block_details (bd_number from_details) to_hash to_details [];
                   (case r2 of
                      None \<Rightarrow> Some None
                    | Some (current_to, to_details, to_branch) \<Rightarrow>
                        if bd_number from_details \<noteq> bd_number to_details then None
                        else do {
                          r3 \<leftarrow> meet block_details current_from from_details from_branch
                                 current_to to_details to_branch;
                          Some (map_option (\<lambda>(ancestor, from_branch, to_branch).
                            \<lparr>tr_blocks = from_branch @ rev to_branch, tr_ancestor = ancestor,
                             tr_index = length from_branch\<rparr>) r3)
                        })
                 })
          }
      | _ \<Rightarrow> Some None)"

subsection \<open>Importing a block\<close>

definition chain_block_info :: "block_chain \<Rightarrow> block_view \<Rightarrow> block_info option" where
  "chain_block_info s v =
     do {
       parent_details \<leftarrow> c_details s (v_parent_hash v);
       total_difficulty \<leftarrow> u256_add (bd_total_difficulty parent_details) (v_difficulty v);
       location \<leftarrow>
         (if total_difficulty > bb_total_difficulty (c_best s) then
            do {
              found \<leftarrow> tree_route (c_details s) (bb_hash (c_best s)) (v_parent_hash v);
              route \<leftarrow> found;
              (if v_number v \<noteq> bd_number parent_details + 1 then None
               else if tr_blocks route = [] then Some CanonChain
               else Some (BranchBecomingCanonChain
                      \<lparr>bc_ancestor = tr_ancestor route,
                       bc_enacted = drop (tr_index route) (tr_blocks route),
                       bc_retracted = take (tr_index route) (tr_blocks route)\<rparr>))
            }
          else Some Branch);
       Some \<lparr>bi_hash = v_hash v, bi_number = v_number v, bi_total_difficulty = total_difficulty,
             bi_location = location\<rparr>
     }"

definition prepare_block_hashes_update :: "block_chain \<Rightarrow> block_view \<Rightarrow> block_info \<Rightarrow> (nat \<Rightarrow> h256 option) option"
  where
  "prepare_block_hashes_update s v info =
     (case bi_location info of
        Branch \<Rightarrow> Some Map.empty
      | CanonChain \<Rightarrow> Some [v_number v \<mapsto> bi_hash info]
      | BranchBecomingCanonChain data \<Rightarrow>
          do {
            ancestor_number \<leftarrow> block_number s (bc_ancestor data);
            (let start_number = ancestor_number + 1
             in Some ((fold (\<lambda>(index, hash) hashes. hashes(start_number + index \<mapsto> hash))
                        (enumerate 0 (bc_enacted data)) Map.empty)(v_number v \<mapsto> bi_hash info)))
          })"

definition prepare_block_details_update :: "block_chain \<Rightarrow> block_view \<Rightarrow> block_info \<Rightarrow>
    (h256 \<Rightarrow> block_details option) option" where
  "prepare_block_details_update s v info =
     do {
       parent_details \<leftarrow> c_details s (v_parent_hash v);
       Some [v_parent_hash v \<mapsto> parent_details\<lparr>bd_children := bd_children parent_details @ [bi_hash info]\<rparr>,
             bi_hash info \<mapsto> \<lparr>bd_number = v_number v, bd_total_difficulty = bi_total_difficulty info,
                              bd_parent = v_parent_hash v, bd_children = []\<rparr>]
     }"

definition block_addresses :: "h256 \<Rightarrow> h256 list \<Rightarrow> (h256 \<times> tx_address option) list" where
  "block_addresses hash txs =
     map (\<lambda>(i, tx_hash). (tx_hash, Some \<lparr>ta_block_hash = hash, ta_index = i\<rparr>)) (enumerate 0 txs)"

text \<open>Collecting into a \<^verbatim>\<open>HashMap\<close> keeps the last entry of a key.\<close>

definition collect_map :: "('a \<times> 'b) list \<Rightarrow> 'a \<Rightarrow> 'b option" where
  "collect_map entries = map_of (rev entries)"

definition prepare_transaction_addresses_update :: "block_chain \<Rightarrow> block_view \<Rightarrow> block_info \<Rightarrow>
    (h256 \<Rightarrow> tx_address option option) option" where
  "prepare_transaction_addresses_update s v info =
     (case bi_location info of
        CanonChain \<Rightarrow> Some (collect_map (block_addresses (bi_hash info) (v_transaction_hashes v)))
      | BranchBecomingCanonChain data \<Rightarrow>
          do {
            retracted \<leftarrow> those (map (c_bodies s) (bc_retracted data));
            enacted \<leftarrow> those (map (c_bodies s) (bc_enacted data));
            Some (collect_map
              (concat (map (map (\<lambda>tx_hash. (tx_hash, None))) retracted)
               @ concat (map2 block_addresses (bc_enacted data) enacted)
               @ block_addresses (bi_hash info) (v_transaction_hashes v)))
          }
      | Branch \<Rightarrow> Some Map.empty)"

text \<open>What \<^verbatim>\<open>prepare_block_blooms_update\<close> looks up before it calls the bloom chain.\<close>

definition bloom_location_of :: "block_chain \<Rightarrow> block_view \<Rightarrow> block_info \<Rightarrow> bloom_location option" where
  "bloom_location_of s v info =
     (case bi_location info of
        Branch \<Rightarrow> Some BloomBranch
      | CanonChain \<Rightarrow> Some (BloomCanon (bi_number info) (v_log_bloom v))
      | BranchBecomingCanonChain data \<Rightarrow>
          do {
            ancestor_number \<leftarrow> block_number s (bc_ancestor data);
            headers \<leftarrow> those (map (c_headers s) (bc_enacted data));
            Some (BloomReorg ancestor_number (bb_number (c_best s)) (map v_log_bloom headers) (v_log_bloom v))
          })"

record extras_update =
  eu_info :: block_info
  eu_block :: block_view
  eu_block_hashes :: "nat \<Rightarrow> h256 option"
  eu_block_details :: "h256 \<Rightarrow> block_details option"
  eu_block_receipts :: "h256 \<Rightarrow> bytes list option"
  eu_addresses :: "h256 \<Rightarrow> tx_address option option"
  eu_bloom_location :: bloom_location
  eu_blocks_blooms :: "(group_position \<times> bloom_group) list"

definition prepare_update :: "extras_update \<Rightarrow> bool \<Rightarrow> block_chain \<Rightarrow> block_chain" where
  "prepare_update u is_best s =
     (let info = eu_info u;
          best = (if is_best \<and> bi_location info \<noteq> Branch
                  then Some \<lparr>bb_hash = bi_hash info, bb_number = bi_number info,
                             bb_total_difficulty = bi_total_difficulty info,
                             bb_timestamp = v_timestamp (eu_block u), bb_block = eu_block u\<rparr>
                  else p_best s)
      in s\<lparr>p_receipts := p_receipts s ++ eu_block_receipts u,
           c_blooms := prepare_update_blooms (eu_bloom_location u) (eu_blocks_blooms u) (c_blooms s),
           p_best := best,
           p_details := p_details s ++ eu_block_details u,
           p_hashes := p_hashes s ++ eu_block_hashes u,
           p_addresses := p_addresses s ++ eu_addresses u\<rparr>)"

definition import_route_none :: import_route where
  "import_route_none = \<lparr>ir_retracted = [], ir_enacted = [], ir_omitted = []\<rparr>"

definition import_route_of :: "block_info \<Rightarrow> import_route" where
  "import_route_of info =
     (case bi_location info of
        CanonChain \<Rightarrow> \<lparr>ir_retracted = [], ir_enacted = [bi_hash info], ir_omitted = []\<rparr>
      | Branch \<Rightarrow> \<lparr>ir_retracted = [], ir_enacted = [], ir_omitted = [bi_hash info]\<rparr>
      | BranchBecomingCanonChain data \<Rightarrow>
          \<lparr>ir_retracted = bc_retracted data, ir_enacted = bc_enacted data @ [bi_hash info],
           ir_omitted = []\<rparr>)"

definition insert_block :: "block_view \<Rightarrow> bytes list \<Rightarrow> block_chain \<Rightarrow> (import_route \<times> block_chain) option"
  where
  "insert_block v receipts s =
     (if is_known_child s (v_parent_hash v) (v_hash v) then Some (import_route_none, s)
      else if p_best s \<noteq> None then None
      else
        (let s' = s\<lparr>p_headers := (p_headers s)(v_hash v \<mapsto> v),
                    p_bodies := (p_bodies s)(v_hash v \<mapsto> v_transaction_hashes v)\<rparr>
         in do {
           info \<leftarrow> chain_block_info s v;
           hashes \<leftarrow> prepare_block_hashes_update s v info;
           details \<leftarrow> prepare_block_details_update s v info;
           location \<leftarrow> bloom_location_of s v info;
           blooms \<leftarrow> prepare_block_blooms_update (c_config s) (c_blooms s) location;
           addresses \<leftarrow> prepare_transaction_addresses_update s v info;
           Some (import_route_of info,
             prepare_update
               \<lparr>eu_info = info, eu_block = v, eu_block_hashes = hashes, eu_block_details = details,
                eu_block_receipts = [bi_hash info \<mapsto> receipts], eu_addresses = addresses,
                eu_bloom_location = location, eu_blocks_blooms = blooms\<rparr> True s')
         }))"

text \<open>\<^verbatim>\<open>commit\<close> after the batch is written: the pending side becomes visible and is emptied.\<close>

definition commit_addresses :: "(h256 \<Rightarrow> tx_address option) \<Rightarrow> (h256 \<Rightarrow> tx_address option option) \<Rightarrow>
    h256 \<Rightarrow> tx_address option" where
  "commit_addresses addresses pending tx =
     (case pending tx of
        None \<Rightarrow> addresses tx
      | Some None \<Rightarrow> None
      | Some (Some a) \<Rightarrow> Some a)"

definition commit_chain :: "block_chain \<Rightarrow> block_chain" where
  "commit_chain s =
     s\<lparr>c_best := (case p_best s of Some b \<Rightarrow> b | None \<Rightarrow> c_best s), p_best := None,
       c_headers := c_headers s ++ p_headers s, p_headers := Map.empty,
       c_bodies := c_bodies s ++ p_bodies s, p_bodies := Map.empty,
       c_details := c_details s ++ p_details s, p_details := Map.empty,
       c_hashes := c_hashes s ++ p_hashes s, p_hashes := Map.empty,
       c_addresses := commit_addresses (c_addresses s) (p_addresses s), p_addresses := Map.empty,
       c_receipts := c_receipts s ++ p_receipts s, p_receipts := Map.empty\<rparr>"

definition import_block :: "block_view \<times> bytes list \<Rightarrow> block_chain \<Rightarrow> block_chain option" where
  "import_block b s =
     do { (route, s') \<leftarrow> insert_block (fst b) (snd b) s; Some (commit_chain s') }"

subsection \<open>Starting from a genesis block\<close>

text \<open>\<^verbatim>\<open>BlockChain::new\<close> on an empty database.\<close>

definition block_chain_new :: "bloom_config \<Rightarrow> block_view \<Rightarrow> block_chain" where
  "block_chain_new config genesis =
     \<lparr>c_config = config,
      c_best = \<lparr>bb_hash = v_hash genesis, bb_number = v_number genesis,
                bb_total_difficulty = v_difficulty genesis, bb_timestamp = v_timestamp genesis,
                bb_block = genesis\<rparr>,
      c_headers = [v_hash genesis \<mapsto> genesis],
      c_bodies = [v_hash genesis \<mapsto> v_transaction_hashes genesis],
      c_details = [v_hash genesis \<mapsto> \<lparr>bd_number = v_number genesis,
                     bd_total_difficulty = v_difficulty genesis,
                     bd_parent = v_parent_hash genesis, bd_children = []\<rparr>],
      c_hashes = [v_number genesis \<mapsto> v_hash genesis],
      c_addresses = Map.empty, c_receipts = Map.empty, c_blooms = blooms_empty,
      p_best = None, p_headers = Map.empty, p_bodies = Map.empty, p_details = Map.empty,
      p_hashes = Map.empty, p_addresses = Map.empty, p_receipts = Map.empty\<rparr>"

text \<open>The binary search for the first block of the stored range, on a database with a gap.\<close>

function first_block_search :: "(nat \<Rightarrow> h256 option) \<Rightarrow> nat \<Rightarrow> nat \<Rightarrow> h256 \<Rightarrow> h256" where
  "first_block_search block_hash l f hash =
     (if l \<ge> f then hash
      else (let m = l + (f - l) div 2 in
            case block_hash m of
              Some h \<Rightarrow> first_block_search block_hash l m h
            | None \<Rightarrow> first_block_search block_hash (m + 1) f hash))"
  by pat_completeness auto

termination
  by (relation "measure (\<lambda>(_, l, f, _). f - l)") auto

subsection \<open>The tree of stored blocks\<close>

text \<open>Every block but the genesis has a stored parent with the preceding number.\<close>

definition tree_ok :: "(h256 \<Rightarrow> block_details option) \<Rightarrow> h256 \<Rightarrow> bool" where
  "tree_ok D g \<longleftrightarrow> (\<exists>d. D g = Some d \<and> bd_number d = 0)
     \<and> (\<forall>h d. D h = Some d \<longrightarrow> bd_number d = 0 \<longrightarrow> h = g)
     \<and> (\<forall>h d. D h = Some d \<longrightarrow> 0 < bd_number d \<longrightarrow>
          (\<exists>p. D (bd_parent d) = Some p \<and> bd_number d = Suc (bd_number p)))"

definition parent_of :: "(h256 \<Rightarrow> block_details option) \<Rightarrow> h256 \<Rightarrow> h256" where
  "parent_of D h = (case D h of Some d \<Rightarrow> bd_parent d | None \<Rightarrow> h)"

definition up :: "(h256 \<Rightarrow> block_details option) \<Rightarrow> nat \<Rightarrow> h256 \<Rightarrow> h256" where
  "up D k h = (parent_of D ^^ k) h"

lemma up_0 [simp]: "up D 0 h = h"
  by (simp add: up_def)

lemma up_Suc: "up D (Suc k) h = parent_of D (up D k h)"
  by (simp add: up_def)

lemma up_parent: "up D k (parent_of D h) = up D (Suc k) h"
  by (simp add: up_def funpow_swap1)

lemma up_add: "up D (a + b) h = up D a (up D b h)"
  by (simp add: up_def funpow_add)

lemma tree_okD:
  assumes "tree_ok D g"
  shows "\<exists>d. D g = Some d \<and> bd_number d = 0"
    and "D h = Some d \<Longrightarrow> bd_number d = 0 \<Longrightarrow> h = g"
    and "D h = Some d \<Longrightarrow> 0 < bd_number d
      \<Longrightarrow> \<exists>p. D (bd_parent d) = Some p \<and> bd_number d = Suc (bd_number p)"
  using assms by (simp_all add: tree_ok_def)

lemma tree_parent:
  assumes "tree_ok D g" "D h = Some d" "bd_number d = Suc n"
  obtains p where "D (bd_parent d) = Some p" "bd_number p = n" "parent_of D h = bd_parent d"
proof -
  have "\<exists>p. D (bd_parent d) = Some p \<and> bd_number d = Suc (bd_number p)"
    using assms unfolding tree_ok_def by (metis zero_less_Suc)
  with assms that show thesis by (auto simp: parent_of_def)
qed

lemma up_stored:
  assumes t: "tree_ok D g" and h: "D h = Some d"
  shows "k \<le> bd_number d \<Longrightarrow> \<exists>d'. D (up D k h) = Some d' \<and> bd_number d' = bd_number d - k"
proof (induction k)
  case (Suc k)
  then obtain d' where d': "D (up D k h) = Some d'" "bd_number d' = bd_number d - k" by auto
  then have "bd_number d' = Suc (bd_number d - Suc k)" using Suc.prems by simp
  then show ?case using tree_parent [OF t d'(1)] unfolding up_Suc by metis
qed (use h in simp)

lemma up_genesis: "tree_ok D g \<Longrightarrow> D h = Some d \<Longrightarrow> up D (bd_number d) h = g"
  using up_stored [of D g h d "bd_number d"] unfolding tree_ok_def by auto

lemma climb_route:
  assumes t: "tree_ok D g"
  shows "D h = Some d \<Longrightarrow> bd_number d - level = i \<Longrightarrow>
    \<exists>d'. climb D level h d br = Some (Some (up D i h, d', br @ map (\<lambda>k. up D k h) [0..<i]))
      \<and> D (up D i h) = Some d' \<and> bd_number d' = bd_number d - i"
proof (induction i arbitrary: h d br)
  case 0
  then show ?case by (subst climb.simps) simp
next
  case (Suc i)
  then have d: "bd_number d = Suc (level + i)" by simp
  from this obtain p where p: "D (bd_parent d) = Some p" "bd_number p = level + i" "parent_of D h = bd_parent d"
    using tree_parent [OF t Suc.prems(1)] by metis
  obtain d' where d': "climb D level (bd_parent d) p (br @ [h])
      = Some (Some (up D i (bd_parent d), d', (br @ [h]) @ map (\<lambda>k. up D k (bd_parent d)) [0..<i]))"
      "D (up D i (bd_parent d)) = Some d'" "bd_number d' = bd_number p - i"
    using Suc.IH [OF p(1), of "br @ [h]"] p(2) by auto
  have "map (\<lambda>k. up D k h) [0..<Suc i] = h # map (\<lambda>k. up D k (bd_parent d)) [0..<i]"
    by (simp add: map_upt_Suc up_parent p(3) [symmetric] del: upt_Suc)
  then show ?case
    using d' p d up_parent [of D i h] by (subst climb.simps) simp
qed

lemma meet_route:
  assumes t: "tree_ok D g"
  shows "D a = Some da \<Longrightarrow> D b = Some db \<Longrightarrow> bd_number da = n \<Longrightarrow> bd_number db = n \<Longrightarrow>
    \<exists>j\<le>n. meet D a da ba b db bb
        = Some (Some (up D j a, ba @ map (\<lambda>k. up D k a) [0..<j], bb @ map (\<lambda>k. up D k b) [0..<j]))
      \<and> up D j a = up D j b \<and> (\<forall>k<j. up D k a \<noteq> up D k b)"
proof (induction n arbitrary: a da ba b db bb)
  case 0
  then have "a = b" using t by (metis tree_ok_def)
  then show ?case by (subst meet.simps) simp
next
  case (Suc n)
  show ?case
  proof (cases "a = b")
    case True
    then show ?thesis by (subst meet.simps) auto
  next
    case False
    obtain pa where pa: "D (bd_parent da) = Some pa" "bd_number pa = n" "parent_of D a = bd_parent da"
      using tree_parent [OF t Suc.prems(1,3)] by metis
    obtain pb where pb: "D (bd_parent db) = Some pb" "bd_number pb = n" "parent_of D b = bd_parent db"
      using tree_parent [OF t Suc.prems(2,4)] by metis
    obtain j where j: "j \<le> n" "meet D (bd_parent da) pa (ba @ [a]) (bd_parent db) pb (bb @ [b])
        = Some (Some (up D j (bd_parent da), (ba @ [a]) @ map (\<lambda>k. up D k (bd_parent da)) [0..<j],
            (bb @ [b]) @ map (\<lambda>k. up D k (bd_parent db)) [0..<j]))"
        "up D j (bd_parent da) = up D j (bd_parent db)"
        "\<forall>k<j. up D k (bd_parent da) \<noteq> up D k (bd_parent db)"
      using Suc.IH [OF pa(1) pb(1) pa(2) pb(2), of "ba @ [a]" "bb @ [b]"] by auto
    have path: "map (\<lambda>k. up D k h) [0..<Suc j] = h # map (\<lambda>k. up D k (parent_of D h)) [0..<j]" for h
      by (simp add: map_upt_Suc up_parent del: upt_Suc)
    have "\<forall>k<Suc j. up D k a \<noteq> up D k b"
      using j(4) False unfolding pa(3) [symmetric] pb(3) [symmetric] up_parent
      by (auto simp: less_Suc_eq_0_disj)
    then show ?thesis
      using j(1-3) False pa pb unfolding pa(3) [symmetric] pb(3) [symmetric] up_parent
      by (intro exI [of _ "Suc j"], subst meet.simps) (simp add: path up_parent pa(3) [symmetric] pb(3) [symmetric] del: upt_Suc)
  qed
qed

text \<open>The ancestor of a stored block at a number.\<close>

definition ancestor_at :: "(h256 \<Rightarrow> block_details option) \<Rightarrow> h256 \<Rightarrow> nat \<Rightarrow> h256" where
  "ancestor_at D h m = up D ((case D h of Some d \<Rightarrow> bd_number d | None \<Rightarrow> 0) - m) h"

lemma ancestor_at_up: "D h = Some d \<Longrightarrow> ancestor_at D h m = up D (bd_number d - m) h"
  by (simp add: ancestor_at_def)

lemma ancestor_at_stored:
  "tree_ok D g \<Longrightarrow> D h = Some d \<Longrightarrow> m \<le> bd_number d \<Longrightarrow>
   \<exists>d'. D (ancestor_at D h m) = Some d' \<and> bd_number d' = m"
  using up_stored [of D g h d "bd_number d - m"] by (simp add: ancestor_at_up)

lemma ancestor_at_self: "D h = Some d \<Longrightarrow> ancestor_at D h (bd_number d) = h"
  by (simp add: ancestor_at_up)

lemma ancestor_at_trans:
  assumes "tree_ok D g" "D h = Some d" "k \<le> m" "m \<le> bd_number d"
  shows "ancestor_at D (ancestor_at D h m) k = ancestor_at D h k"
proof -
  obtain d' where d': "D (ancestor_at D h m) = Some d'" "bd_number d' = m"
    using ancestor_at_stored [OF assms(1,2,4)] by blast
  have "bd_number d - k = (m - k) + (bd_number d - m)" using assms(3,4) by simp
  then show ?thesis using d' assms(2) by (simp add: ancestor_at_up up_add)
qed

lemma path_down:
  assumes "D h = Some d" "i \<le> bd_number d"
  shows "map (\<lambda>k. up D k h) [0..<i] = rev (map (ancestor_at D h) [Suc (bd_number d - i) ..< Suc (bd_number d)])"
  by (rule nth_equalityI) (use assms in \<open>auto simp: rev_nth ancestor_at_up simp del: upt_Suc\<close>)

text \<open>The route in terms of the highest common ancestor, at number \<open>n\<close>.\<close>

lemma tree_route_found:
  assumes t: "tree_ok D g" and a: "D a = Some da" and b: "D b = Some db"
  shows "\<exists>n. n \<le> bd_number da \<and> n \<le> bd_number db \<and> ancestor_at D a n = ancestor_at D b n
    \<and> (\<forall>m. n < m \<longrightarrow> m \<le> bd_number da \<longrightarrow> m \<le> bd_number db \<longrightarrow> ancestor_at D a m \<noteq> ancestor_at D b m)
    \<and> tree_route D a b = Some (Some
        \<lparr>tr_blocks = rev (map (ancestor_at D a) [Suc n ..< Suc (bd_number da)])
           @ map (ancestor_at D b) [Suc n ..< Suc (bd_number db)],
         tr_ancestor = ancestor_at D a n, tr_index = bd_number da - n\<rparr>)"
proof -
  let ?na = "bd_number da" and ?nb = "bd_number db"
  define l where "l = min ?na ?nb"
  define ia ib where "ia = ?na - l" and "ib = ?nb - l"
  have l: "?na - ?nb = ia" "?na - ia = l" "?nb - ib = l" "l \<le> ?na" "l \<le> ?nb"
      "\<And>m. m \<le> ?na \<Longrightarrow> m \<le> ?nb \<Longrightarrow> m \<le> l"
    by (auto simp: ia_def ib_def l_def)
  obtain ca where ca: "climb D ?nb a da [] = Some (Some (up D ia a, ca, map (\<lambda>k. up D k a) [0..<ia]))"
      "D (up D ia a) = Some ca" "bd_number ca = ?na - ia"
    using climb_route [OF t a l(1), of "[]"] by auto
  have na: "bd_number ca = l" using ca(3) l(2) by simp
  have ib: "?nb - l = ib" by (simp add: ib_def)
  obtain cb where cb: "climb D l b db [] = Some (Some (up D ib b, cb, map (\<lambda>k. up D k b) [0..<ib]))"
      "D (up D ib b) = Some cb" "bd_number cb = ?nb - ib"
    using climb_route [OF t b ib, of "[]"] by auto
  have nb: "bd_number cb = l" using cb(3) l(3) by simp
  obtain j where j: "j \<le> l"
      "meet D (up D ia a) ca (map (\<lambda>k. up D k a) [0..<ia]) (up D ib b) cb (map (\<lambda>k. up D k b) [0..<ib])
        = Some (Some (up D j (up D ia a),
            map (\<lambda>k. up D k a) [0..<ia] @ map (\<lambda>k. up D k (up D ia a)) [0..<j],
            map (\<lambda>k. up D k b) [0..<ib] @ map (\<lambda>k. up D k (up D ib b)) [0..<j]))"
      "up D j (up D ia a) = up D j (up D ib b)" "\<forall>k<j. up D k (up D ia a) \<noteq> up D k (up D ib b)"
    using meet_route [OF t ca(2) cb(2) na nb] by metis
  have join: "map (\<lambda>k. up D k h) [0..<i] @ map (\<lambda>k. up D k (up D i h)) [0..<j] = map (\<lambda>k. up D k h) [0..<i + j]"
    for h i
    by (rule nth_equalityI) (auto simp: nth_append up_add [symmetric])
  let ?n = "l - j"
  have ns: "?na - ?n = ia + j" "?nb - ?n = ib + j" "ia + j \<le> ?na" "ib + j \<le> ?nb"
      "?na - (ia + j) = ?n" "?nb - (ib + j) = ?n"
    using j(1) l(4,5) by (auto simp: ia_def ib_def)
  have at: "ancestor_at D a m = up D (l - m) (up D ia a)" "ancestor_at D b m = up D (l - m) (up D ib b)"
    if "m \<le> l" for m
  proof -
    have "?na - m = (l - m) + ia" "?nb - m = (l - m) + ib" using that l(4,5) by (auto simp: ia_def ib_def)
    then show "ancestor_at D a m = up D (l - m) (up D ia a)" "ancestor_at D b m = up D (l - m) (up D ib b)"
      using a b by (simp_all add: ancestor_at_up up_add [symmetric])
  qed
  have anc: "ancestor_at D a ?n = up D j (up D ia a)" "ancestor_at D a ?n = ancestor_at D b ?n"
    using at [of ?n] j(1,3) by simp_all
  have "ancestor_at D a m \<noteq> ancestor_at D b m" if "?n < m" "m \<le> l" for m
    using at [OF that(2)] j(4) [rule_format, of "l - m"] that by auto
  moreover have "tree_route D a b = Some (Some
        \<lparr>tr_blocks = rev (map (ancestor_at D a) [Suc ?n ..< Suc ?na])
           @ map (ancestor_at D b) [Suc ?n ..< Suc ?nb],
         tr_ancestor = ancestor_at D a ?n, tr_index = ?na - ?n\<rparr>)"
    unfolding tree_route_def
    using path_down [of D a da, OF a ns(3)] path_down [of D b db, OF b ns(4)] j(2) na nb
    by (simp add: a b ca(1) cb(1) join ns anc(1) rev_swap del: upt_Suc)
  ultimately show ?thesis using anc(2) l(4-6) by (intro exI [of _ ?n]) auto
qed

subsection \<open>The invariant of the store\<close>

definition canon :: "block_chain \<Rightarrow> nat \<Rightarrow> h256" where
  "canon s m = ancestor_at (c_details s) (bb_hash (c_best s)) m"

definition txs_at :: "block_chain \<Rightarrow> h256 \<Rightarrow> h256 list" where
  "txs_at s h = (case c_bodies s h of Some txs \<Rightarrow> txs | None \<Rightarrow> [])"

definition bloom_of :: "block_chain \<Rightarrow> h256 \<Rightarrow> bloom" where
  "bloom_of s h = (case c_headers s h of Some v \<Rightarrow> v_log_bloom v | None \<Rightarrow> bloom_default)"

definition pending_empty :: "block_chain \<Rightarrow> bool" where
  "pending_empty s \<longleftrightarrow> p_best s = None \<and> p_headers s = Map.empty \<and> p_bodies s = Map.empty
     \<and> p_details s = Map.empty \<and> p_hashes s = Map.empty \<and> p_addresses s = Map.empty
     \<and> p_receipts s = Map.empty"

text \<open>The children of a block are the stored blocks that name it as their parent.\<close>

definition children_inv :: "block_chain \<Rightarrow> bool" where
  "children_inv s \<longleftrightarrow> (\<forall>p d. c_details s p = Some d \<longrightarrow>
     set (bd_children d) = {c. \<exists>dc. c_details s c = Some dc \<and> 0 < bd_number dc \<and> bd_parent dc = p})"

text \<open>Every block has its header and body, and its total difficulty is that of its parent plus its
  own.\<close>

definition header_matches :: "(h256 \<Rightarrow> block_details option) \<Rightarrow> h256 \<Rightarrow> block_details \<Rightarrow> block_view \<Rightarrow> bool" where
  "header_matches D h d v \<longleftrightarrow> v_hash v = h \<and> v_number v = bd_number d \<and> length (v_log_bloom v) = BLOOM_SIZE
     \<and> (0 < bd_number d \<longrightarrow> v_parent_hash v = bd_parent d \<and>
          (\<exists>p. D (bd_parent d) = Some p \<and> bd_total_difficulty d = bd_total_difficulty p + v_difficulty v))"

definition headers_inv :: "block_chain \<Rightarrow> bool" where
  "headers_inv s \<longleftrightarrow> (\<forall>h d. c_details s h = Some d \<longrightarrow>
     (\<exists>v. c_headers s h = Some v \<and> c_bodies s h = Some (v_transaction_hashes v)
        \<and> header_matches (c_details s) h d v))"

text \<open>The best block is stored and no block has a greater total difficulty.\<close>

definition best_inv :: "block_chain \<Rightarrow> bool" where
  "best_inv s \<longleftrightarrow>
     (\<exists>d. c_details s (bb_hash (c_best s)) = Some d \<and> bd_number d = bb_number (c_best s)
        \<and> bd_total_difficulty d = bb_total_difficulty (c_best s))
     \<and> (\<forall>h d. c_details s h = Some d \<longrightarrow> bd_total_difficulty d \<le> bb_total_difficulty (c_best s))"

text \<open>Up to the best block the number index holds its ancestors.\<close>

definition canon_inv :: "block_chain \<Rightarrow> bool" where
  "canon_inv s \<longleftrightarrow> (\<forall>m \<le> bb_number (c_best s). c_hashes s m = Some (canon s m))"

text \<open>The bloom index holds the log blooms of the canonical blocks.\<close>

definition blooms_inv :: "block_chain \<Rightarrow> bool" where
  "blooms_inv s \<longleftrightarrow> 0 < elements_per_index (c_config s) \<and>
     (\<exists>m. manager_new (elements_per_index (c_config s)) (levels (c_config s)) = Some m
        \<and> log_db.index_inv m (c_blooms s))
     \<and> block_bloom (store_bloom_at (elements_per_index (c_config s)) (c_blooms s))
       = (\<lambda>n. if 0 < n \<and> n \<le> bb_number (c_best s) then bloom_of s (canon s n) else bloom_default)"

text \<open>No transaction occurs twice in a block or in a block and one of its ancestors; the addresses
  are those of the transactions of the canonical chain.\<close>

definition txs_inv :: "block_chain \<Rightarrow> bool" where
  "txs_inv s \<longleftrightarrow> (\<forall>h d. c_details s h = Some d \<longrightarrow> distinct (txs_at s h)
     \<and> (\<forall>m < bd_number d. set (txs_at s h) \<inter> set (txs_at s (ancestor_at (c_details s) h m)) = {}))"

definition tx_in :: "block_chain \<Rightarrow> h256 \<Rightarrow> h256 \<Rightarrow> tx_address \<Rightarrow> bool" where
  "tx_in s h t a \<longleftrightarrow> ta_block_hash a = h \<and> ta_index a < length (txs_at s h) \<and> txs_at s h ! ta_index a = t"

definition addresses_inv :: "block_chain \<Rightarrow> bool" where
  "addresses_inv s \<longleftrightarrow> (\<forall>t a. c_addresses s t = Some a \<longleftrightarrow>
     (\<exists>m \<le> bb_number (c_best s). tx_in s (canon s m) t a))"

definition chain_inv :: "h256 \<Rightarrow> block_chain \<Rightarrow> bool" where
  "chain_inv g s \<longleftrightarrow> pending_empty s \<and> tree_ok (c_details s) g \<and> children_inv s \<and> headers_inv s
     \<and> best_inv s \<and> canon_inv s \<and> blooms_inv s \<and> txs_inv s \<and> addresses_inv s"

text \<open>What verification establishes before a block reaches the store.\<close>

definition valid_block :: "block_chain \<Rightarrow> block_view \<Rightarrow> bool" where
  "valid_block s v \<longleftrightarrow>
     (\<exists>p. c_details s (v_parent_hash v) = Some p \<and> v_number v = Suc (bd_number p)
        \<and> bd_total_difficulty p + v_difficulty v < 2 ^ 256
        \<and> (\<forall>d. c_details s (v_hash v) = Some d \<longrightarrow> 0 < bd_number d \<and> bd_parent d = v_parent_hash v)
        \<and> length (v_log_bloom v) = BLOOM_SIZE \<and> distinct (v_transaction_hashes v)
        \<and> (\<forall>m \<le> bd_number p. set (v_transaction_hashes v)
             \<inter> set (txs_at s (ancestor_at (c_details s) (v_parent_hash v) m)) = {}))"

subsection \<open>What an import changes\<close>

text \<open>The new block is attached to its parent, whatever becomes of the canonical chain.\<close>

definition attached :: "block_view \<Rightarrow> block_details \<Rightarrow> block_chain \<Rightarrow> block_chain \<Rightarrow> bool" where
  "attached v p s s' \<longleftrightarrow> pending_empty s' \<and> c_config s' = c_config s
     \<and> c_headers s' = (c_headers s)(v_hash v \<mapsto> v)
     \<and> c_bodies s' = (c_bodies s)(v_hash v \<mapsto> v_transaction_hashes v)
     \<and> c_details s' = (c_details s)
         (v_parent_hash v \<mapsto> p\<lparr>bd_children := bd_children p @ [v_hash v]\<rparr>,
          v_hash v \<mapsto> \<lparr>bd_number = v_number v,
                       bd_total_difficulty = bd_total_difficulty p + v_difficulty v,
                       bd_parent = v_parent_hash v, bd_children = []\<rparr>)"

text \<open>The address updates of a block that becomes the best one, with the blocks above number \<open>n\<close>
  retracted and those on the way to the parent enacted.\<close>

definition address_entries :: "block_chain \<Rightarrow> block_view \<Rightarrow> h256 list \<Rightarrow> h256 list \<Rightarrow> (h256 \<times> tx_address option) list"
  where
  "address_entries s v retracted enacted =
     concat (map (\<lambda>h. map (\<lambda>t. (t, None)) (txs_at s h)) retracted)
     @ concat (map (\<lambda>h. block_addresses h (txs_at s h)) enacted)
     @ block_addresses (v_hash v) (v_transaction_hashes v)"

text \<open>The new block is the best one; \<open>n\<close> is the number of its highest ancestor on the old chain.\<close>

definition became_best :: "block_view \<Rightarrow> block_details \<Rightarrow> nat \<Rightarrow> block_chain \<Rightarrow> block_chain \<Rightarrow> bool" where
  "became_best v p n s s' \<longleftrightarrow>
     n \<le> bb_number (c_best s) \<and> n \<le> bd_number p
     \<and> canon s n = ancestor_at (c_details s) (v_parent_hash v) n
     \<and> bb_hash (c_best s') = v_hash v \<and> bb_number (c_best s') = v_number v
     \<and> bb_total_difficulty (c_best s') = bd_total_difficulty p + v_difficulty v
     \<and> (\<forall>m. c_hashes s' m =
          (if m = v_number v then Some (v_hash v)
           else if n < m \<and> m \<le> bd_number p then Some (ancestor_at (c_details s) (v_parent_hash v) m)
           else c_hashes s m))
     \<and> c_addresses s' = commit_addresses (c_addresses s)
         (collect_map (address_entries s v
           (rev (map (canon s) [Suc n ..< Suc (bb_number (c_best s))]))
           (map (ancestor_at (c_details s) (v_parent_hash v)) [Suc n ..< Suc (bd_number p)])))
     \<and> import_blooms (c_config s)
         (if n = bb_number (c_best s) \<and> n = bd_number p then BloomCanon (v_number v) (v_log_bloom v)
          else BloomReorg n (bb_number (c_best s))
             (map (\<lambda>m. bloom_of s (ancestor_at (c_details s) (v_parent_hash v) m)) [Suc n ..< Suc (bd_number p)])
             (v_log_bloom v))
         (c_blooms s) = Some (c_blooms s')"

lemma those_map: "(\<And>x. x \<in> set xs \<Longrightarrow> f x = Some (g x)) \<Longrightarrow> those (map f xs) = Some (map g xs)"
  by (induction xs) simp_all

lemma fold_hashes:
  "fold (\<lambda>(i, h) hashes. hashes(a + i \<mapsto> h)) (enumerate 0 hs) M x
   = (if a \<le> x \<and> x < a + length hs then Some (hs ! (x - a)) else M x)" for a x :: nat
  by (induction hs rule: rev_induct) (auto simp: enumerate_append_eq nth_append)

lemma chain_inv_best:
  assumes "chain_inv g s"
  obtains d where "c_details s (bb_hash (c_best s)) = Some d" "bd_number d = bb_number (c_best s)"
    "bd_total_difficulty d = bb_total_difficulty (c_best s)"
  using assms unfolding chain_inv_def best_inv_def by blast

lemma canon_stored:
  assumes "chain_inv g s" "m \<le> bb_number (c_best s)"
  shows "\<exists>d. c_details s (canon s m) = Some d \<and> bd_number d = m"
proof -
  obtain d where d: "c_details s (bb_hash (c_best s)) = Some d" "bd_number d = bb_number (c_best s)"
    using chain_inv_best [OF assms(1)] by blast
  show ?thesis
    using ancestor_at_stored [of "c_details s" g, OF _ d(1)] assms d(2)
    by (simp add: canon_def chain_inv_def)
qed

lemma stored_block:
  assumes "chain_inv g s" "c_details s h = Some d"
  shows "c_bodies s h = Some (txs_at s h)" "map_option v_log_bloom (c_headers s h) = Some (bloom_of s h)"
    "length (bloom_of s h) = BLOOM_SIZE"
proof -
  obtain v where "c_headers s h = Some v" "c_bodies s h = Some (v_transaction_hashes v)"
      "header_matches (c_details s) h d v"
    using assms unfolding chain_inv_def headers_inv_def by blast
  then show "c_bodies s h = Some (txs_at s h)" "map_option v_log_bloom (c_headers s h) = Some (bloom_of s h)"
      "length (bloom_of s h) = BLOOM_SIZE"
    by (simp_all add: txs_at_def bloom_of_def header_matches_def)
qed

text \<open>The blocks of a route are stored.\<close>

lemma route_stored:
  assumes inv: "chain_inv g s" and p: "c_details s ph = Some p"
  shows "h \<in> set (map (canon s) [Suc n ..< Suc (bb_number (c_best s))]) \<Longrightarrow> \<exists>d. c_details s h = Some d"
    and "h \<in> set (map (ancestor_at (c_details s) ph) [Suc n ..< Suc (bd_number p)]) \<Longrightarrow> \<exists>d. c_details s h = Some d"
proof -
  have t: "tree_ok (c_details s) g" using inv by (simp add: chain_inv_def)
  show "h \<in> set (map (canon s) [Suc n ..< Suc (bb_number (c_best s))]) \<Longrightarrow> \<exists>d. c_details s h = Some d"
    using canon_stored [OF inv] by (auto simp del: upt_Suc simp: less_Suc_eq_le) blast
  show "h \<in> set (map (ancestor_at (c_details s) ph) [Suc n ..< Suc (bd_number p)]) \<Longrightarrow> \<exists>d. c_details s h = Some d"
    using ancestor_at_stored [OF t p] by (auto simp del: upt_Suc simp: less_Suc_eq_le) blast
qed

lemma block_info_best:
  assumes inv: "chain_inv g s" and p: "c_details s (v_parent_hash v) = Some p"
    and v: "v_number v = Suc (bd_number p)" "bd_total_difficulty p + v_difficulty v < 2 ^ 256"
    and best: "bb_total_difficulty (c_best s) < bd_total_difficulty p + v_difficulty v"
  shows "\<exists>n. n \<le> bb_number (c_best s) \<and> n \<le> bd_number p
    \<and> canon s n = ancestor_at (c_details s) (v_parent_hash v) n
    \<and> chain_block_info s v = Some \<lparr>bi_hash = v_hash v, bi_number = v_number v,
        bi_total_difficulty = bd_total_difficulty p + v_difficulty v,
        bi_location =
          (if n = bb_number (c_best s) \<and> n = bd_number p then CanonChain
           else BranchBecomingCanonChain
             \<lparr>bc_ancestor = canon s n,
              bc_enacted = map (ancestor_at (c_details s) (v_parent_hash v)) [Suc n ..< Suc (bd_number p)],
              bc_retracted = rev (map (canon s) [Suc n ..< Suc (bb_number (c_best s))])\<rparr>)\<rparr>"
proof -
  have t: "tree_ok (c_details s) g" using inv by (simp add: chain_inv_def)
  obtain d where d: "c_details s (bb_hash (c_best s)) = Some d" "bd_number d = bb_number (c_best s)"
    using chain_inv_best [OF inv] by blast
  have canon: "ancestor_at (c_details s) (bb_hash (c_best s)) = canon s"
    by (simp add: fun_eq_iff canon_def)
  obtain n where n: "n \<le> bb_number (c_best s)" "n \<le> bd_number p"
      "canon s n = ancestor_at (c_details s) (v_parent_hash v) n"
      "tree_route (c_details s) (bb_hash (c_best s)) (v_parent_hash v) = Some (Some
        \<lparr>tr_blocks = rev (map (canon s) [Suc n ..< Suc (bb_number (c_best s))])
           @ map (ancestor_at (c_details s) (v_parent_hash v)) [Suc n ..< Suc (bd_number p)],
         tr_ancestor = canon s n, tr_index = bb_number (c_best s) - n\<rparr>)"
    using tree_route_found [OF t d(1) p] unfolding canon d(2) by metis
  have empty: "([Suc n ..< Suc (bb_number (c_best s))] = [] \<and> [Suc n ..< Suc (bd_number p)] = [])
      \<longleftrightarrow> n = bb_number (c_best s) \<and> n = bd_number p"
    using n(1,2) by (auto simp: upt_eq_Nil_conv simp del: upt_Suc)
  show ?thesis
    using n(1-3) best v empty
    by (intro exI [of _ n]) (auto simp: chain_block_info_def p u256_add_def n(4) simp del: upt_Suc)
qed

lemma hashes_update_best:
  assumes n: "block_number s (canon s n) = Some n" "n \<le> bb_number (c_best s)" "n \<le> bd_number p"
    and v: "v_number v = Suc (bd_number p)"
  defines "E \<equiv> map (ancestor_at (c_details s) (v_parent_hash v)) [Suc n ..< Suc (bd_number p)]"
  shows "\<exists>H. prepare_block_hashes_update s v \<lparr>bi_hash = v_hash v, bi_number = v_number v,
        bi_total_difficulty = td, bi_location =
          (if n = bb_number (c_best s) \<and> n = bd_number p then CanonChain
           else BranchBecomingCanonChain \<lparr>bc_ancestor = canon s n, bc_enacted = E, bc_retracted = R\<rparr>)\<rparr>
      = Some H
    \<and> (\<forall>m. H m = (if m = v_number v then Some (v_hash v)
           else if n < m \<and> m \<le> bd_number p then Some (ancestor_at (c_details s) (v_parent_hash v) m)
           else None))"
proof (cases "n = bb_number (c_best s) \<and> n = bd_number p")
  case False
  have "E ! (m - Suc n) = ancestor_at (c_details s) (v_parent_hash v) m" if "n < m" "m \<le> bd_number p" for m
    using that by (simp add: E_def del: upt_Suc)
  moreover have "length E = bd_number p - n" by (simp add: E_def del: upt_Suc)
  ultimately show ?thesis
    using False n v by (auto simp: prepare_block_hashes_update_def fold_hashes [of "Suc n", simplified])
qed (use v in \<open>auto simp: prepare_block_hashes_update_def\<close>)

lemma addresses_update_best:
  assumes inv: "chain_inv g s" and p: "c_details s (v_parent_hash v) = Some p"
    and n: "n \<le> bb_number (c_best s)" "n \<le> bd_number p"
  defines "E \<equiv> map (ancestor_at (c_details s) (v_parent_hash v)) [Suc n ..< Suc (bd_number p)]"
    and "R \<equiv> rev (map (canon s) [Suc n ..< Suc (bb_number (c_best s))])"
  shows "prepare_transaction_addresses_update s v \<lparr>bi_hash = v_hash v, bi_number = v_number v,
        bi_total_difficulty = td, bi_location =
          (if n = bb_number (c_best s) \<and> n = bd_number p then CanonChain
           else BranchBecomingCanonChain \<lparr>bc_ancestor = canon s n, bc_enacted = E, bc_retracted = R\<rparr>)\<rparr>
      = Some (collect_map (address_entries s v R E))"
proof -
  have stored: "c_bodies s h = Some (txs_at s h)" if "h \<in> set E \<union> set R" for h
    using that route_stored [OF inv p] stored_block(1) [OF inv] unfolding E_def R_def set_rev by blast
  have th: "those (map (c_bodies s) E) = Some (map (txs_at s) E)"
      "those (map (c_bodies s) R) = Some (map (txs_at s) R)"
    by (intro those_map stored; simp)+
  have "map2 block_addresses E (map (txs_at s) E) = map (\<lambda>h. block_addresses h (txs_at s h)) E"
    by (simp add: zip_map2 zip_same_conv_map)
  moreover have "n = bb_number (c_best s) \<and> n = bd_number p \<Longrightarrow> E = [] \<and> R = []"
    by (simp add: E_def R_def)
  ultimately show ?thesis
    by (auto simp: prepare_transaction_addresses_update_def th address_entries_def comp_def)
qed

lemma bloom_location_best:
  assumes inv: "chain_inv g s" and p: "c_details s (v_parent_hash v) = Some p"
    and n: "block_number s (canon s n) = Some n"
  defines "E \<equiv> map (ancestor_at (c_details s) (v_parent_hash v)) [Suc n ..< Suc (bd_number p)]"
  shows "bloom_location_of s v \<lparr>bi_hash = v_hash v, bi_number = v_number v,
        bi_total_difficulty = td, bi_location =
          (if n = bb_number (c_best s) \<and> n = bd_number p then CanonChain
           else BranchBecomingCanonChain \<lparr>bc_ancestor = canon s n, bc_enacted = E, bc_retracted = R\<rparr>)\<rparr>
      = Some (if n = bb_number (c_best s) \<and> n = bd_number p then BloomCanon (v_number v) (v_log_bloom v)
          else BloomReorg n (bb_number (c_best s))
             (map (\<lambda>m. bloom_of s (ancestor_at (c_details s) (v_parent_hash v) m)) [Suc n ..< Suc (bd_number p)])
             (v_log_bloom v))"
proof -
  have hd: "\<exists>w. c_headers s h = Some w \<and> v_log_bloom w = bloom_of s h" if "h \<in> set E" for h
    using route_stored(2) [OF inv p] that stored_block(2) [OF inv] unfolding E_def by (metis map_option_eq_Some)
  have "those (map (c_headers s) E) = Some (map (\<lambda>h. the (c_headers s h)) E)"
    by (rule those_map) (use hd in force)
  moreover have "map v_log_bloom (map (\<lambda>h. the (c_headers s h)) E) = map (bloom_of s) E"
    using hd by force
  ultimately show ?thesis
    by (auto simp: bloom_location_of_def n E_def comp_def simp del: upt_Suc)
qed

lemma route_blooms_sized:
  assumes inv: "chain_inv g s" and p: "c_details s ph = Some p"
  shows "list_all (\<lambda>c. length c = BLOOM_SIZE)
    (map (\<lambda>m. bloom_of s (ancestor_at (c_details s) ph m)) [Suc n ..< Suc (bd_number p)])"
proof -
  have "length (bloom_of s h) = BLOOM_SIZE"
    if "h \<in> set (map (ancestor_at (c_details s) ph) [Suc n ..< Suc (bd_number p)])" for h
    using route_stored(2) [OF inv p that] stored_block(3) [OF inv] by blast
  then show ?thesis by (simp add: list_all_iff del: upt_Suc)
qed

text \<open>The state after \<open>insert_block\<close> and \<open>commit\<close>, given what the preparation steps return.\<close>

lemma import_result:
  assumes pend: "pending_empty s" and unknown: "\<not> is_known_child s (v_parent_hash v) (v_hash v)"
    and p: "c_details s (v_parent_hash v) = Some p"
    and info: "chain_block_info s v = Some I" "bi_hash I = v_hash v" "bi_number I = v_number v"
      "bi_total_difficulty I = bd_total_difficulty p + v_difficulty v"
    and H: "prepare_block_hashes_update s v I = Some H"
    and A: "prepare_transaction_addresses_update s v I = Some A"
    and L: "bloom_location_of s v I = Some loc" and B: "import_blooms (c_config s) loc (c_blooms s) = Some B"
  shows "\<exists>s'. import_block (v, receipts) s = Some s' \<and> attached v p s s'
    \<and> c_best s' = (if bi_location I = Branch then c_best s
         else \<lparr>bb_hash = v_hash v, bb_number = v_number v,
               bb_total_difficulty = bd_total_difficulty p + v_difficulty v,
               bb_timestamp = v_timestamp v, bb_block = v\<rparr>)
    \<and> c_hashes s' = c_hashes s ++ H \<and> c_addresses s' = commit_addresses (c_addresses s) A
    \<and> c_blooms s' = B"
proof -
  obtain u where u: "prepare_block_blooms_update (c_config s) (c_blooms s) loc = Some u"
      "B = prepare_update_blooms loc u (c_blooms s)"
    using B by (auto simp: import_blooms_def split: Option.bind_splits)
  have pd: "p_best s = None" "p_headers s = Map.empty" "p_bodies s = Map.empty" "p_details s = Map.empty"
      "p_hashes s = Map.empty" "p_addresses s = Map.empty" "p_receipts s = Map.empty"
    using pend by (simp_all add: pending_empty_def)
  show ?thesis
    unfolding import_block_def insert_block_def
    using unknown info H A L u
    by (simp add: pd p prepare_block_details_update_def prepare_update_def commit_chain_def
        attached_def pending_empty_def Let_def)
qed

lemma import_best:
  assumes inv: "chain_inv g s" and valid: "valid_block s v" and fresh: "c_details s (v_hash v) = None"
    and p: "c_details s (v_parent_hash v) = Some p"
    and best: "bb_total_difficulty (c_best s) < bd_total_difficulty p + v_difficulty v"
  shows "\<exists>s' n. import_block (v, receipts) s = Some s' \<and> attached v p s s' \<and> became_best v p n s s'"
proof -
  have v: "v_number v = Suc (bd_number p)" "bd_total_difficulty p + v_difficulty v < 2 ^ 256"
      "length (v_log_bloom v) = BLOOM_SIZE"
    using valid p by (auto simp: valid_block_def)
  have pend: "pending_empty s" and unknown: "\<not> is_known_child s (v_parent_hash v) (v_hash v)"
    using inv fresh p by (auto simp: is_known_child_def chain_inv_def children_inv_def)
  obtain n where n: "n \<le> bb_number (c_best s)" "n \<le> bd_number p"
      "canon s n = ancestor_at (c_details s) (v_parent_hash v) n" and info:
      "chain_block_info s v = Some \<lparr>bi_hash = v_hash v, bi_number = v_number v,
        bi_total_difficulty = bd_total_difficulty p + v_difficulty v,
        bi_location =
          (if n = bb_number (c_best s) \<and> n = bd_number p then CanonChain
           else BranchBecomingCanonChain
             \<lparr>bc_ancestor = canon s n,
              bc_enacted = map (ancestor_at (c_details s) (v_parent_hash v)) [Suc n ..< Suc (bd_number p)],
              bc_retracted = rev (map (canon s) [Suc n ..< Suc (bb_number (c_best s))])\<rparr>)\<rparr>"
      (is "_ = Some ?info")
    using block_info_best [OF inv p v(1,2) best] by blast
  have num: "block_number s (canon s n) = Some n"
    using canon_stored [OF inv n(1)] by (auto simp: block_number_def)
  obtain H where H: "prepare_block_hashes_update s v ?info = Some H"
      "\<And>m. H m = (if m = v_number v then Some (v_hash v)
           else if n < m \<and> m \<le> bd_number p then Some (ancestor_at (c_details s) (v_parent_hash v) m)
           else None)"
    using hashes_update_best [OF num n(1,2) v(1)] by metis
  let ?loc = "if n = bb_number (c_best s) \<and> n = bd_number p then BloomCanon (v_number v) (v_log_bloom v)
          else BloomReorg n (bb_number (c_best s))
             (map (\<lambda>m. bloom_of s (ancestor_at (c_details s) (v_parent_hash v) m)) [Suc n ..< Suc (bd_number p)])
             (v_log_bloom v)"
  obtain m where m: "manager_new (elements_per_index (c_config s)) (levels (c_config s)) = Some m"
      "0 < elements_per_index (c_config s)" "log_db.index_inv m (c_blooms s)"
    using inv by (auto simp: chain_inv_def blooms_inv_def)
  have "location_sized ?loc" using v(3) route_blooms_sized [OF inv p, of n] by (simp del: upt_Suc)
  then obtain B where B: "import_blooms (c_config s) ?loc (c_blooms s) = Some B"
    using import_blooms_step [OF m] by blast
  have loc: "bi_location ?info \<noteq> Branch" by simp
  obtain s' where s': "import_block (v, receipts) s = Some s'" "attached v p s s'"
      "c_best s' = \<lparr>bb_hash = v_hash v, bb_number = v_number v,
               bb_total_difficulty = bd_total_difficulty p + v_difficulty v,
               bb_timestamp = v_timestamp v, bb_block = v\<rparr>"
      "c_hashes s' = c_hashes s ++ H" "c_blooms s' = B"
      "c_addresses s' = commit_addresses (c_addresses s)
         (collect_map (address_entries s v
           (rev (map (canon s) [Suc n ..< Suc (bb_number (c_best s))]))
           (map (ancestor_at (c_details s) (v_parent_hash v)) [Suc n ..< Suc (bd_number p)])))"
    using import_result [OF pend unknown p info _ _ _ H(1) addresses_update_best [OF inv p n(1,2)]
        bloom_location_best [OF inv p num] B, of receipts] loc
    by (auto simp only: block_info.simps if_False simp_thms)
  have "became_best v p n s s'"
    unfolding became_best_def using n B H(2) by (simp add: s'(3-6) map_add_def del: upt_Suc)
  then show ?thesis using s'(1,2) by blast
qed

lemma import_branch:
  assumes inv: "chain_inv g s" and valid: "valid_block s v" and fresh: "c_details s (v_hash v) = None"
    and p: "c_details s (v_parent_hash v) = Some p"
    and best: "bd_total_difficulty p + v_difficulty v \<le> bb_total_difficulty (c_best s)"
  shows "\<exists>s'. import_block (v, receipts) s = Some s' \<and> attached v p s s' \<and> c_best s' = c_best s
    \<and> c_hashes s' = c_hashes s \<and> c_addresses s' = c_addresses s \<and> c_blooms s' = c_blooms s"
proof -
  let ?I = "\<lparr>bi_hash = v_hash v, bi_number = v_number v,
    bi_total_difficulty = bd_total_difficulty p + v_difficulty v, bi_location = Branch\<rparr>"
  have pend: "pending_empty s" and unknown: "\<not> is_known_child s (v_parent_hash v) (v_hash v)"
    using inv fresh p by (auto simp: is_known_child_def chain_inv_def children_inv_def)
  have I: "chain_block_info s v = Some ?I"
    using valid p best by (auto simp: chain_block_info_def valid_block_def u256_add_def)
  have "commit_addresses (c_addresses s) Map.empty = c_addresses s"
    by (simp add: commit_addresses_def fun_eq_iff)
  then show ?thesis
    using import_result [OF pend unknown p I, of Map.empty Map.empty BloomBranch "c_blooms s" receipts]
    by (simp add: prepare_block_hashes_update_def prepare_transaction_addresses_update_def
        bloom_location_of_def import_blooms_def prepare_block_blooms_update_def prepare_update_blooms_def)
qed

subsection \<open>Imports keep the invariant\<close>

text \<open>Facts about the tree with one more leaf.\<close>

lemma attached_details:
  assumes at: "attached v p s s'" and p: "c_details s (v_parent_hash v) = Some p"
    and fresh: "c_details s (v_hash v) = None"
  shows "c_details s' h = (if h = v_hash v then Some \<lparr>bd_number = v_number v,
        bd_total_difficulty = bd_total_difficulty p + v_difficulty v,
        bd_parent = v_parent_hash v, bd_children = []\<rparr>
      else map_option (\<lambda>d. if h = v_parent_hash v then d\<lparr>bd_children := bd_children d @ [v_hash v]\<rparr> else d)
        (c_details s h))"
  using assms unfolding attached_def by (auto simp: option.map_ident)

lemma attached_old:
  assumes "attached v p s s'" "c_details s (v_parent_hash v) = Some p" "c_details s (v_hash v) = None"
    and "c_details s' h = Some d'" "h \<noteq> v_hash v"
  obtains d where "c_details s h = Some d" "bd_number d' = bd_number d" "bd_parent d' = bd_parent d"
    "bd_total_difficulty d' = bd_total_difficulty d"
    "bd_children d' = (if h = v_parent_hash v then bd_children d @ [v_hash v] else bd_children d)"
  using assms(4,5) attached_details [OF assms(1-3), of h] by (cases "c_details s h") auto

lemma attached_keep:
  assumes "attached v p s s'" "c_details s (v_parent_hash v) = Some p" "c_details s (v_hash v) = None"
    and "c_details s h = Some d"
  shows "\<exists>d'. c_details s' h = Some d' \<and> bd_number d' = bd_number d \<and> bd_parent d' = bd_parent d
    \<and> bd_total_difficulty d' = bd_total_difficulty d"
  using assms(3,4) attached_details [OF assms(1-3), of h] by auto

lemma attached_parent_of:
  assumes at: "attached v p s s'" and p: "c_details s (v_parent_hash v) = Some p"
    and fresh: "c_details s (v_hash v) = None"
  shows "parent_of (c_details s') h = (if h = v_hash v then v_parent_hash v else parent_of (c_details s) h)"
  unfolding parent_of_def attached_details [OF assms] by (auto split: option.split)

lemma attached_up:
  assumes at: "attached v p s s'" and p: "c_details s (v_parent_hash v) = Some p"
    and fresh: "c_details s (v_hash v) = None" and t: "tree_ok (c_details s) g"
    and h: "c_details s h = Some d"
  shows "k \<le> bd_number d \<Longrightarrow> up (c_details s') k h = up (c_details s) k h"
proof (induction k)
  case (Suc k)
  then have "up (c_details s) k h \<noteq> v_hash v" using up_stored [OF t h, of k] fresh by auto
  then show ?case using Suc by (simp add: up_Suc attached_parent_of [OF at p fresh])
qed simp

lemma attached_ancestor:
  assumes at: "attached v p s s'" and p: "c_details s (v_parent_hash v) = Some p"
    and fresh: "c_details s (v_hash v) = None" and t: "tree_ok (c_details s) g"
    and v: "v_number v = Suc (bd_number p)"
  shows "c_details s h = Some d \<Longrightarrow> ancestor_at (c_details s') h m = ancestor_at (c_details s) h m"
    and "m \<le> v_number v \<Longrightarrow> ancestor_at (c_details s') (v_hash v) m
      = (if m = v_number v then v_hash v else ancestor_at (c_details s) (v_parent_hash v) m)"
proof -
  note D = attached_details [OF at p fresh]
  have old: "ancestor_at (c_details s') h m = ancestor_at (c_details s) h m" if "c_details s h = Some d" for h d m
  proof -
    have "h \<noteq> v_hash v" using that fresh by auto
    then have "\<exists>d'. c_details s' h = Some d' \<and> bd_number d' = bd_number d" using that D [of h] by auto
    then show ?thesis using that attached_up [OF at p fresh t that] by (auto simp: ancestor_at_up)
  qed
  show "c_details s h = Some d \<Longrightarrow> ancestor_at (c_details s') h m = ancestor_at (c_details s) h m"
    by (rule old)
  assume m: "m \<le> v_number v"
  have "up (c_details s') (Suc k) (v_hash v) = up (c_details s') k (v_parent_hash v)" for k
    using up_parent [of "c_details s'" k "v_hash v"] attached_parent_of [OF at p fresh, of "v_hash v"] by simp
  moreover have "\<exists>d'. c_details s' (v_parent_hash v) = Some d' \<and> bd_number d' = bd_number p"
    using D [of "v_parent_hash v"] p fresh by auto
  moreover have "m \<noteq> v_number v \<Longrightarrow> v_number v - m = Suc (bd_number p - m)" using m v by simp
  ultimately show "ancestor_at (c_details s') (v_hash v) m
      = (if m = v_number v then v_hash v else ancestor_at (c_details s) (v_parent_hash v) m)"
    using old [OF p, of m] D [of "v_hash v"] by (auto simp: ancestor_at_up)
qed

lemma attached_tree:
  assumes at: "attached v p s s'" and p: "c_details s (v_parent_hash v) = Some p"
    and fresh: "c_details s (v_hash v) = None" and t: "tree_ok (c_details s) g"
    and v: "v_number v = Suc (bd_number p)"
  shows "tree_ok (c_details s') g"
  unfolding tree_ok_def
proof (intro conjI allI impI)
  note keep = attached_keep [OF at p fresh] and old = attached_old [OF at p fresh]
  have new: "bd_parent d = v_parent_hash v \<and> bd_number d = Suc (bd_number p)"
    if "c_details s' (v_hash v) = Some d" for d
    using attached_details [OF at p fresh, of "v_hash v"] v that by auto
  obtain dg where dg: "c_details s g = Some dg" "bd_number dg = 0" using tree_okD(1) [OF t] by blast
  show "\<exists>d. c_details s' g = Some d \<and> bd_number d = 0" using keep [OF dg(1)] dg(2) by auto
  fix h d' assume h: "c_details s' h = Some d'"
  show "h = g" if "bd_number d' = 0"
  proof -
    have "h \<noteq> v_hash v" using new h that by auto
    from old [OF h this] obtain d where d: "c_details s h = Some d" "bd_number d' = bd_number d" by blast
    then show ?thesis using tree_okD(2) [OF t d(1)] that by simp
  qed
  show "\<exists>q. c_details s' (bd_parent d') = Some q \<and> bd_number d' = Suc (bd_number q)" if n: "0 < bd_number d'"
  proof (cases "h = v_hash v")
    case True
    then have "bd_parent d' = v_parent_hash v" "bd_number d' = Suc (bd_number p)"
      using new h by simp_all
    then show ?thesis using keep [OF p] by force
  next
    case False
    from old [OF h this] obtain d where
      d: "c_details s h = Some d" "bd_number d' = bd_number d" "bd_parent d' = bd_parent d" by blast
    obtain q where q: "c_details s (bd_parent d) = Some q" "bd_number d = Suc (bd_number q)"
      using tree_okD(3) [OF t d(1)] d(2) n by auto
    show ?thesis using keep [OF q(1)] q(2) d(2,3) by auto
  qed
qed

lemma attached_children:
  assumes at: "attached v p s s'" and p: "c_details s (v_parent_hash v) = Some p"
    and fresh: "c_details s (v_hash v) = None" and t: "tree_ok (c_details s) g"
    and v: "v_number v = Suc (bd_number p)" and inv: "children_inv s"
  shows "children_inv s'"
  unfolding children_inv_def
proof (intro allI impI)
  note D = attached_details [OF at p fresh]
  let ?C = "\<lambda>s q. {c. \<exists>dc. c_details s c = Some dc \<and> 0 < bd_number dc \<and> bd_parent dc = q}"
  have step: "?C s' q = (if q = v_parent_hash v then insert (v_hash v) (?C s q) else ?C s q)" for q
  proof -
    have "c \<in> ?C s' q \<longleftrightarrow> c = v_hash v \<and> q = v_parent_hash v \<or> c \<in> ?C s q" for c
      using fresh v by (cases "c_details s c") (auto simp: D)
    then show ?thesis by auto
  qed
  fix q d assume q: "c_details s' q = Some d"
  show "set (bd_children d) = ?C s' q"
  proof (cases "q = v_hash v")
    case True
    have "bd_parent dc \<noteq> v_hash v" if "c_details s c = Some dc" "0 < bd_number dc" for c dc
      using t that fresh unfolding tree_ok_def by force
    then have "?C s (v_hash v) = {}" by blast
    then show ?thesis using True q D [of q] step [of q] p fresh by auto
  next
    case False
    obtain d0 where "c_details s q = Some d0"
        "bd_children d = (if q = v_parent_hash v then bd_children d0 @ [v_hash v] else bd_children d0)"
      using attached_old [OF at p fresh q False] by blast
    then show ?thesis using inv unfolding children_inv_def step by auto
  qed
qed

lemma attached_headers:
  assumes at: "attached v p s s'" and p: "c_details s (v_parent_hash v) = Some p"
    and fresh: "c_details s (v_hash v) = None"
    and v: "v_number v = Suc (bd_number p)" "length (v_log_bloom v) = BLOOM_SIZE" and inv: "headers_inv s"
  shows "headers_inv s'"
  unfolding headers_inv_def
proof (intro allI impI)
  note D = attached_details [OF at p fresh]
  note keep = attached_keep [OF at p fresh]
  fix h d assume h: "c_details s' h = Some d"
  show "\<exists>w. c_headers s' h = Some w \<and> c_bodies s' h = Some (v_transaction_hashes w)
      \<and> header_matches (c_details s') h d w"
  proof (cases "h = v_hash v")
    case True
    then show ?thesis
      using at h v D [of h] keep [OF p] by (auto simp: attached_def header_matches_def)
  next
    case False
    obtain d0 where d0: "c_details s h = Some d0" "bd_number d = bd_number d0" "bd_parent d = bd_parent d0"
        "bd_total_difficulty d = bd_total_difficulty d0"
      using attached_old [OF at p fresh h False] by blast
    then obtain w where w: "c_headers s h = Some w" "c_bodies s h = Some (v_transaction_hashes w)"
        "header_matches (c_details s) h d0 w"
      using inv unfolding headers_inv_def by blast
    then have "header_matches (c_details s') h d w"
      unfolding header_matches_def d0 using keep by metis
    then show ?thesis using w False at by (auto simp: attached_def)
  qed
qed

lemma attached_reads:
  assumes "attached v p s s'" "h \<noteq> v_hash v"
  shows "txs_at s' h = txs_at s h" "bloom_of s' h = bloom_of s h"
  using assms by (simp_all add: attached_def txs_at_def bloom_of_def)

lemma attached_reads_new:
  assumes "attached v p s s'"
  shows "txs_at s' (v_hash v) = v_transaction_hashes v" "bloom_of s' (v_hash v) = v_log_bloom v"
  using assms by (simp_all add: attached_def txs_at_def bloom_of_def)

text \<open>The canonical chain after an import.\<close>

lemma canon_after_best:
  assumes inv: "chain_inv g s" and at: "attached v p s s'" and p: "c_details s (v_parent_hash v) = Some p"
    and fresh: "c_details s (v_hash v) = None" and v: "v_number v = Suc (bd_number p)"
    and bb: "became_best v p n s s'" and m: "m \<le> v_number v"
  shows "canon s' m = (if m = v_number v then v_hash v
    else if n < m then ancestor_at (c_details s) (v_parent_hash v) m else canon s m)"
proof -
  have t: "tree_ok (c_details s) g" using inv by (simp add: chain_inv_def)
  have best: "bb_hash (c_best s') = v_hash v" and n: "n \<le> bd_number p" "n \<le> bb_number (c_best s)"
      "canon s n = ancestor_at (c_details s) (v_parent_hash v) n"
    using bb by (simp_all add: became_best_def)
  have eq: "canon s' m = (if m = v_number v then v_hash v else ancestor_at (c_details s) (v_parent_hash v) m)"
    using attached_ancestor(2) [OF at p fresh t v m] by (simp add: canon_def best)
  obtain d where d: "c_details s (bb_hash (c_best s)) = Some d" "bd_number d = bb_number (c_best s)"
    using chain_inv_best [OF inv] by blast
  have "ancestor_at (c_details s) (v_parent_hash v) m = canon s m" if "m \<le> n"
    using ancestor_at_trans [OF t p that n(1)] ancestor_at_trans [OF t d(1) that] n(2,3) d(2)
    by (simp add: canon_def)
  then show ?thesis using eq v n(1) by auto
qed

lemma canon_after_branch:
  assumes inv: "chain_inv g s" and at: "attached v p s s'" and p: "c_details s (v_parent_hash v) = Some p"
    and fresh: "c_details s (v_hash v) = None" and v: "v_number v = Suc (bd_number p)"
    and best: "c_best s' = c_best s"
  shows "canon s' m = canon s m"
proof -
  have t: "tree_ok (c_details s) g" using inv by (simp add: chain_inv_def)
  obtain d where d: "c_details s (bb_hash (c_best s)) = Some d" using chain_inv_best [OF inv] by blast
  show ?thesis unfolding canon_def best by (rule attached_ancestor(1) [OF at p fresh t v d])
qed

lemma not_fresh:
  assumes "chain_inv g s" "c_details s h = None" "m \<le> bb_number (c_best s)"
  shows "canon s m \<noteq> h"
  using canon_stored [OF assms(1,3)] assms(2) by auto

lemma attached_txs:
  assumes inv: "chain_inv g s" and valid: "valid_block s v" and at: "attached v p s s'"
    and p: "c_details s (v_parent_hash v) = Some p" and fresh: "c_details s (v_hash v) = None"
  shows "txs_inv s'"
  unfolding txs_inv_def
proof (intro allI impI)
  have t: "tree_ok (c_details s) g" and ti: "txs_inv s" using inv by (simp_all add: chain_inv_def)
  have v: "v_number v = Suc (bd_number p)" "distinct (v_transaction_hashes v)"
      "\<And>m. m \<le> bd_number p \<Longrightarrow> set (v_transaction_hashes v)
        \<inter> set (txs_at s (ancestor_at (c_details s) (v_parent_hash v) m)) = {}"
    using valid p by (auto simp: valid_block_def)
  have anc: "txs_at s' (ancestor_at (c_details s) h m) = txs_at s (ancestor_at (c_details s) h m)"
    if "c_details s h = Some d" "m \<le> bd_number d" for h d m
    using ancestor_at_stored [OF t that] fresh by (intro attached_reads(1) [OF at]) auto
  fix h d' assume h: "c_details s' h = Some d'"
  show "distinct (txs_at s' h)
      \<and> (\<forall>m<bd_number d'. set (txs_at s' h) \<inter> set (txs_at s' (ancestor_at (c_details s') h m)) = {})"
  proof (cases "h = v_hash v")
    case True
    then have "bd_number d' = Suc (bd_number p)"
      using h attached_details [OF at p fresh, of h] v(1) by auto
    moreover have "ancestor_at (c_details s') h m = ancestor_at (c_details s) (v_parent_hash v) m"
      if "m \<le> bd_number p" for m
      using attached_ancestor(2) [OF at p fresh t v(1)] that v(1) True by simp
    ultimately show ?thesis
      using True v(2,3) anc [OF p] attached_reads_new(1) [OF at] by (simp add: less_Suc_eq_le)
  next
    case False
    obtain d where d: "c_details s h = Some d" "bd_number d' = bd_number d"
      using attached_old [OF at p fresh h False] by blast
    have "distinct (txs_at s h)
        \<and> (\<forall>m<bd_number d. set (txs_at s h) \<inter> set (txs_at s (ancestor_at (c_details s) h m)) = {})"
      using ti d(1) unfolding txs_inv_def by blast
    then show ?thesis
      unfolding d(2) attached_reads(1) [OF at False] attached_ancestor(1) [OF at p fresh t v(1) d(1)]
      using anc [OF d(1)] by simp
  qed
qed

text \<open>A transaction has one place on the canonical chain.\<close>

lemma canon_tx_unique:
  assumes t: "tree_ok (c_details s) g" and best: "best_inv s" and ti: "txs_inv s"
    and "m \<le> bb_number (c_best s)" "m' \<le> bb_number (c_best s)"
    and "tx_in s (canon s m) tx a" "tx_in s (canon s m') tx a'"
  shows "m = m' \<and> a = a'"
proof -
  obtain d where d: "c_details s (bb_hash (c_best s)) = Some d" "bd_number d = bb_number (c_best s)"
    using best unfolding best_inv_def by blast
  have sep: False if ij: "i < j" "j \<le> bb_number (c_best s)" "tx \<in> set (txs_at s (canon s i))"
      "tx \<in> set (txs_at s (canon s j))" for i j
  proof -
    obtain dj where dj: "c_details s (canon s j) = Some dj" "bd_number dj = j"
      using ancestor_at_stored [OF t d(1)] ij(2) d(2) by (auto simp: canon_def)
    have "ancestor_at (c_details s) (canon s j) i = canon s i"
      using ancestor_at_trans [OF t d(1), of i j] ij(1,2) d(2) by (simp add: canon_def)
    then show False using ti dj ij(1,3,4) unfolding txs_inv_def by (metis disjoint_iff)
  qed
  have mem: "tx \<in> set (txs_at s (canon s m))" "tx \<in> set (txs_at s (canon s m'))"
    using assms(6,7) unfolding tx_in_def by (metis nth_mem)+
  have mm: "m = m'" using sep [of m m'] sep [of m' m] mem assms(4,5) by (metis linorder_neqE_nat)
  obtain dm where "c_details s (canon s m) = Some dm"
    using ancestor_at_stored [OF t d(1)] assms(4) d(2) by (auto simp: canon_def)
  then have "distinct (txs_at s (canon s m))" using ti unfolding txs_inv_def by blast
  then have "ta_index a = ta_index a'"
    using assms(6,7) mm by (auto simp: tx_in_def nth_eq_iff_index_eq)
  then have "a = a'" using assms(6,7) mm by (simp add: tx_in_def tx_address.equality)
  with mm show ?thesis by simp
qed

lemma collect_append: "collect_map (xs @ ys) = collect_map xs ++ collect_map ys"
  by (simp add: collect_map_def)

lemma collect_None: "collect_map xs t = None \<longleftrightarrow> t \<notin> fst ` set xs"
  by (simp add: collect_map_def map_of_eq_None_iff)

lemma collect_Some:
  assumes "\<And>t x y. (t, x) \<in> set xs \<Longrightarrow> (t, y) \<in> set xs \<Longrightarrow> x = y"
  shows "collect_map xs t = Some x \<longleftrightarrow> (t, x) \<in> set xs"
proof -
  have "collect_map xs t = Some x \<Longrightarrow> (t, x) \<in> set xs" for x
    by (auto simp: collect_map_def dest: map_of_SomeD)
  moreover have "(t, x) \<in> set xs \<Longrightarrow> \<exists>y. collect_map xs t = Some y"
    using collect_None [of xs t] by force
  ultimately show ?thesis using assms by blast
qed

lemma block_addresses_set:
  "(t, x) \<in> set (block_addresses h txs)
   \<longleftrightarrow> (\<exists>a. x = Some a \<and> ta_block_hash a = h \<and> ta_index a < length txs \<and> txs ! ta_index a = t)"
proof -
  have "(t, x) \<in> set (block_addresses h txs)
    \<longleftrightarrow> (\<exists>q\<in>set (enumerate 0 txs). t = snd q \<and> x = Some \<lparr>ta_block_hash = h, ta_index = fst q\<rparr>)"
    by (auto simp: block_addresses_def image_iff case_prod_unfold)
  also have "\<dots> \<longleftrightarrow> (\<exists>i<length txs. txs ! i = t \<and> x = Some \<lparr>ta_block_hash = h, ta_index = i\<rparr>)"
    by (auto simp: in_set_enumerate_eq Bex_def)
  also have "\<dots> \<longleftrightarrow> (\<exists>a. x = Some a \<and> ta_block_hash a = h \<and> ta_index a < length txs \<and> txs ! ta_index a = t)"
  proof
    assume "\<exists>a. x = Some a \<and> ta_block_hash a = h \<and> ta_index a < length txs \<and> txs ! ta_index a = t"
    then obtain a where "x = Some a" "ta_block_hash a = h" "ta_index a < length txs" "txs ! ta_index a = t" by blast
    then show "\<exists>i<length txs. txs ! i = t \<and> x = Some \<lparr>ta_block_hash = h, ta_index = i\<rparr>"
      by (cases a) auto
  qed auto
  finally show ?thesis .
qed

lemma tx_in_set: "t \<in> set (txs_at s h) \<longleftrightarrow> (\<exists>a. tx_in s h t a)"
proof
  assume "t \<in> set (txs_at s h)"
  then obtain i where "i < length (txs_at s h)" "txs_at s h ! i = t" by (auto simp: in_set_conv_nth)
  then show "\<exists>a. tx_in s h t a"
    by (intro exI [of _ "\<lparr>ta_block_hash = h, ta_index = i\<rparr>"]) (simp add: tx_in_def)
qed (auto simp: tx_in_def)

lemma news_entries:
  assumes inv: "chain_inv g s" and at: "attached v p s s'" and p: "c_details s (v_parent_hash v) = Some p"
    and fresh: "c_details s (v_hash v) = None" and v: "v_number v = Suc (bd_number p)"
    and bb: "became_best v p n s s'"
  shows "(t, x) \<in> set (concat (map (\<lambda>h. block_addresses h (txs_at s h))
        (map (ancestor_at (c_details s) (v_parent_hash v)) [Suc n ..< Suc (bd_number p)]))
      @ block_addresses (v_hash v) (v_transaction_hashes v))
    \<longleftrightarrow> (\<exists>m a. n < m \<and> m \<le> v_number v \<and> x = Some a \<and> tx_in s' (canon s' m) t a)"
proof -
  have tree: "tree_ok (c_details s) g" using inv by (simp add: chain_inv_def)
  have n: "n \<le> bd_number p" using bb by (simp add: became_best_def)
  note canon' = canon_after_best [OF inv at p fresh v bb]
  have old: "txs_at s' (ancestor_at (c_details s) (v_parent_hash v) m)
      = txs_at s (ancestor_at (c_details s) (v_parent_hash v) m)" if "m \<le> bd_number p" for m
    using ancestor_at_stored [OF tree p that] fresh by (intro attached_reads(1) [OF at]) auto
  have adr: "(t, x) \<in> set (block_addresses (canon s' m) (txs_at s' (canon s' m)))
      \<longleftrightarrow> (\<exists>a. x = Some a \<and> tx_in s' (canon s' m) t a)" for m
    unfolding block_addresses_set tx_in_def ..
  have "(t, x) \<in> set (block_addresses (v_hash v) (v_transaction_hashes v))
      \<longleftrightarrow> (\<exists>a. x = Some a \<and> tx_in s' (canon s' (v_number v)) t a)"
    using adr [of "v_number v"] canon' [of "v_number v"] attached_reads_new(1) [OF at] by simp
  moreover have "(t, x) \<in> set (block_addresses (ancestor_at (c_details s) (v_parent_hash v) m)
          (txs_at s (ancestor_at (c_details s) (v_parent_hash v) m)))
      \<longleftrightarrow> (\<exists>a. x = Some a \<and> tx_in s' (canon s' m) t a)" if "n < m" "m \<le> bd_number p" for m
    using adr [of m] canon' [of m] old [OF that(2)] that v by simp
  ultimately have "(t, x) \<in> set (concat (map (\<lambda>h. block_addresses h (txs_at s h))
        (map (ancestor_at (c_details s) (v_parent_hash v)) [Suc n ..< Suc (bd_number p)]))
      @ block_addresses (v_hash v) (v_transaction_hashes v))
    \<longleftrightarrow> (\<exists>m. n < m \<and> m \<le> bd_number p \<and> (\<exists>a. x = Some a \<and> tx_in s' (canon s' m) t a))
      \<or> (\<exists>a. x = Some a \<and> tx_in s' (canon s' (v_number v)) t a)"
    by (auto simp del: upt_Suc simp: less_Suc_eq_le Suc_le_eq)
  also have "\<dots> \<longleftrightarrow> (\<exists>m a. n < m \<and> m \<le> v_number v \<and> x = Some a \<and> tx_in s' (canon s' m) t a)"
  proof -
    have "n < m \<and> m \<le> v_number v \<longleftrightarrow> n < m \<and> m \<le> bd_number p \<or> m = v_number v" for m
      using n v by auto
    then show ?thesis by blast
  qed
  finally show ?thesis .
qed

lemma retracted_entries:
  "(t, x) \<in> set (concat (map (\<lambda>h. map (\<lambda>t. (t, None)) (txs_at s h))
       (rev (map (canon s) [Suc n ..< Suc (bb_number (c_best s))]))))
   \<longleftrightarrow> x = None \<and> (\<exists>m a. n < m \<and> m \<le> bb_number (c_best s) \<and> tx_in s (canon s m) t a)"
proof -
  have "(t, x) \<in> set (concat (map (\<lambda>h. map (\<lambda>t. (t, None)) (txs_at s h))
       (rev (map (canon s) [Suc n ..< Suc (bb_number (c_best s))]))))
    \<longleftrightarrow> (\<exists>m\<in>{Suc n ..< Suc (bb_number (c_best s))}. x = None \<and> t \<in> set (txs_at s (canon s m)))"
    by (auto simp del: upt_Suc)
  then show ?thesis by (auto simp: tx_in_set Suc_le_eq less_Suc_eq_le Bex_def)
qed

lemma commit_collected:
  assumes "\<And>x. collect_map N t = Some x \<longleftrightarrow> (t, x) \<in> set N" "\<And>x. collect_map R t = Some x \<longleftrightarrow> (t, x) \<in> set R"
    and "\<And>x. (t, x) \<in> set N \<Longrightarrow> x \<noteq> None" "\<And>x. (t, x) \<in> set R \<Longrightarrow> x = None"
  shows "commit_addresses A (collect_map R ++ collect_map N) t = Some a \<longleftrightarrow>
    (t, Some a) \<in> set N \<or> (\<forall>x. (t, x) \<notin> set N) \<and> (\<forall>x. (t, x) \<notin> set R) \<and> A t = Some a"
proof (cases "collect_map N t")
  case None
  then have noN: "\<forall>x. (t, x) \<notin> set N" using assms(1) by simp
  show ?thesis
  proof (cases "collect_map R t")
    case None
    then have "\<forall>x. (t, x) \<notin> set R" using assms(2) by simp
    then show ?thesis using None \<open>collect_map N t = None\<close> noN by (simp add: commit_addresses_def map_add_def)
  next
    case (Some x)
    then have "(t, x) \<in> set R" "x = None" using assms(2,4) by auto
    then show ?thesis using Some \<open>collect_map N t = None\<close> noN by (auto simp: commit_addresses_def map_add_def)
  qed
next
  case (Some x)
  then have x: "(t, x) \<in> set N" "x \<noteq> None" using assms(1,3) by auto
  moreover have "(t, Some a) \<in> set N \<longleftrightarrow> x = Some a" using assms(1) [of "Some a"] Some by auto
  ultimately show ?thesis using Some by (auto simp: commit_addresses_def map_add_def)
qed

lemma addresses_after_best:
  assumes inv: "chain_inv g s" and valid: "valid_block s v" and at: "attached v p s s'"
    and p: "c_details s (v_parent_hash v) = Some p" and fresh: "c_details s (v_hash v) = None"
    and bb: "became_best v p n s s'" and best: "best_inv s'"
  shows "addresses_inv s'"
  unfolding addresses_inv_def
proof (intro allI)
  fix t a
  have v: "v_number v = Suc (bd_number p)" using valid p by (auto simp: valid_block_def)
  have tree: "tree_ok (c_details s) g" and old: "best_inv s" "txs_inv s" "addresses_inv s"
    using inv by (simp_all add: chain_inv_def)
  note tree' = attached_tree [OF at p fresh tree v] and txs' = attached_txs [OF inv valid at p fresh]
  note unique = canon_tx_unique [OF tree old(1,2)] and unique' = canon_tx_unique [OF tree' best txs']
  note canon' = canon_after_best [OF inv at p fresh v bb]
  have B': "bb_number (c_best s') = v_number v" and n: "n \<le> bb_number (c_best s)" "n \<le> bd_number p"
    using bb by (simp_all add: became_best_def)
  let ?R = "concat (map (\<lambda>h. map (\<lambda>t. (t, None :: tx_address option)) (txs_at s h))
    (rev (map (canon s) [Suc n ..< Suc (bb_number (c_best s))])))"
  let ?N = "concat (map (\<lambda>h. block_addresses h (txs_at s h))
      (map (ancestor_at (c_details s) (v_parent_hash v)) [Suc n ..< Suc (bd_number p)]))
    @ block_addresses (v_hash v) (v_transaction_hashes v)"
  note new = news_entries [OF inv at p fresh v bb] and ret = retracted_entries [of _ _ s n]
  have "collect_map ?N t = Some x \<longleftrightarrow> (t, x) \<in> set ?N" for x
  proof (rule collect_Some)
    fix t x y assume "(t, x) \<in> set ?N" "(t, y) \<in> set ?N"
    then show "x = y" unfolding new using unique' B' by metis
  qed
  moreover have "collect_map ?R t = Some x \<longleftrightarrow> (t, x) \<in> set ?R" for x
    by (rule collect_Some) (simp only: ret)
  moreover have "x \<noteq> None" if "(t, x) \<in> set ?N" for x using that unfolding new by blast
  moreover have "x = None" if "(t, x) \<in> set ?R" for x using that unfolding ret by blast
  ultimately have "commit_addresses (c_addresses s) (collect_map ?R ++ collect_map ?N) t = Some a \<longleftrightarrow>
      (t, Some a) \<in> set ?N \<or> (\<forall>x. (t, x) \<notin> set ?N) \<and> (\<forall>x. (t, x) \<notin> set ?R) \<and> c_addresses s t = Some a"
    by (rule commit_collected)
  moreover have "c_addresses s' = commit_addresses (c_addresses s) (collect_map ?R ++ collect_map ?N)"
    using bb by (simp only: became_best_def address_entries_def collect_append)
  ultimately have eq: "c_addresses s' t = Some a \<longleftrightarrow>
      (t, Some a) \<in> set ?N \<or> (\<forall>x. (t, x) \<notin> set ?N) \<and> (\<forall>x. (t, x) \<notin> set ?R) \<and> c_addresses s t = Some a"
    by (simp only:)
  have upd: "c_addresses s' t = Some a \<longleftrightarrow>
      (\<exists>m. n < m \<and> m \<le> v_number v \<and> tx_in s' (canon s' m) t a)
      \<or> (\<nexists>m b. n < m \<and> m \<le> v_number v \<and> tx_in s' (canon s' m) t b)
        \<and> (\<nexists>m b. n < m \<and> m \<le> bb_number (c_best s) \<and> tx_in s (canon s m) t b)
        \<and> (\<exists>m\<le>bb_number (c_best s). tx_in s (canon s m) t a)"
  proof -
    have noN: "(\<forall>x. (t, x) \<notin> set ?N) \<longleftrightarrow> (\<nexists>m b. n < m \<and> m \<le> v_number v \<and> tx_in s' (canon s' m) t b)"
      unfolding new by blast
    have noR: "(\<forall>x. (t, x) \<notin> set ?R) \<longleftrightarrow> (\<nexists>m b. n < m \<and> m \<le> bb_number (c_best s) \<and> tx_in s (canon s m) t b)"
      unfolding ret by blast
    have inN: "(t, Some a) \<in> set ?N \<longleftrightarrow> (\<exists>m. n < m \<and> m \<le> v_number v \<and> tx_in s' (canon s' m) t a)"
      unfolding new by blast
    have was: "c_addresses s t = Some a \<longleftrightarrow> (\<exists>m\<le>bb_number (c_best s). tx_in s (canon s m) t a)"
      using old(3) unfolding addresses_inv_def by blast
    show ?thesis unfolding eq noN noR inN was ..
  qed
  have below: "tx_in s' (canon s' m) t a \<longleftrightarrow> tx_in s (canon s m) t a" if "m \<le> n" for m
  proof -
    have "canon s' m = canon s m" using canon' [of m] that n v by simp
    moreover have "canon s m \<noteq> v_hash v" using not_fresh [OF inv fresh] that n by simp
    ultimately show ?thesis by (simp add: tx_in_def attached_reads(1) [OF at])
  qed
  show "c_addresses s' t = Some a \<longleftrightarrow> (\<exists>m\<le>bb_number (c_best s'). tx_in s' (canon s' m) t a)"
  proof
    assume "c_addresses s' t = Some a"
    then show "\<exists>m\<le>bb_number (c_best s'). tx_in s' (canon s' m) t a"
      unfolding upd B' using below n v by (metis le_SucI le_trans not_le)
  next
    assume "\<exists>m\<le>bb_number (c_best s'). tx_in s' (canon s' m) t a"
    then obtain m where m: "m \<le> v_number v" "tx_in s' (canon s' m) t a" unfolding B' by blast
    show "c_addresses s' t = Some a"
    proof (cases "n < m")
      case True
      with m show ?thesis unfolding upd by blast
    next
      case False
      then have mn: "m \<le> n" by simp
      have "k = m" if "k \<le> v_number v" "tx_in s' (canon s' k) t b" for k b
        using unique' [of k m] that m B' by simp
      moreover have "k = m" if "k \<le> bb_number (c_best s)" "tx_in s (canon s k) t b" for k b
        using unique [of k m] that m(2) below [OF mn] mn n(1) by simp
      ultimately show ?thesis unfolding upd using m(2) below [OF mn] mn n(1) by (metis not_le le_trans)
    qed
  qed
qed

lemma blooms_after_best:
  assumes inv: "chain_inv g s" and valid: "valid_block s v" and at: "attached v p s s'"
    and p: "c_details s (v_parent_hash v) = Some p" and fresh: "c_details s (v_hash v) = None"
    and bb: "became_best v p n s s'"
  shows "blooms_inv s'"
proof -
  have v: "v_number v = Suc (bd_number p)" "length (v_log_bloom v) = BLOOM_SIZE"
    using valid p by (auto simp: valid_block_def)
  have t: "tree_ok (c_details s) g" using inv by (simp add: chain_inv_def)
  have B': "bb_number (c_best s') = v_number v" and n: "n \<le> bb_number (c_best s)" "n \<le> bd_number p"
    using bb by (simp_all add: became_best_def)
  have cfg: "c_config s' = c_config s" using at by (simp add: attached_def)
  let ?k = "elements_per_index (c_config s)" and ?B = "bb_number (c_best s)"
  let ?up = "ancestor_at (c_details s) (v_parent_hash v)"
  obtain m where m: "manager_new ?k (levels (c_config s)) = Some m" "0 < ?k" "log_db.index_inv m (c_blooms s)"
      and old: "block_bloom (store_bloom_at ?k (c_blooms s))
        = (\<lambda>n. if 0 < n \<and> n \<le> ?B then bloom_of s (canon s n) else bloom_default)"
    using inv by (auto simp: chain_inv_def blooms_inv_def)
  let ?loc = "if n = ?B \<and> n = bd_number p then BloomCanon (v_number v) (v_log_bloom v)
    else BloomReorg n ?B (map (\<lambda>m. bloom_of s (?up m)) [Suc n ..< Suc (bd_number p)]) (v_log_bloom v)"
  have sized: "location_sized ?loc" using v(2) route_blooms_sized [OF inv p, of n] by (simp del: upt_Suc)
  have imp: "import_blooms (c_config s) ?loc (c_blooms s) = Some (c_blooms s')"
    using bb by (simp add: became_best_def del: upt_Suc)
  have step: "log_db.index_inv m (c_blooms s')"
      "block_bloom (store_bloom_at ?k (c_blooms s')) = location_blooms ?loc (block_bloom (store_bloom_at ?k (c_blooms s)))"
    using import_blooms_step [OF m sized] imp by auto
  have canon: "bloom_of s' (canon s' x) = (if x = v_number v then v_log_bloom v
      else if n < x then bloom_of s (?up x) else bloom_of s (canon s x))" if "x \<le> v_number v" for x
  proof -
    have "?up x \<noteq> v_hash v" if "x \<le> bd_number p" using ancestor_at_stored [OF t p that] fresh by auto
    moreover have "canon s x \<noteq> v_hash v" if "x \<le> n" using not_fresh [OF inv fresh] that n by simp
    ultimately show ?thesis
      using canon_after_best [OF inv at p fresh v(1) bb that] attached_reads(2) [OF at]
        attached_reads_new(2) [OF at] that v(1) n by auto
  qed
  have "location_blooms ?loc (block_bloom (store_bloom_at ?k (c_blooms s))) x
      = (if 0 < x \<and> x \<le> v_number v then bloom_of s' (canon s' x) else bloom_default)" for x
  proof (cases "n = ?B \<and> n = bd_number p")
    case True
    then show ?thesis using canon [of x] v accrue_default [OF v(2)] unfolding old by auto
  next
    case False
    have nth: "(map (\<lambda>m. bloom_of s (?up m)) [Suc n ..< Suc (bd_number p)] @ [v_log_bloom v]) ! (x - Suc n)
        = (if x = v_number v then v_log_bloom v else bloom_of s (?up x))" if "n < x" "x \<le> v_number v"
      using that v(1) n by (auto simp: nth_append simp del: upt_Suc)
    show ?thesis
      using False canon [of x] nth v(1) n unfolding old by (auto simp del: upt_Suc)
  qed
  then have "block_bloom (store_bloom_at ?k (c_blooms s'))
      = (\<lambda>x. if 0 < x \<and> x \<le> v_number v then bloom_of s' (canon s' x) else bloom_default)"
    unfolding step(2) by (rule ext)
  then show ?thesis using m step(1) unfolding blooms_inv_def cfg B' by blast
qed

lemma best_after:
  assumes inv: "chain_inv g s" and at: "attached v p s s'"
    and p: "c_details s (v_parent_hash v) = Some p" and fresh: "c_details s (v_hash v) = None"
    and td: "bd_total_difficulty p + v_difficulty v \<le> bb_total_difficulty (c_best s')"
      "bb_total_difficulty (c_best s) \<le> bb_total_difficulty (c_best s')"
    and best: "\<exists>d. c_details s' (bb_hash (c_best s')) = Some d \<and> bd_number d = bb_number (c_best s')
        \<and> bd_total_difficulty d = bb_total_difficulty (c_best s')"
  shows "best_inv s'"
  unfolding best_inv_def
proof (intro conjI allI impI best)
  fix h d assume h: "c_details s' h = Some d"
  show "bd_total_difficulty d \<le> bb_total_difficulty (c_best s')"
  proof (cases "h = v_hash v")
    case True
    then show ?thesis using h td(1) attached_details [OF at p fresh, of h] by auto
  next
    case False
    obtain d0 where d0: "c_details s h = Some d0" "bd_total_difficulty d = bd_total_difficulty d0"
      using attached_old [OF at p fresh h False] by blast
    have "bd_total_difficulty d0 \<le> bb_total_difficulty (c_best s)"
      using inv d0(1) unfolding chain_inv_def best_inv_def by blast
    then show ?thesis using d0(2) td(2) by simp
  qed
qed

text \<open>Everything that does not depend on whether the block becomes the best one.\<close>

lemma attached_inv:
  assumes inv: "chain_inv g s" and valid: "valid_block s v" and at: "attached v p s s'"
    and p: "c_details s (v_parent_hash v) = Some p" and fresh: "c_details s (v_hash v) = None"
  shows "pending_empty s' \<and> tree_ok (c_details s') g \<and> children_inv s' \<and> headers_inv s' \<and> txs_inv s'"
proof -
  have v: "v_number v = Suc (bd_number p)" "length (v_log_bloom v) = BLOOM_SIZE"
    using valid p by (auto simp: valid_block_def)
  have parts: "tree_ok (c_details s) g" "children_inv s" "headers_inv s"
    using inv by (simp_all add: chain_inv_def)
  show ?thesis
    using attached_tree [OF at p fresh parts(1) v(1)] attached_children [OF at p fresh parts(1) v(1) parts(2)]
      attached_headers [OF at p fresh v parts(3)] attached_txs [OF inv valid at p fresh] at
    by (simp add: attached_def)
qed

lemma became_best_inv:
  assumes inv: "chain_inv g s" and valid: "valid_block s v" and at: "attached v p s s'"
    and p: "c_details s (v_parent_hash v) = Some p" and fresh: "c_details s (v_hash v) = None"
    and best: "bb_total_difficulty (c_best s) < bd_total_difficulty p + v_difficulty v"
    and bb: "became_best v p n s s'"
  shows "chain_inv g s'"
proof -
  have v: "v_number v = Suc (bd_number p)" using valid p by (auto simp: valid_block_def)
  have b: "bb_hash (c_best s') = v_hash v" "bb_number (c_best s') = v_number v"
      "bb_total_difficulty (c_best s') = bd_total_difficulty p + v_difficulty v"
      "n \<le> bb_number (c_best s)" "n \<le> bd_number p"
    using bb by (simp_all add: became_best_def)
  have bi: "best_inv s'"
    by (rule best_after [OF inv at p fresh])
      (use b best attached_details [OF at p fresh, of "v_hash v"] in auto)
  have "canon_inv s'"
    unfolding canon_inv_def
  proof (intro allI impI)
    fix m assume m: "m \<le> bb_number (c_best s')"
    have "c_hashes s m = Some (canon s m)" if "m \<le> n"
      using inv that b(4) by (auto simp: chain_inv_def canon_inv_def)
    then show "c_hashes s' m = Some (canon s' m)"
      using canon_after_best [OF inv at p fresh v bb] bb m b(2,5) v by (auto simp: became_best_def)
  qed
  then show ?thesis
    using attached_inv [OF inv valid at p fresh] bi blooms_after_best [OF inv valid at p fresh bb]
      addresses_after_best [OF inv valid at p fresh bb bi]
    by (simp add: chain_inv_def)
qed

lemma branch_inv:
  assumes inv: "chain_inv g s" and valid: "valid_block s v" and at: "attached v p s s'"
    and p: "c_details s (v_parent_hash v) = Some p" and fresh: "c_details s (v_hash v) = None"
    and best: "bd_total_difficulty p + v_difficulty v \<le> bb_total_difficulty (c_best s)"
    and same: "c_best s' = c_best s" "c_hashes s' = c_hashes s" "c_addresses s' = c_addresses s"
      "c_blooms s' = c_blooms s"
  shows "chain_inv g s'"
proof -
  have v: "v_number v = Suc (bd_number p)" using valid p by (auto simp: valid_block_def)
  obtain d where d: "c_details s (bb_hash (c_best s)) = Some d" "bd_number d = bb_number (c_best s)"
      "bd_total_difficulty d = bb_total_difficulty (c_best s)"
    using chain_inv_best [OF inv] by blast
  have bi: "best_inv s'"
    by (rule best_after [OF inv at p fresh])
      (use best same(1) d(2,3) attached_keep [OF at p fresh d(1)] in auto)
  note canon = canon_after_branch [OF inv at p fresh v same(1)]
  have reads: "txs_at s' (canon s m) = txs_at s (canon s m)" "bloom_of s' (canon s m) = bloom_of s (canon s m)"
    if "m \<le> bb_number (c_best s)" for m
    using attached_reads [OF at not_fresh [OF inv fresh that]] by simp_all
  have cfg: "c_config s' = c_config s" using at by (simp add: attached_def)
  have "(\<exists>m\<le>bb_number (c_best s). tx_in s' (canon s m) t a) \<longleftrightarrow> (\<exists>m\<le>bb_number (c_best s). tx_in s (canon s m) t a)"
    for t a
    using reads(1) by (auto simp: tx_in_def)
  then have "addresses_inv s'"
    using inv unfolding chain_inv_def addresses_inv_def same canon by simp
  moreover have "blooms_inv s'"
  proof -
    have "(\<lambda>n. if 0 < n \<and> n \<le> bb_number (c_best s) then bloom_of s' (canon s n) else bloom_default)
        = (\<lambda>n. if 0 < n \<and> n \<le> bb_number (c_best s) then bloom_of s (canon s n) else bloom_default)"
      using reads(2) by (auto simp: fun_eq_iff)
    then show ?thesis using inv unfolding chain_inv_def blooms_inv_def same canon cfg by simp
  qed
  moreover have "canon_inv s'"
    using inv unfolding chain_inv_def canon_inv_def same canon by blast
  ultimately show ?thesis using attached_inv [OF inv valid at p fresh] bi by (simp add: chain_inv_def)
qed

lemma commit_nothing: "pending_empty s \<Longrightarrow> commit_chain s = s"
  by (simp add: pending_empty_def commit_chain_def commit_addresses_def [abs_def] option.case_eq_if)

lemma import_known:
  assumes inv: "chain_inv g s" and valid: "valid_block s v" and known: "c_details s (v_hash v) = Some d"
  shows "import_block (v, receipts) s = Some s"
proof -
  obtain p where p: "c_details s (v_parent_hash v) = Some p" "0 < bd_number d" "bd_parent d = v_parent_hash v"
    using valid known by (auto simp: valid_block_def)
  have "v_hash v \<in> set (bd_children p)"
    using inv p known unfolding chain_inv_def children_inv_def by blast
  then have "is_known_child s (v_parent_hash v) (v_hash v)" by (simp add: is_known_child_def p(1))
  moreover have "pending_empty s" using inv by (simp add: chain_inv_def)
  ultimately show ?thesis by (simp add: import_block_def insert_block_def commit_nothing)
qed

text \<open>Importing a valid block never panics and keeps the invariant.\<close>

lemma import_inv:
  assumes inv: "chain_inv g s" and valid: "valid_block s v"
  shows "\<exists>s'. import_block (v, receipts) s = Some s' \<and> chain_inv g s' \<and> c_details s' (v_hash v) \<noteq> None
    \<and> bb_total_difficulty (c_best s) \<le> bb_total_difficulty (c_best s')"
proof (cases "c_details s (v_hash v)")
  case (Some d)
  then show ?thesis using import_known [OF inv valid Some] inv by auto
next
  case None
  obtain p where p: "c_details s (v_parent_hash v) = Some p" using valid by (auto simp: valid_block_def)
  show ?thesis
  proof (cases "bb_total_difficulty (c_best s) < bd_total_difficulty p + v_difficulty v")
    case True
    obtain s' n where s': "import_block (v, receipts) s = Some s'" "attached v p s s'" "became_best v p n s s'"
      using import_best [OF inv valid None p True] by blast
    moreover have "bb_total_difficulty (c_best s') = bd_total_difficulty p + v_difficulty v"
      using s'(3) by (simp add: became_best_def)
    ultimately show ?thesis
      using became_best_inv [OF inv valid s'(2) p None True s'(3)]
        attached_details [OF s'(2) p None, of "v_hash v"] True by auto
  next
    case False
    then have le: "bd_total_difficulty p + v_difficulty v \<le> bb_total_difficulty (c_best s)" by simp
    obtain s' where s': "import_block (v, receipts) s = Some s'" "attached v p s s'" "c_best s' = c_best s"
        "c_hashes s' = c_hashes s" "c_addresses s' = c_addresses s" "c_blooms s' = c_blooms s"
      using import_branch [OF inv valid None p le] by blast
    then show ?thesis
      using branch_inv [OF inv valid s'(2) p None le s'(3-6)]
        attached_details [OF s'(2) p None, of "v_hash v"] by auto
  qed
qed

subsection \<open>Reachable stores\<close>

definition genesis_ok :: "bloom_config \<Rightarrow> block_view \<Rightarrow> bool" where
  "genesis_ok config genesis \<longleftrightarrow> v_number genesis = 0 \<and> v_log_bloom genesis = bloom_default
     \<and> v_transaction_hashes genesis = [] \<and> 0 < elements_per_index config
     \<and> manager_new (elements_per_index config) (levels config) \<noteq> None"

inductive reachable :: "bloom_config \<Rightarrow> block_view \<Rightarrow> block_chain \<Rightarrow> bool" for config genesis where
  start: "reachable config genesis (block_chain_new config genesis)"
| import: "reachable config genesis s \<Longrightarrow> valid_block s v \<Longrightarrow> import_block (v, receipts) s = Some s'
    \<Longrightarrow> reachable config genesis s'"

lemma genesis_inv: "genesis_ok config genesis \<Longrightarrow> chain_inv (v_hash genesis) (block_chain_new config genesis)"
  using empty_inv
  by (auto simp: genesis_ok_def chain_inv_def block_chain_new_def pending_empty_def tree_ok_def children_inv_def
      headers_inv_def header_matches_def best_inv_def canon_inv_def canon_def ancestor_at_def blooms_inv_def
      txs_inv_def txs_at_def addresses_inv_def tx_in_def bloom_simps split: if_splits)

lemma reachable_inv:
  assumes "genesis_ok config genesis" "reachable config genesis s"
  shows "chain_inv (v_hash genesis) s"
  using assms(2)
proof (induction rule: reachable.induct)
  case start
  then show ?case by (rule genesis_inv [OF assms(1)])
next
  case (import s v receipts s')
  then show ?case using import_inv [OF import.IH import.hyps(2), of receipts] by auto
qed

subsection \<open>Properties\<close>

text \<open>C12 (The route between two blocks). In a tree of blocks the route exists, is found by loops that
  end, and is what its description says: its ancestor is the highest common one, the blocks lead
  from the first block down to it and from it up to the second, and the index separates the two.\<close>

theorem tree_route_correct:
  assumes "tree_ok D g" "D a = Some da" "D b = Some db"
  shows "\<exists>route n. tree_route D a b = Some (Some route)
    \<and> n \<le> bd_number da \<and> n \<le> bd_number db
    \<and> tr_ancestor route = ancestor_at D a n \<and> tr_ancestor route = ancestor_at D b n
    \<and> (\<forall>m. n < m \<longrightarrow> m \<le> bd_number da \<longrightarrow> m \<le> bd_number db \<longrightarrow> ancestor_at D a m \<noteq> ancestor_at D b m)
    \<and> take (tr_index route) (tr_blocks route) = rev (map (ancestor_at D a) [Suc n ..< Suc (bd_number da)])
    \<and> drop (tr_index route) (tr_blocks route) = map (ancestor_at D b) [Suc n ..< Suc (bd_number db)]"
proof -
  obtain n where "n \<le> bd_number da" "n \<le> bd_number db" "ancestor_at D a n = ancestor_at D b n"
      "\<forall>m. n < m \<longrightarrow> m \<le> bd_number da \<longrightarrow> m \<le> bd_number db \<longrightarrow> ancestor_at D a m \<noteq> ancestor_at D b m"
      "tree_route D a b = Some (Some
        \<lparr>tr_blocks = rev (map (ancestor_at D a) [Suc n ..< Suc (bd_number da)])
           @ map (ancestor_at D b) [Suc n ..< Suc (bd_number db)],
         tr_ancestor = ancestor_at D a n, tr_index = bd_number da - n\<rparr>)"
    using tree_route_found [OF assms] by blast
  then show ?thesis by (intro exI [of _ n] exI conjI) (auto simp del: upt_Suc)
qed

text \<open>C1 (Best chain and number index). In every reachable store the best block is stored, no stored
  block has a greater total difficulty, total difficulties are sums along the chain, and up to the
  best block the number index gives its ancestors, whatever branches and reorganisations led
  there.\<close>

theorem best_chain_indexed:
  assumes "genesis_ok config genesis" "reachable config genesis s"
  shows "(\<exists>d. c_details s (bb_hash (c_best s)) = Some d \<and> bd_number d = bb_number (c_best s)
        \<and> bd_total_difficulty d = bb_total_difficulty (c_best s))
    \<and> (\<forall>h d. c_details s h = Some d \<longrightarrow> bd_total_difficulty d \<le> bb_total_difficulty (c_best s))
    \<and> (\<forall>h d. c_details s h = Some d \<longrightarrow> (\<exists>v. c_headers s h = Some v \<and> (0 < bd_number d \<longrightarrow>
         (\<exists>p. c_details s (bd_parent d) = Some p \<and> bd_number d = Suc (bd_number p)
            \<and> bd_total_difficulty d = bd_total_difficulty p + v_difficulty v \<and> h \<in> set (bd_children p)))))
    \<and> (\<forall>m \<le> bb_number (c_best s). c_hashes s m = Some (ancestor_at (c_details s) (bb_hash (c_best s)) m))"
proof -
  have inv: "chain_inv (v_hash genesis) s" by (rule reachable_inv [OF assms])
  have hdr: "\<exists>v. c_headers s h = Some v \<and> (0 < bd_number d \<longrightarrow>
         (\<exists>p. c_details s (bd_parent d) = Some p \<and> bd_number d = Suc (bd_number p)
            \<and> bd_total_difficulty d = bd_total_difficulty p + v_difficulty v \<and> h \<in> set (bd_children p)))"
    if h: "c_details s h = Some d" for h d
  proof -
    obtain v where v: "c_headers s h = Some v" "header_matches (c_details s) h d v"
      using inv h unfolding chain_inv_def headers_inv_def by blast
    have "h \<in> set (bd_children p)" if "c_details s (bd_parent d) = Some p" "0 < bd_number d" for p
      using inv h that unfolding chain_inv_def children_inv_def by blast
    moreover have "0 < bd_number d \<Longrightarrow> \<exists>p. c_details s (bd_parent d) = Some p \<and> bd_number d = Suc (bd_number p)"
      using tree_okD(3) [of "c_details s" "v_hash genesis", OF _ h] inv unfolding chain_inv_def by blast
    ultimately show ?thesis using v unfolding header_matches_def by auto
  qed
  show ?thesis
    using inv hdr unfolding chain_inv_def best_inv_def canon_inv_def canon_def by blast
qed


text \<open>C4 (Transaction addresses). In every reachable store a transaction hash has an address exactly
  when a canonical block contains it, and the address is its place there: retracted transactions
  lose theirs unless the new branch includes them.\<close>

theorem addresses_canonical:
  assumes "genesis_ok config genesis" "reachable config genesis s"
  shows "c_addresses s t = Some a \<longleftrightarrow>
    (\<exists>m txs. m \<le> bb_number (c_best s) \<and> c_hashes s m = Some (ta_block_hash a)
       \<and> c_bodies s (ta_block_hash a) = Some txs \<and> ta_index a < length txs \<and> txs ! ta_index a = t)"
proof -
  have inv: "chain_inv (v_hash genesis) s" by (rule reachable_inv [OF assms])
  have body: "c_bodies s (canon s m) = Some (txs_at s (canon s m))" if "m \<le> bb_number (c_best s)" for m
    using canon_stored [OF inv that] stored_block(1) [OF inv] by blast
  have hash: "c_hashes s m = Some (canon s m)" if "m \<le> bb_number (c_best s)" for m
    using inv that by (simp add: chain_inv_def canon_inv_def)
  have "c_addresses s t = Some a \<longleftrightarrow> (\<exists>m\<le>bb_number (c_best s). tx_in s (canon s m) t a)"
    using inv by (simp add: chain_inv_def addresses_inv_def)
  also have "\<dots> \<longleftrightarrow> (\<exists>m txs. m \<le> bb_number (c_best s) \<and> c_hashes s m = Some (ta_block_hash a)
       \<and> c_bodies s (ta_block_hash a) = Some txs \<and> ta_index a < length txs \<and> txs ! ta_index a = t)"
    unfolding tx_in_def using body hash by (metis option.inject)
  finally show ?thesis .
qed


text \<open>C38 (Stale numbers after a shorter branch wins). When the branch that overtakes the chain has fewer
  blocks, the number index keeps the retracted blocks above the new best block, and the old best
  block still counts as canonical for beacon hashes.\<close>

theorem shorter_branch_leaves_numbers:
  assumes "genesis_ok config genesis" "reachable config genesis s" "valid_block s v"
    "c_details s (v_hash v) = None" "c_details s (v_parent_hash v) = Some p"
    "bb_total_difficulty (c_best s) < bd_total_difficulty p + v_difficulty v"
    "v_number v < bb_number (c_best s)"
  shows "\<exists>s'. import_block (v, receipts) s = Some s' \<and> bb_number (c_best s') = v_number v
    \<and> (\<forall>m. v_number v < m \<longrightarrow> m \<le> bb_number (c_best s) \<longrightarrow> c_hashes s' m = Some (canon s m))
    \<and> chain_beacon_list s' (bb_hash (c_best s)) = Some (bb_number (c_best s))"
proof -
  have inv: "chain_inv (v_hash genesis) s" by (rule reachable_inv [OF assms(1,2)])
  have v: "v_number v = Suc (bd_number p)" using assms(3,5) by (auto simp: valid_block_def)
  obtain s' n where s': "import_block (v, receipts) s = Some s'" "attached v p s s'" "became_best v p n s s'"
    using import_best [OF inv assms(3-6)] by blast
  have old: "c_hashes s' m = Some (canon s m)" if "v_number v < m" "m \<le> bb_number (c_best s)" for m
    using s'(3) inv that v by (auto simp: became_best_def chain_inv_def canon_inv_def)
  obtain d where d: "c_details s (bb_hash (c_best s)) = Some d" "bd_number d = bb_number (c_best s)"
    using chain_inv_best [OF inv] by blast
  have "canon s (bb_number (c_best s)) = bb_hash (c_best s)"
    using ancestor_at_self [of "c_details s", OF d(1)] d(2) by (simp add: canon_def)
  moreover obtain d' where "c_details s' (bb_hash (c_best s)) = Some d'" "bd_number d' = bb_number (c_best s)"
    using attached_keep [OF s'(2) assms(5,4) d(1)] d(2) by auto
  ultimately have "chain_beacon_list s' (bb_hash (c_best s)) = Some (bb_number (c_best s))"
    using old [OF assms(7)] by (simp add: chain_beacon_list_def)
  then show ?thesis using s'(1,3) old by (auto simp: became_best_def)
qed

text \<open>First block of a store with a gap. The binary search ends and returns the lowest stored
  canonical block, when the stored numbers reach up to the best block without a gap.\<close>

theorem first_block_found:
  assumes "l \<le> f" "block_hash f = Some hash"
    "\<And>i j. l \<le> i \<Longrightarrow> i \<le> j \<Longrightarrow> j \<le> f \<Longrightarrow> block_hash i \<noteq> None \<Longrightarrow> block_hash j \<noteq> None"
  shows "\<exists>m. l \<le> m \<and> m \<le> f \<and> block_hash m = Some (first_block_search block_hash l f hash)
    \<and> (\<forall>i. l \<le> i \<longrightarrow> i < m \<longrightarrow> block_hash i = None)"
  using assms
proof (induction block_hash l f hash rule: first_block_search.induct)
  case (1 block_hash l f hash)
  let ?m = "l + (f - l) div 2"
  show ?case
  proof (cases "l \<ge> f")
    case True
    then show ?thesis using 1(3,4) by (intro exI [of _ f]) (simp add: first_block_search.simps)
  next
    case False
    then have m: "l \<le> ?m" "?m < f" by auto
    show ?thesis
    proof (cases "block_hash ?m")
      case None
      have low: "block_hash i = None" if "l \<le> i" "i < ?m + 1" for i
        using 1(5) [of i ?m] None that m by (cases "block_hash i") auto
      have "\<exists>k. ?m + 1 \<le> k \<and> k \<le> f \<and> block_hash k = Some (first_block_search block_hash (?m + 1) f hash)
          \<and> (\<forall>i. ?m + 1 \<le> i \<longrightarrow> i < k \<longrightarrow> block_hash i = None)"
      proof (rule 1(1) [OF False refl None])
        fix i j assume "?m + 1 \<le> i" "i \<le> j" "j \<le> f" "block_hash i \<noteq> None"
        then show "block_hash j \<noteq> None" using 1(5) [of i j] m(1) by simp
      qed (use 1(4) m(2) in simp_all)
      then obtain k where k: "?m + 1 \<le> k" "k \<le> f"
          "block_hash k = Some (first_block_search block_hash (?m + 1) f hash)"
          "\<forall>i. ?m + 1 \<le> i \<longrightarrow> i < k \<longrightarrow> block_hash i = None"
        by blast
      have "block_hash i = None" if "l \<le> i" "i < k" for i
        using low [OF that(1)] k(4) that(2) by (cases "i < ?m + 1") auto
      moreover have "first_block_search block_hash l f hash = first_block_search block_hash (?m + 1) f hash"
        using False None by (subst first_block_search.simps) (simp add: Let_def)
      ultimately show ?thesis using k(1-3) m(1) by (intro exI [of _ k]) simp
    next
      case (Some h)
      have "\<exists>k. l \<le> k \<and> k \<le> ?m \<and> block_hash k = Some (first_block_search block_hash l ?m h)
          \<and> (\<forall>i. l \<le> i \<longrightarrow> i < k \<longrightarrow> block_hash i = None)"
      proof (rule 1(2) [OF False refl Some])
        fix i j assume "l \<le> i" "i \<le> j" "j \<le> ?m" "block_hash i \<noteq> None"
        then show "block_hash j \<noteq> None" using 1(5) [of i j] m(2) by simp
      qed (use Some m(1) in simp_all)
      moreover have "first_block_search block_hash l f hash = first_block_search block_hash l ?m h"
        using False Some by (subst first_block_search.simps) (simp add: Let_def)
      ultimately show ?thesis using m(2) by (metis le_trans less_imp_le)
    qed
  qed
qed

subsection \<open>Concrete stores\<close>

definition plain_block :: "h256 \<Rightarrow> nat \<Rightarrow> h256 \<Rightarrow> nat \<Rightarrow> block_view" where
  "plain_block hash number parent difficulty =
     \<lparr>v_hash = hash, v_number = number, v_parent_hash = parent, v_difficulty = difficulty,
      v_timestamp = number, v_log_bloom = bloom_default, v_transaction_hashes = []\<rparr>"

abbreviation plain_genesis :: block_view where
  "plain_genesis \<equiv> plain_block [0] 0 [9] 1"

lemma plain_genesis_ok: "genesis_ok bloom_config_default plain_genesis"
  by (simp add: genesis_ok_def plain_block_def bloom_config_default_def manager_new_def usize_max_def
      numeral_3_eq_3)

lemma plain_valid:
  "c_details s parent = Some p \<Longrightarrow> n = Suc (bd_number p) \<Longrightarrow> bd_total_difficulty p + difficulty < 2 ^ 256
   \<Longrightarrow> c_details s hash = None \<Longrightarrow> valid_block s (plain_block hash n parent difficulty)"
  by (simp add: valid_block_def plain_block_def bloom_simps)

text \<open>Two blocks on the genesis.\<close>

lemma plain_chain:
  obtains s where "reachable bloom_config_default plain_genesis s" "bb_number (c_best s) = 2"
    "bb_hash (c_best s) = [2]" "bb_total_difficulty (c_best s) = 3" "c_details s [3] = None"
    "\<exists>p. c_details s [0] = Some p \<and> bd_number p = 0 \<and> bd_total_difficulty p = 1"
proof -
  let ?s0 = "block_chain_new bloom_config_default plain_genesis"
  let ?v1 = "plain_block [1] 1 [0] 1" and ?v2 = "plain_block [2] 2 [1] 1"
  have r0: "reachable bloom_config_default plain_genesis ?s0" by (rule reachable.start)
  have d0: "c_details ?s0 [0] = Some \<lparr>bd_number = 0, bd_total_difficulty = 1, bd_parent = [9], bd_children = []\<rparr>"
      "c_details ?s0 [1] = None"
    by (simp_all add: block_chain_new_def plain_block_def)
  have v1: "valid_block ?s0 ?v1" using plain_valid [OF d0(1) _ _ d0(2), of 1 1] by simp
  obtain s1 n1 where s1: "import_block (?v1, []) ?s0 = Some s1"
      "attached ?v1 \<lparr>bd_number = 0, bd_total_difficulty = 1, bd_parent = [9], bd_children = []\<rparr> ?s0 s1"
      "became_best ?v1 \<lparr>bd_number = 0, bd_total_difficulty = 1, bd_parent = [9], bd_children = []\<rparr> n1 ?s0 s1"
    using import_best [OF reachable_inv [OF plain_genesis_ok r0] v1, of _ "[]"] d0
    by (fastforce simp: plain_block_def block_chain_new_def)
  have r1: "reachable bloom_config_default plain_genesis s1" by (rule reachable.import [OF r0 v1 s1(1)])
  have d1: "c_details s1 [1] = Some \<lparr>bd_number = 1, bd_total_difficulty = 2, bd_parent = [0], bd_children = []\<rparr>"
      "c_details s1 [2] = None" "c_details s1 [3] = None" "bb_total_difficulty (c_best s1) = 2"
      "\<exists>p. c_details s1 [0] = Some p \<and> bd_number p = 0 \<and> bd_total_difficulty p = 1"
    using s1(2,3) by (simp_all add: attached_def became_best_def plain_block_def block_chain_new_def)
  have v2: "valid_block s1 ?v2" using plain_valid [OF d1(1) _ _ d1(2), of 2 1] by simp
  obtain s2 n2 where s2: "import_block (?v2, []) s1 = Some s2"
      "attached ?v2 \<lparr>bd_number = 1, bd_total_difficulty = 2, bd_parent = [0], bd_children = []\<rparr> s1 s2"
      "became_best ?v2 \<lparr>bd_number = 1, bd_total_difficulty = 2, bd_parent = [0], bd_children = []\<rparr> n2 s1 s2"
    using import_best [OF reachable_inv [OF plain_genesis_ok r1] v2, of _ "[]"] d1
    by (fastforce simp: plain_block_def)
  show thesis
    by (rule that [OF reachable.import [OF r1 v2 s2(1)]])
      (use s2(2,3) d1 in \<open>auto simp: attached_def became_best_def plain_block_def\<close>)
qed

theorem tree_route_correct_witness:
  "\<exists>route. tree_route
      [[0] \<mapsto> \<lparr>bd_number = 0, bd_total_difficulty = 1, bd_parent = [9], bd_children = [[1], [2]]\<rparr>,
       [1] \<mapsto> \<lparr>bd_number = 1, bd_total_difficulty = 2, bd_parent = [0], bd_children = []\<rparr>,
       [2] \<mapsto> \<lparr>bd_number = 1, bd_total_difficulty = 3, bd_parent = [0], bd_children = []\<rparr>] [1] [2]
      = Some (Some route)" (is "\<exists>route. tree_route ?D [1] [2] = _")
proof -
  have "tree_ok ?D [0]" unfolding tree_ok_def by (auto split: if_splits)
  moreover have "?D [1] = Some \<lparr>bd_number = 1, bd_total_difficulty = 2, bd_parent = [0], bd_children = []\<rparr>"
      "?D [2] = Some \<lparr>bd_number = 1, bd_total_difficulty = 3, bd_parent = [0], bd_children = []\<rparr>"
    by simp_all
  ultimately show ?thesis using tree_route_correct [of ?D "[0]" "[1]" _ "[2]"] by metis
qed

theorem best_chain_indexed_witness:
  "\<exists>s. reachable bloom_config_default plain_genesis s \<and> bb_number (c_best s) = 2
    \<and> c_hashes s 2 = Some [2]"
proof -
  obtain s where s: "reachable bloom_config_default plain_genesis s" "bb_number (c_best s) = 2"
      "bb_hash (c_best s) = [2]"
    using plain_chain by blast
  note idx = best_chain_indexed [OF plain_genesis_ok s(1)]
  obtain d where d: "c_details s [2] = Some d" "bd_number d = 2" using idx s(2,3) by auto
  have "c_hashes s 2 = Some (ancestor_at (c_details s) [2] 2)" using idx s(2,3) by auto
  then have "c_hashes s 2 = Some [2]" using ancestor_at_self [of "c_details s", OF d(1)] d(2) by simp
  then show ?thesis using s by blast
qed


theorem addresses_canonical_witness:
  "c_addresses (block_chain_new bloom_config_default plain_genesis) [7] \<noteq> Some \<lparr>ta_block_hash = [0], ta_index = 0\<rparr>"
  using addresses_canonical [OF plain_genesis_ok reachable.start, of "[7]" "\<lparr>ta_block_hash = [0], ta_index = 0\<rparr>"]
  by (simp add: block_chain_new_def plain_block_def)


theorem shorter_branch_leaves_numbers_witness:
  "\<exists>s s'. reachable bloom_config_default plain_genesis s \<and> import_block (plain_block [3] 1 [0] 9, []) s = Some s'
    \<and> bb_number (c_best s') = 1 \<and> chain_beacon_list s' [2] = Some 2"
proof -
  obtain s p where s: "reachable bloom_config_default plain_genesis s" "bb_number (c_best s) = 2"
      "bb_hash (c_best s) = [2]" "bb_total_difficulty (c_best s) = 3" "c_details s [3] = None"
      "c_details s [0] = Some p" "bd_number p = 0" "bd_total_difficulty p = 1"
    using plain_chain by metis
  have "valid_block s (plain_block [3] 1 [0] 9)" using plain_valid [OF s(6) _ _ s(5), of 1 9] s(7,8) by simp
  then show ?thesis
    using shorter_branch_leaves_numbers [OF plain_genesis_ok s(1), of "plain_block [3] 1 [0] 9" p "[]"] s
    by (auto simp: plain_block_def)
qed

theorem first_block_found_witness:
  "first_block_search (\<lambda>n. if 5 \<le> n then Some (replicate n 0) else None) 0 8 (replicate 8 0) = replicate 5 0"
proof -
  let ?f = "\<lambda>n. if 5 \<le> n then Some (replicate n (0 :: u8)) else None"
  have "\<exists>m. 0 \<le> m \<and> m \<le> 8 \<and> ?f m = Some (first_block_search ?f 0 8 (replicate 8 0))
      \<and> (\<forall>i. 0 \<le> i \<longrightarrow> i < m \<longrightarrow> ?f i = None)"
    by (rule first_block_found) (auto split: if_splits)
  then obtain m where m: "?f m = Some (first_block_search ?f 0 8 (replicate 8 0))" "\<forall>i. i < m \<longrightarrow> ?f i = None"
    by blast
  have "5 \<le> m" using m(1) by (rule contrapos_pp) simp
  moreover have "\<not> 5 < m" using m(2) by auto
  ultimately have "m = 5" by simp
  then show ?thesis using m(1) by simp
qed

end
