(* ===== verification/Hash_Table.thy ===== *)
theory Hash_Table
  imports Main "HOL-Library.AList" "HOL-Library.Multiset"
begin

text \<open>
  The hash maps of the transaction queue. A \<^verbatim>\<open>HashMap\<close> that the code iterates over is an association
  list with distinct keys; the order in which the real map is iterated is unspecified, and the
  results below depend on the contents only. On top of it the double-indexed table of
  \<^verbatim>\<open>src/util/table/src/lib.rs\<close>, with what its operations do to the cells and to the collection of all
  entries.
\<close>

subsection \<open>Association lists as collections\<close>

lemma alist_Some:
  assumes "distinct (map fst m)" and "map_of m k = Some w"
  shows "\<exists>X. mset m = add_mset (k, w) X \<and> mset (AList.update k v m) = add_mset (k, v) X \<and>
    mset (AList.delete k m) = X"
  using assms
proof (induction m)
  case (Cons p m)
  show ?case
  proof (cases "fst p = k")
    case True
    then have "AList.delete k m = m" using Cons.prems(1) by (intro delete_id) auto
    moreover have "p = (k, w)" using True Cons.prems(2) by (cases p) simp
    ultimately show ?thesis by simp
  next
    case False
    then have "map_of m k = Some w" using Cons.prems(2) by (cases p) simp
    with Cons obtain X where "mset m = add_mset (k, w) X" "mset (AList.update k v m) = add_mset (k, v) X"
        "mset (AList.delete k m) = X" by auto
    then show ?thesis using False by (cases p) (auto simp: add_mset_commute)
  qed
qed simp

lemma alist_None:
  "map_of m k = None \<Longrightarrow> mset (AList.update k v m) = add_mset (k, v) (mset m) \<and> AList.delete k m = m"
proof (induction m)
  case (Cons p m)
  then show ?case by (cases p) (auto split: if_splits)
qed simp

lemmas distinct_alist = distinct_update distinct_delete

subsection \<open>The table\<close>

type_synonym ('r, 'c, 'v) table = "('r \<times> ('c \<times> 'v) list) list"

definition table_new :: "('r, 'c, 'v) table" where
  "table_new = []"

definition table_keys :: "('r, 'c, 'v) table \<Rightarrow> 'r list" where
  "table_keys t = map fst t"

definition table_clear :: "('r, 'c, 'v) table \<Rightarrow> ('r, 'c, 'v) table" where
  "table_clear t = []"

definition table_len :: "('r, 'c, 'v) table \<Rightarrow> nat" where
  "table_len t = foldl (\<lambda>acc v. acc + length v) 0 (map snd t)"

definition table_is_empty :: "('r, 'c, 'v) table \<Rightarrow> bool" where
  "table_is_empty t \<longleftrightarrow> t = [] \<or> list_all (\<lambda>v. v = []) (map snd t)"

definition table_has_row :: "('r, 'c, 'v) table \<Rightarrow> 'r \<Rightarrow> bool" where
  "table_has_row t r \<longleftrightarrow> map_of t r \<noteq> None"

definition table_row :: "('r, 'c, 'v) table \<Rightarrow> 'r \<Rightarrow> ('c \<times> 'v) list option" where
  "table_row t r = map_of t r"

definition table_get :: "('r, 'c, 'v) table \<Rightarrow> 'r \<Rightarrow> 'c \<Rightarrow> 'v option" where
  "table_get t r c = (case map_of t r of None \<Rightarrow> None | Some m \<Rightarrow> map_of m c)"

definition table_remove :: "'r \<Rightarrow> 'c \<Rightarrow> ('r, 'c, 'v) table \<Rightarrow> ('r, 'c, 'v) table \<times> 'v option" where
  "table_remove r c t =
     (case map_of t r of
        None \<Rightarrow> (t, None)
      | Some row_map \<Rightarrow>
          let val = map_of row_map c; row_map' = AList.delete c row_map
          in (if row_map' = [] then AList.delete r t else AList.update r row_map' t, val))"

definition table_clear_if_empty :: "'r \<Rightarrow> ('r, 'c, 'v) table \<Rightarrow> ('r, 'c, 'v) table" where
  "table_clear_if_empty r t =
     (if (case map_of t r of None \<Rightarrow> False | Some m \<Rightarrow> m = []) then AList.delete r t else t)"

definition table_insert :: "'r \<Rightarrow> 'c \<Rightarrow> 'v \<Rightarrow> ('r, 'c, 'v) table \<Rightarrow> ('r, 'c, 'v) table \<times> 'v option" where
  "table_insert r c v t =
     (let m = (case map_of t r of None \<Rightarrow> [] | Some m \<Rightarrow> m)
      in (AList.update r (AList.update c v m) t, map_of m c))"

text \<open>\<^verbatim>\<open>row_mut\<close> lends the row out; what the queue does with it is to remove one column.\<close>

definition table_row_remove :: "'r \<Rightarrow> 'c \<Rightarrow> ('r, 'c, 'v) table \<Rightarrow> ('r, 'c, 'v) table \<times> 'v option" where
  "table_row_remove r c t =
     (case map_of t r of
        None \<Rightarrow> (t, None)
      | Some m \<Rightarrow> (AList.update r (AList.delete c m) t, map_of m c))"

subsection \<open>Cells and entries\<close>

definition table_ok :: "('r, 'c, 'v) table \<Rightarrow> bool" where
  "table_ok t \<longleftrightarrow> distinct (map fst t) \<and> (\<forall>(r, m) \<in> set t. distinct (map fst m))"

text \<open>All entries, as a collection.\<close>

definition row_entries :: "'r \<times> ('c \<times> 'v) list \<Rightarrow> ('r \<times> 'c \<times> 'v) multiset" where
  "row_entries p = image_mset (Pair (fst p)) (mset (snd p))"

definition entries :: "('r, 'c, 'v) table \<Rightarrow> ('r \<times> 'c \<times> 'v) multiset" where
  "entries t = (\<Sum>p \<in># mset t. row_entries p)"

lemma row_entries_simps [simp]:
  "row_entries (r, []) = {#}" "row_entries (r, p # m) = add_mset (r, p) (row_entries (r, m))"
  by (simp_all add: row_entries_def)

lemma entries_Nil [simp]: "entries [] = {#}"
  by (simp add: entries_def)

lemma table_len_entries: "table_len t = size (entries t)"
proof -
  have "foldl (\<lambda>acc v. acc + length v) a (map snd t) = a + size (entries t)" for a
    by (induction t arbitrary: a) (simp_all add: entries_def row_entries_def)
  then show ?thesis by (simp add: table_len_def)
qed

lemma table_ok_iff:
  "table_ok t \<longleftrightarrow> distinct (map fst t) \<and> (\<forall>r m. map_of t r = Some m \<longrightarrow> distinct (map fst m))"
  by (auto simp: table_ok_def dest: map_of_SomeD intro: map_of_is_SomeI)

lemma table_okD: "table_ok t \<Longrightarrow> map_of t r = Some m \<Longrightarrow> distinct (map fst m)"
  by (simp add: table_ok_iff)

lemma table_ok_new [simp]: "table_ok []"
  by (simp add: table_ok_def)

lemma table_ok_update: "table_ok t \<Longrightarrow> distinct (map fst m) \<Longrightarrow> table_ok (AList.update r m t)"
  by (simp add: table_ok_iff distinct_alist update_conv')

lemma table_ok_delete: "table_ok t \<Longrightarrow> table_ok (AList.delete r t)"
  by (auto simp: table_ok_iff distinct_alist delete_conv' split: if_splits)

lemma row_replaced:
  assumes "table_ok t" and "map_of t r = Some m"
  shows "\<exists>Y. entries t = row_entries (r, m) + Y \<and> entries (AList.update r m' t) = row_entries (r, m') + Y \<and>
    entries (AList.delete r t) = Y"
  using alist_Some [of t r m m'] assms by (auto simp: table_ok_def entries_def)

lemma row_added:
  "map_of t r = None \<Longrightarrow> entries (AList.update r m t) = row_entries (r, m) + entries t"
  using alist_None [of t r m] by (simp add: entries_def)

lemma entries_get:
  assumes "table_ok t"
  shows "(r, c, v) \<in># entries t \<longleftrightarrow> table_get t r c = Some v"
proof -
  have "(r, c, v) \<in># entries t \<longleftrightarrow> (\<exists>m. (r, m) \<in> set t \<and> (c, v) \<in> set m)"
    by (force simp: entries_def row_entries_def)
  also have "\<dots> \<longleftrightarrow> (\<exists>m. map_of t r = Some m \<and> map_of m c = Some v)"
    using assms by (metis map_of_SomeD map_of_is_SomeI table_okD table_ok_iff)
  finally show ?thesis by (auto simp: table_get_def split: option.splits)
qed

text \<open>The two collections differ in one entry.\<close>

definition put_entry :: "'e option \<Rightarrow> 'e \<Rightarrow> 'e multiset \<Rightarrow> 'e multiset \<Rightarrow> bool" where
  "put_entry old new A B \<longleftrightarrow>
     (case old of None \<Rightarrow> B = add_mset new A | Some x \<Rightarrow> \<exists>X. A = add_mset x X \<and> B = add_mset new X)"

definition take_entry :: "'e option \<Rightarrow> 'e multiset \<Rightarrow> 'e multiset \<Rightarrow> bool" where
  "take_entry old A B \<longleftrightarrow> (case old of None \<Rightarrow> B = A | Some x \<Rightarrow> A = add_mset x B)"

lemma table_insert_ok:
  assumes "table_ok t" and "table_insert r c v t = (t', old)"
  shows "table_ok t'" and "old = table_get t r c"
    and "table_get t' r' c' = (if r' = r \<and> c' = c then Some v else table_get t r' c')"
    and "put_entry (map_option (\<lambda>x. (r, c, x)) old) (r, c, v) (entries t) (entries t')"
proof -
  let ?m = "case map_of t r of None \<Rightarrow> [] | Some m \<Rightarrow> m"
  have t': "t' = AList.update r (AList.update c v ?m) t" and old: "old = map_of ?m c"
    using assms(2) by (auto simp: table_insert_def Let_def)
  have m: "distinct (map fst ?m)" using table_okD [OF assms(1)] by (simp split: option.splits)
  then show "table_ok t'" unfolding t' by (intro table_ok_update assms(1) distinct_alist)
  show "old = table_get t r c" by (simp add: old table_get_def split: option.splits)
  show "table_get t' r' c' = (if r' = r \<and> c' = c then Some v else table_get t r' c')"
    by (auto simp: t' table_get_def update_conv' split: option.splits)
  show "put_entry (map_option (\<lambda>x. (r, c, x)) old) (r, c, v) (entries t) (entries t')"
  proof (cases "map_of t r")
    case None
    then show ?thesis using row_added [of t r "[(c, v)]"] by (simp add: t' old put_entry_def)
  next
    case (Some row)
    then obtain Y where Y: "entries t = row_entries (r, row) + Y" "entries t' = row_entries (r, AList.update c v row) + Y"
      using row_replaced [OF assms(1) Some] t' by fastforce
    show ?thesis
    proof (cases "map_of row c")
      case None
      then show ?thesis using Y Some alist_None [of row c v] by (simp add: old put_entry_def row_entries_def)
    next
      case (Some o')
      then obtain X where "mset row = add_mset (c, o') X" "mset (AList.update c v row) = add_mset (c, v) X"
        using alist_Some [of row c o' v] m \<open>map_of t r = Some row\<close> by auto
      then show ?thesis using Y Some \<open>map_of t r = Some row\<close> by (auto simp: old put_entry_def row_entries_def)
    qed
  qed
qed

lemma row_entries_delete:
  assumes "distinct (map fst m)"
  shows "take_entry (map_option (\<lambda>x. (r, c, x)) (map_of m c)) (row_entries (r, m)) (row_entries (r, AList.delete c m))"
proof (cases "map_of m c")
  case None
  then show ?thesis using alist_None [of m c] by (simp add: take_entry_def)
next
  case (Some o')
  then show ?thesis using alist_Some [OF assms Some] by (auto simp: take_entry_def row_entries_def)
qed

lemma table_row_remove_ok:
  assumes "table_ok t" and "table_row_remove r c t = (t', old)"
  shows "table_ok t'" and "old = table_get t r c"
    and "table_get t' r' c' = (if r' = r \<and> c' = c then None else table_get t r' c')"
    and "take_entry (map_option (\<lambda>x. (r, c, x)) old) (entries t) (entries t')"
proof -
  have "table_ok t' \<and> old = table_get t r c \<and>
    table_get t' r' c' = (if r' = r \<and> c' = c then None else table_get t r' c') \<and>
    take_entry (map_option (\<lambda>x. (r, c, x)) old) (entries t) (entries t')"
  proof (cases "map_of t r")
    case None
    then show ?thesis using assms by (auto simp: table_row_remove_def table_get_def take_entry_def)
  next
    case (Some m)
    then have t': "t' = AList.update r (AList.delete c m) t" and old: "old = map_of m c"
      using assms(2) by (simp_all add: table_row_remove_def)
    obtain Y where Y: "entries t = row_entries (r, m) + Y" "entries t' = row_entries (r, AList.delete c m) + Y"
      using row_replaced [OF assms(1) Some] t' by fastforce
    have m: "distinct (map fst m)" using table_okD [OF assms(1) Some] .
    have "take_entry (map_option (\<lambda>x. (r, c, x)) old) (entries t) (entries t')"
      using row_entries_delete [OF m, of r c] unfolding Y old by (auto simp: take_entry_def split: option.splits)
    moreover have "table_ok t'" unfolding t' by (intro table_ok_update assms(1) distinct_alist m)
    ultimately show ?thesis using Some by (auto simp: old t' table_get_def update_conv' delete_conv')
  qed
  then show "table_ok t'" "old = table_get t r c"
    "table_get t' r' c' = (if r' = r \<and> c' = c then None else table_get t r' c')"
    "take_entry (map_option (\<lambda>x. (r, c, x)) old) (entries t) (entries t')" by blast+
qed

lemma table_clear_if_empty_ok:
  assumes "table_ok t"
  shows "table_ok (table_clear_if_empty r t)" "table_get (table_clear_if_empty r t) = table_get t"
    "entries (table_clear_if_empty r t) = entries t"
proof -
  show "table_ok (table_clear_if_empty r t)" using assms by (simp add: table_clear_if_empty_def table_ok_delete)
  show "table_get (table_clear_if_empty r t) = table_get t"
    by (auto simp: table_clear_if_empty_def table_get_def delete_conv' fun_eq_iff split: option.splits)
  show "entries (table_clear_if_empty r t) = entries t"
    using row_replaced [OF assms, of r] by (fastforce simp: table_clear_if_empty_def split: option.splits)
qed

text \<open>\<^verbatim>\<open>remove\<close> is the removal from the row followed by the clearing of the row.\<close>

lemma table_remove_eq:
  "table_remove r c t = apfst (table_clear_if_empty r) (table_row_remove r c t)"
proof (cases "map_of t r")
  case (Some m)
  then show ?thesis
    by (simp add: table_remove_def table_row_remove_def table_clear_if_empty_def Let_def update_conv'
        delete_update_same)
qed (simp add: table_remove_def table_row_remove_def table_clear_if_empty_def)

lemma table_remove_ok:
  assumes "table_ok t" and "table_remove r c t = (t', old)"
  shows "table_ok t'" and "old = table_get t r c"
    and "table_get t' r' c' = (if r' = r \<and> c' = c then None else table_get t r' c')"
    and "take_entry (map_option (\<lambda>x. (r, c, x)) old) (entries t) (entries t')"
proof -
  obtain t1 where t1: "table_row_remove r c t = (t1, old)" "t' = table_clear_if_empty r t1"
    using assms by (cases "table_row_remove r c t") (simp add: table_remove_eq)
  note removed = table_row_remove_ok [OF assms(1) t1(1)]
  show "table_ok t'" "old = table_get t r c"
    "table_get t' r' c' = (if r' = r \<and> c' = c then None else table_get t r' c')"
    "take_entry (map_option (\<lambda>x. (r, c, x)) old) (entries t) (entries t')"
    using removed table_clear_if_empty_ok [OF removed(1)] t1(2) by auto
qed

lemma row_columns:
  "table_ok t \<Longrightarrow> c \<in> set (case table_row t r of None \<Rightarrow> [] | Some m \<Rightarrow> map fst m) \<longleftrightarrow> table_get t r c \<noteq> None"
  "table_ok t \<Longrightarrow> distinct (case table_row t r of None \<Rightarrow> [] | Some m \<Rightarrow> map fst m)"
  by (auto simp: table_row_def table_get_def dom_map_of_conv_image_fst [symmetric] table_okD
      split: option.splits)

end
