(* ===== verification/Transaction_Set.thy ===== *)
theory Transaction_Set
  imports Unity_Engine Transaction Hash_Table "HOL-Library.List_Lexorder" "HOL-Library.Product_Lexorder"
begin

text \<open>
  The priority order and the sets of the transaction queue, the first half of
  \<^verbatim>\<open>src/core/src/transaction/transaction_queue.rs\<close>: origins, strategies, \<^verbatim>\<open>TransactionOrder\<close> and its
  comparison, the queue by energy price and \<^verbatim>\<open>TransactionSet\<close>.

  \<^item> A \<^verbatim>\<open>BTreeSet\<close> is the list of its elements in ascending order; insertion and removal search with
    the comparison of the code. The comparison adds prices and factors of two transactions; the sums
    are taken in the naturals, and \<open>order_sums_fit\<close> shows that they stay below \<open>2 ^ 256\<close> for every
    transaction that passed the basic checks.
  \<^item> The byte size of a transaction on the heap comes from a library and is a parameter.
  \<^item> Every assertion of the code is a branch to \<open>None\<close>, as is an underflow of the memory counter.
  \<^item> The locale \<open>keyed_store\<close> is what the queue relies on: a store of orders by sender and nonce whose
    operations keep it in order and return. \<open>TransactionSet\<close> is shown to be one.
\<close>

subsection \<open>Orders\<close>

datatype ordering = Less | Equal | Greater

definition cmp :: "'a::linorder \<Rightarrow> 'a \<Rightarrow> ordering" where
  "cmp a b = (if a < b then Less else if a = b then Equal else Greater)"

datatype tx_origin = Local | External | RetractedBlock

fun origin_cmp :: "tx_origin \<Rightarrow> tx_origin \<Rightarrow> ordering" where
  "origin_cmp a b =
     (if b = a then Equal
      else case (a, b) of
          (RetractedBlock, _) \<Rightarrow> Less
        | (_, RetractedBlock) \<Rightarrow> Greater
        | (Local, _) \<Rightarrow> Less
        | _ \<Rightarrow> Greater)"

definition is_local :: "tx_origin \<Rightarrow> bool" where
  "is_local og \<longleftrightarrow> og = Local"

datatype strategy = GasPriceOnly | GasAndGasPrice | GasFactorAndGasPrice

record verified_transaction =
  vt_transaction :: signed_transaction
  vt_origin :: tx_origin
  vt_condition :: "condition option"
  vt_insertion_time :: nat
  vt_insertion_id :: nat

definition vt_hash :: "verified_transaction \<Rightarrow> bytes" where
  "vt_hash tx = ut_hash (st_transaction (vt_transaction tx))"

definition vt_nonce :: "verified_transaction \<Rightarrow> nat" where
  "vt_nonce tx = t_nonce (ut_unsigned (st_transaction (vt_transaction tx)))"

definition vt_sender :: "verified_transaction \<Rightarrow> address" where
  "vt_sender tx = st_sender (vt_transaction tx)"

definition vt_gas_limit :: "verified_transaction \<Rightarrow> nat" where
  "vt_gas_limit tx = t_gas (ut_unsigned (st_transaction (vt_transaction tx)))"

definition vt_gas_price :: "verified_transaction \<Rightarrow> nat" where
  "vt_gas_price tx = t_gas_price (ut_unsigned (st_transaction (vt_transaction tx)))"

definition vt_cost :: "verified_transaction \<Rightarrow> nat option" where
  "vt_cost tx = do {
     fee \<leftarrow> u256_mul (vt_gas_price tx) (vt_gas_limit tx);
     u256_add (t_value (ut_unsigned (st_transaction (vt_transaction tx)))) fee
   }"

record tx_order =
  to_nonce_height :: nat
  to_gas_price :: nat
  to_gas_factor :: nat
  to_gas :: nat
  to_memory_usage :: nat
  to_strategy :: strategy
  to_hash :: bytes
  to_insertion_id :: nat
  to_origin :: tx_origin
  to_penalties :: nat

definition for_transaction :: "(bytes \<Rightarrow> nat) \<Rightarrow> verified_transaction \<Rightarrow> nat \<Rightarrow> strategy \<Rightarrow> tx_order option" where
  "for_transaction heap_size tx base_nonce st = do {
     factor \<leftarrow> u256_mul (vt_gas_limit tx div 2 ^ 15) 10000000000;
     height \<leftarrow> u256_sub (vt_nonce tx) base_nonce;
     Some \<lparr>to_nonce_height = height, to_gas_price = vt_gas_price tx, to_gas_factor = factor,
           to_gas = vt_gas_limit tx,
           to_memory_usage = heap_size (t_data (ut_unsigned (st_transaction (vt_transaction tx)))),
           to_strategy = st, to_hash = vt_hash tx, to_insertion_id = vt_insertion_id tx,
           to_origin = vt_origin tx, to_penalties = 0\<rparr>
   }"

definition update_height :: "nat \<Rightarrow> nat \<Rightarrow> tx_order \<Rightarrow> tx_order option" where
  "update_height nonce base_nonce ord = do {
     height \<leftarrow> u256_sub nonce base_nonce;
     Some (ord\<lparr>to_nonce_height := height\<rparr>)
   }"

definition penalize_order :: "tx_order \<Rightarrow> tx_order" where
  "penalize_order ord = ord\<lparr>to_penalties := min (to_penalties ord + 1) usize_max\<rparr>"

definition order_cmp :: "tx_order \<Rightarrow> tx_order \<Rightarrow> ordering" where
  "order_cmp a b =
     (if to_penalties a \<noteq> to_penalties b then cmp (to_penalties a) (to_penalties b)
      else if to_origin a \<noteq> to_origin b then origin_cmp (to_origin a) (to_origin b)
      else if to_nonce_height a \<noteq> to_nonce_height b then cmp (to_nonce_height a) (to_nonce_height b)
      else
        let f_a = to_gas_price a + to_gas_factor b; f_b = to_gas_price b + to_gas_factor a in
        if to_strategy a = GasAndGasPrice \<and> to_gas a \<noteq> to_gas b then cmp (to_gas a) (to_gas b)
        else if to_strategy a = GasFactorAndGasPrice \<and> f_a \<noteq> f_b then cmp f_b f_a
        else if to_gas_price a \<noteq> to_gas_price b then cmp (to_gas_price b) (to_gas_price a)
        else if to_insertion_id a \<noteq> to_insertion_id b then cmp (to_insertion_id a) (to_insertion_id b)
        else cmp (to_hash a) (to_hash b))"

subsection \<open>Ordered sets\<close>

fun btree_insert :: "('a \<Rightarrow> 'a \<Rightarrow> ordering) \<Rightarrow> 'a \<Rightarrow> 'a list \<Rightarrow> 'a list \<times> bool" where
  "btree_insert c x [] = ([x], True)"
| "btree_insert c x (y # ys) =
     (case c x y of
        Less \<Rightarrow> (x # y # ys, True)
      | Equal \<Rightarrow> (y # ys, False)
      | Greater \<Rightarrow> apfst (Cons y) (btree_insert c x ys))"

fun btree_remove :: "('a \<Rightarrow> 'a \<Rightarrow> ordering) \<Rightarrow> 'a \<Rightarrow> 'a list \<Rightarrow> 'a list \<times> bool" where
  "btree_remove c x [] = ([], False)"
| "btree_remove c x (y # ys) =
     (case c x y of
        Less \<Rightarrow> (y # ys, False)
      | Equal \<Rightarrow> (ys, True)
      | Greater \<Rightarrow> apfst (Cons y) (btree_remove c x ys))"

text \<open>A comparison that is a total order on a carrier, and the sets it sorts.\<close>

locale total_cmp =
  fixes c :: "'a \<Rightarrow> 'a \<Rightarrow> ordering" and A :: "'a set"
  assumes cmp_refl: "x \<in> A \<Longrightarrow> c x x = Equal"
    and cmp_swap: "x \<in> A \<Longrightarrow> y \<in> A \<Longrightarrow> c x y = Less \<longleftrightarrow> c y x = Greater"
    and cmp_less_trans: "x \<in> A \<Longrightarrow> y \<in> A \<Longrightarrow> z \<in> A \<Longrightarrow> c x y = Less \<Longrightarrow> c y z = Less \<Longrightarrow> c x z = Less"
    and cmp_equal_less: "x \<in> A \<Longrightarrow> y \<in> A \<Longrightarrow> z \<in> A \<Longrightarrow> c x y = Equal \<Longrightarrow> c y z = Less \<Longrightarrow> c x z = Less"
begin

abbreviation asc :: "'a list \<Rightarrow> bool" where
  "asc xs \<equiv> sorted_wrt (\<lambda>a b. c a b = Less) xs \<and> set xs \<subseteq> A"

lemma insert_mem: "set (fst (btree_insert c x xs)) \<subseteq> insert x (set xs)"
  by (induction xs) (auto split: ordering.splits)

lemma remove_mem: "set (fst (btree_remove c x xs)) \<subseteq> set xs"
  by (induction xs) (auto split: ordering.splits)

lemma insert_asc:
  assumes "asc xs" and "x \<in> A"
  shows "asc (fst (btree_insert c x xs))"
  using assms
proof (induction xs)
  case (Cons y ys)
  then have IH: "asc (fst (btree_insert c x ys))" by simp
  show ?case
  proof (cases "c x y")
    case Less
    then have "c x z = Less" if "z \<in> set ys" for z
      using that Cons.prems cmp_less_trans [of x y z] by auto
    then show ?thesis using Less Cons.prems by auto
  next
    case Greater
    then have "c y x = Less" using cmp_swap Cons.prems by simp
    then have "c y z = Less" if "z \<in> set (fst (btree_insert c x ys))" for z
      using that insert_mem [of x ys] Cons.prems by auto
    then show ?thesis using Greater IH Cons.prems by simp
  qed (use Cons.prems in simp)
qed simp

lemma insert_new:
  "(\<And>y. y \<in> set xs \<Longrightarrow> c x y \<noteq> Equal) \<Longrightarrow>
    snd (btree_insert c x xs) \<and> mset (fst (btree_insert c x xs)) = add_mset x (mset xs)"
  by (induction xs) (auto split: ordering.splits)

lemma remove_found:
  assumes "asc xs" and "x \<in> set xs"
  shows "snd (btree_remove c x xs) \<and> asc (fst (btree_remove c x xs)) \<and>
    mset xs = add_mset x (mset (fst (btree_remove c x xs)))"
  using assms
proof (induction xs)
  case (Cons y ys)
  then have mem: "x \<in> A" "y \<in> A" by auto
  show ?case
  proof (cases "x = y")
    case True
    then show ?thesis using Cons.prems cmp_refl mem by simp
  next
    case False
    then have x: "x \<in> set ys" "c y x = Less" using Cons.prems by auto
    then have gt: "c x y = Greater" using cmp_swap [of y x] mem by simp
    note IH = Cons.IH [OF _ x(1)]
    have "set (fst (btree_remove c x ys)) \<subseteq> set ys" by (rule remove_mem)
    then show ?thesis using gt IH Cons.prems by (auto simp: add_mset_commute)
  qed
qed simp

end

subsection \<open>The comparison is a total order\<close>

text \<open>For one strategy the comparison is that of a tuple, compared field by field.\<close>

definition origin_rank :: "tx_origin \<Rightarrow> nat" where
  "origin_rank og = (case og of RetractedBlock \<Rightarrow> 0 | Local \<Rightarrow> 1 | External \<Rightarrow> 2)"

definition order_key :: "tx_order \<Rightarrow> nat \<times> nat \<times> nat \<times> int \<times> int \<times> nat \<times> bytes" where
  "order_key a =
     (to_penalties a, origin_rank (to_origin a), to_nonce_height a,
      (case to_strategy a of GasPriceOnly \<Rightarrow> 0 | GasAndGasPrice \<Rightarrow> int (to_gas a)
        | GasFactorAndGasPrice \<Rightarrow> int (to_gas_factor a) - int (to_gas_price a)),
      - int (to_gas_price a), to_insertion_id a, to_hash a)"

lemma origin_cmp_rank: "origin_cmp a b = cmp (origin_rank a) (origin_rank b)"
  by (cases a; cases b) (simp_all add: cmp_def origin_rank_def)

lemma origin_rank_inj: "origin_rank a = origin_rank b \<longleftrightarrow> a = b"
  by (cases a; cases b) (simp_all add: origin_rank_def)

lemma cmp_pair: "cmp (a, x) (b, y) = (if a \<noteq> b then cmp a b else cmp x y)"
  by (simp add: cmp_def)

lemma cmp_neg: "cmp (- int a) (- int b) = cmp b a"
  by (simp add: cmp_def)

lemma cmp_diff: "cmp (int fa - int pa) (int fb - int pb) = cmp (pb + fa) (pa + fb)"
  by (auto simp: cmp_def)

lemma order_cmp_key:
  assumes "to_strategy a = to_strategy b"
  shows "order_cmp a b = cmp (order_key a) (order_key b)"
proof (cases "to_strategy a")
  case GasFactorAndGasPrice
  have "int (to_gas_factor a) - int (to_gas_price a) = int (to_gas_factor b) - int (to_gas_price b) \<longleftrightarrow>
      to_gas_price a + to_gas_factor b = to_gas_price b + to_gas_factor a" by linarith
  then show ?thesis using GasFactorAndGasPrice assms
    by (simp add: order_cmp_def order_key_def cmp_pair cmp_neg cmp_diff origin_cmp_rank origin_rank_inj Let_def
        cong: if_cong del: origin_cmp.simps)
qed (use assms in \<open>simp_all add: order_cmp_def order_key_def cmp_pair cmp_neg origin_cmp_rank origin_rank_inj
        cmp_def [of "int _"] cmp_def [of "to_gas _"] Let_def cong: if_cong del: origin_cmp.simps\<close>)

lemma order_key_hash: "order_key a = order_key b \<Longrightarrow> to_hash a = to_hash b"
  by (simp add: order_key_def)

interpretation by_order: total_cmp order_cmp "{a. to_strategy a = st}" for st
  by unfold_locales (auto simp: order_cmp_key cmp_def split: if_splits)

subsection \<open>The queue by energy price\<close>

type_synonym gas_price_queue = "(nat \<times> bytes list) list"

definition gp_insert :: "nat \<Rightarrow> bytes \<Rightarrow> gas_price_queue \<Rightarrow> gas_price_queue \<times> bool" where
  "gp_insert gas_price hash g =
     (let hashes = (case map_of g gas_price of None \<Rightarrow> [] | Some hs \<Rightarrow> hs) in
      if hash \<in> set hashes then (AList.update gas_price hashes g, False)
      else (AList.update gas_price (hash # hashes) g, True))"

definition gp_remove :: "nat \<Rightarrow> bytes \<Rightarrow> gas_price_queue \<Rightarrow> gas_price_queue \<times> bool" where
  "gp_remove gas_price hash g =
     (case map_of g gas_price of
        None \<Rightarrow> (g, False)
      | Some hashes \<Rightarrow>
          if length hashes \<noteq> 1 then (AList.update gas_price (remove1 hash hashes) g, hash \<in> set hashes)
          else if hash \<noteq> hashes ! 0 then (g, False)
          else (AList.delete gas_price g, True))"

definition gp_len :: "gas_price_queue \<Rightarrow> nat" where
  "gp_len g = foldl (\<lambda>a b. a + b) 0 (map length (map snd g))"

text \<open>The pairs it holds.\<close>

definition gp_ok :: "gas_price_queue \<Rightarrow> bool" where
  "gp_ok g \<longleftrightarrow> distinct (map fst g)"

definition gp_pairs :: "gas_price_queue \<Rightarrow> (nat \<times> bytes) multiset" where
  "gp_pairs g = (\<Sum>p \<in># mset g. image_mset (Pair (fst p)) (mset (snd p)))"

lemma gp_len_pairs: "gp_len g = size (gp_pairs g)"
proof -
  have "foldl (\<lambda>a b. a + b) a (map length (map snd g)) = a + size (gp_pairs g)" for a
    by (induction g arbitrary: a) (simp_all add: gp_pairs_def)
  then show ?thesis by (simp add: gp_len_def)
qed

lemma gp_row:
  assumes "gp_ok g" and "map_of g p = Some hs"
  shows "\<exists>Y. gp_pairs g = image_mset (Pair p) (mset hs) + Y \<and> (\<forall>h. (p, h) \<notin># Y) \<and>
    gp_pairs (AList.update p hs' g) = image_mset (Pair p) (mset hs') + Y \<and> gp_pairs (AList.delete p g) = Y"
proof -
  obtain X where X: "mset g = add_mset (p, hs) X" "mset (AList.update p hs' g) = add_mset (p, hs') X"
      "mset (AList.delete p g) = X"
    using alist_Some [of g p hs hs'] assms by (auto simp: gp_ok_def)
  have "p \<notin># image_mset fst X"
    using delete_notin_dom [of p g] X(3) by (metis set_image_mset set_mset_mset)
  then have "\<forall>h. (p, h) \<notin># (\<Sum>q \<in># X. image_mset (Pair (fst q)) (mset (snd q)))" by auto
  then show ?thesis using X by (simp add: gp_pairs_def)
qed

lemma gp_insert_ok:
  assumes "gp_ok g" and "(p, h) \<notin># gp_pairs g"
  shows "gp_ok (fst (gp_insert p h g))" "gp_pairs (fst (gp_insert p h g)) = add_mset (p, h) (gp_pairs g)"
proof -
  show "gp_ok (fst (gp_insert p h g))"
    using assms(1) by (simp add: gp_insert_def gp_ok_def Let_def distinct_alist)
  show "gp_pairs (fst (gp_insert p h g)) = add_mset (p, h) (gp_pairs g)"
  proof (cases "map_of g p")
    case None
    then show ?thesis using alist_None [of g p "[h]"] by (simp add: gp_insert_def gp_pairs_def)
  next
    case (Some hs)
    then obtain Y where Y: "gp_pairs g = image_mset (Pair p) (mset hs) + Y"
        "gp_pairs (AList.update p (h # hs) g) = image_mset (Pair p) (mset (h # hs)) + Y"
      using gp_row [OF assms(1), of p hs "h # hs"] by blast
    then have "h \<notin> set hs" using assms(2) by auto
    then show ?thesis using Some Y by (simp add: gp_insert_def)
  qed
qed

lemma gp_remove_ok:
  assumes "gp_ok g" and "(p, h) \<in># gp_pairs g"
  shows "gp_ok (fst (gp_remove p h g))" "snd (gp_remove p h g)"
    "gp_pairs g = add_mset (p, h) (gp_pairs (fst (gp_remove p h g)))"
proof -
  have "map_of g p \<noteq> None" using assms(2) by (auto simp: gp_pairs_def map_of_eq_None_iff image_iff)
  then obtain hs where hs: "map_of g p = Some hs" by blast
  have ok: "gp_ok (fst (gp_remove p h g))"
    using assms(1) by (simp add: gp_remove_def hs gp_ok_def distinct_alist)
  obtain Y where Y: "gp_pairs g = image_mset (Pair p) (mset hs) + Y" "\<forall>h. (p, h) \<notin># Y"
      "gp_pairs (AList.update p (remove1 h hs) g) = image_mset (Pair p) (mset (remove1 h hs)) + Y"
      "gp_pairs (AList.delete p g) = Y"
    using gp_row [OF assms(1) hs, of "remove1 h hs"] by blast
  have h: "h \<in> set hs" using assms(2) Y(1,2) by auto
  have "snd (gp_remove p h g) \<and> gp_pairs g = add_mset (p, h) (gp_pairs (fst (gp_remove p h g)))"
  proof (cases "length hs = 1")
    case True
    then have "hs = [h]" using h by (auto simp: length_Suc_conv)
    then show ?thesis using Y hs by (simp add: gp_remove_def)
  next
    case False
    have "mset hs = add_mset h (mset (remove1 h hs))" using h by simp
    then have "image_mset (Pair p) (mset hs) = add_mset (p, h) (image_mset (Pair p) (mset (remove1 h hs)))"
      by (metis image_mset_add_mset)
    then show ?thesis using False Y hs h by (simp add: gp_remove_def)
  qed
  with ok show "gp_ok (fst (gp_remove p h g))" "snd (gp_remove p h g)"
    "gp_pairs g = add_mset (p, h) (gp_pairs (fst (gp_remove p h g)))" by blast+
qed

subsection \<open>The set\<close>

record tx_set =
  ts_by_priority :: "tx_order list"
  ts_by_address :: "(address, nat, tx_order) table"
  ts_by_gas_price :: gas_price_queue
  ts_memory_limit :: nat
  ts_memory_usage :: nat

definition tx_set_new :: "nat \<Rightarrow> tx_set" where
  "tx_set_new memory_limit =
     \<lparr>ts_by_priority = [], ts_by_address = table_new, ts_by_gas_price = [],
      ts_memory_limit = memory_limit, ts_memory_usage = 0\<rparr>"

text \<open>The equalities that every change asserts at its end, and the checked counter.\<close>

definition in_sync :: "tx_set \<Rightarrow> bool" where
  "in_sync S \<longleftrightarrow> length (ts_by_priority S) = table_len (ts_by_address S) \<and>
     gp_len (ts_by_gas_price S) = table_len (ts_by_address S)"

definition usize_sub :: "nat \<Rightarrow> nat \<Rightarrow> nat option" where
  "usize_sub a b = (if b \<le> a then Some (a - b) else None)"

definition set_insert :: "address \<Rightarrow> nat \<Rightarrow> tx_order \<Rightarrow> tx_set \<Rightarrow> (tx_set \<times> tx_order option) option" where
  "set_insert sender nonce ord S =
     (case btree_insert order_cmp ord (ts_by_priority S) of (by_priority, inserted) \<Rightarrow>
      if \<not> inserted then Some (S, Some ord)
      else case table_insert sender nonce ord (ts_by_address S) of (by_address, replaced) \<Rightarrow>
        let S1 = S\<lparr>ts_by_priority := by_priority, ts_by_address := by_address\<rparr> in do {
          S2 \<leftarrow> (case replaced of
              None \<Rightarrow> Some S1
            | Some old \<Rightarrow>
                (case btree_remove order_cmp old by_priority of (by_priority', removed) \<Rightarrow>
                 case gp_remove (to_gas_price old) (to_hash old) (ts_by_gas_price S1) of (by_gas_price', gp_removed) \<Rightarrow>
                 if removed \<and> gp_removed then do {
                   usage \<leftarrow> usize_sub (ts_memory_usage S1) (to_memory_usage old);
                   Some (S1\<lparr>ts_by_priority := by_priority', ts_by_gas_price := by_gas_price',
                            ts_memory_usage := usage\<rparr>)
                 } else None));
          usage \<leftarrow> checked_add (ts_memory_usage S2) (to_memory_usage ord);
          (let S3 = S2\<lparr>ts_by_gas_price := fst (gp_insert (to_gas_price ord) (to_hash ord) (ts_by_gas_price S2)),
                        ts_memory_usage := usage\<rparr>
           in if in_sync S3 then Some (S3, replaced) else None)
        })"

definition set_drop :: "address \<Rightarrow> nat \<Rightarrow> tx_set \<Rightarrow> (tx_set \<times> tx_order option) option" where
  "set_drop sender nonce S =
     (case table_remove sender nonce (ts_by_address S) of (by_address, removed) \<Rightarrow>
      let S1 = S\<lparr>ts_by_address := by_address\<rparr> in
      case removed of
        Some ord \<Rightarrow>
          (case gp_remove (to_gas_price ord) (to_hash ord) (ts_by_gas_price S1) of (by_gas_price', gp_removed) \<Rightarrow>
           case btree_remove order_cmp ord (ts_by_priority S1) of (by_priority', removed) \<Rightarrow>
           if gp_removed \<and> removed then do {
             usage \<leftarrow> usize_sub (ts_memory_usage S1) (to_memory_usage ord);
             (let S2 = S1\<lparr>ts_by_priority := by_priority', ts_by_gas_price := by_gas_price',
                          ts_memory_usage := usage\<rparr>
              in if in_sync S2 then Some (S2, Some ord) else None)
           } else None)
      | None \<Rightarrow> if in_sync S1 then Some (S1, None) else None)"

definition set_clear :: "tx_set \<Rightarrow> tx_set" where
  "set_clear S =
     S\<lparr>ts_by_priority := [], ts_by_address := table_clear (ts_by_address S), ts_by_gas_price := [],
       ts_memory_usage := 0\<rparr>"

subsection \<open>The set is a keyed store\<close>

text \<open>
  What the queue needs of a store: the cell of each key, the collection of all values, and that the
  two operations return, with the old value, and change nothing else, in particular not the store's
  settings \<open>conf\<close>. \<open>free S v\<close> says that \<open>v\<close> may be put into \<open>S\<close>.
\<close>

locale keyed_store =
  fixes ok :: "'s \<Rightarrow> bool"
    and cell :: "'s \<Rightarrow> 'r \<Rightarrow> 'c \<Rightarrow> 'v option"
    and bag :: "'s \<Rightarrow> 'v multiset"
    and conf :: "'s \<Rightarrow> 'l"
    and free :: "'s \<Rightarrow> 'v \<Rightarrow> bool"
    and put :: "'r \<Rightarrow> 'c \<Rightarrow> 'v \<Rightarrow> 's \<Rightarrow> ('s \<times> 'v option) option"
    and take_out :: "'r \<Rightarrow> 'c \<Rightarrow> 's \<Rightarrow> ('s \<times> 'v option) option"
  assumes put_ok: "ok S \<Longrightarrow> free S v \<Longrightarrow> \<exists>S'. put r c v S = Some (S', cell S r c) \<and> ok S' \<and> conf S' = conf S \<and>
      (\<forall>r' c'. cell S' r' c' = (if r' = r \<and> c' = c then Some v else cell S r' c')) \<and>
      put_entry (cell S r c) v (bag S) (bag S')"
    and take_ok: "ok S \<Longrightarrow> \<exists>S'. take_out r c S = Some (S', cell S r c) \<and> ok S' \<and> conf S' = conf S \<and>
      (\<forall>r' c'. cell S' r' c' = (if r' = r \<and> c' = c then None else cell S r' c')) \<and>
      take_entry (cell S r c) (bag S) (bag S')"
    and bag_cell: "ok S \<Longrightarrow> v \<in># bag S \<longleftrightarrow> (\<exists>r c. cell S r c = Some v)"

definition set_ok :: "strategy \<Rightarrow> tx_set \<Rightarrow> bool" where
  "set_ok st S \<longleftrightarrow>
     table_ok (ts_by_address S) \<and> gp_ok (ts_by_gas_price S) \<and>
     sorted_wrt (\<lambda>a b. order_cmp a b = Less) (ts_by_priority S) \<and>
     set (ts_by_priority S) \<subseteq> {a. to_strategy a = st} \<and>
     mset (ts_by_priority S) = image_mset (\<lambda>(s, n, x). x) (entries (ts_by_address S)) \<and>
     distinct (map to_hash (ts_by_priority S)) \<and>
     gp_pairs (ts_by_gas_price S) = image_mset (\<lambda>x. (to_gas_price x, to_hash x)) (mset (ts_by_priority S)) \<and>
     ts_memory_usage S = sum_list (map to_memory_usage (ts_by_priority S)) \<and>
     ts_memory_usage S \<le> usize_max"

definition cells :: "tx_set \<Rightarrow> address \<Rightarrow> nat \<Rightarrow> tx_order option" where
  "cells S = table_get (ts_by_address S)"

definition set_bag :: "tx_set \<Rightarrow> tx_order multiset" where
  "set_bag S = mset (ts_by_priority S)"

text \<open>An order of the strategy with a new hash fits when the memory counter does not overflow.\<close>

definition set_free :: "strategy \<Rightarrow> tx_set \<Rightarrow> tx_order \<Rightarrow> bool" where
  "set_free st S ord \<longleftrightarrow> to_strategy ord = st \<and> to_hash ord \<notin> to_hash ` set (ts_by_priority S) \<and>
     ts_memory_usage S + to_memory_usage ord \<le> usize_max"

lemma ts_upd:
  "S\<lparr>ts_by_address := t, ts_by_priority := b\<rparr> = S\<lparr>ts_by_priority := b, ts_by_address := t\<rparr>"
  by simp

lemma set_okD:
  assumes "set_ok st S"
  shows "table_ok (ts_by_address S)" "gp_ok (ts_by_gas_price S)"
    "sorted_wrt (\<lambda>a b. order_cmp a b = Less) (ts_by_priority S)" "set (ts_by_priority S) \<subseteq> {a. to_strategy a = st}"
    "mset (ts_by_priority S) = image_mset (\<lambda>(s, n, x). x) (entries (ts_by_address S))"
    "distinct (map to_hash (ts_by_priority S))"
    "gp_pairs (ts_by_gas_price S) = image_mset (\<lambda>x. (to_gas_price x, to_hash x)) (mset (ts_by_priority S))"
    "ts_memory_usage S = sum_list (map to_memory_usage (ts_by_priority S))" "ts_memory_usage S \<le> usize_max"
  using assms unfolding set_ok_def by blast+

lemma set_ok_sync: "set_ok st S \<Longrightarrow> in_sync S"
proof -
  assume S: "set_ok st S"
  then have "size (mset (ts_by_priority S)) = size (entries (ts_by_address S))" by (simp add: set_ok_def)
  moreover from S have "size (gp_pairs (ts_by_gas_price S)) = size (mset (ts_by_priority S))"
    by (simp add: set_ok_def)
  ultimately show ?thesis by (simp add: in_sync_def table_len_entries gp_len_pairs)
qed

lemma set_ok_new: "set_ok st (tx_set_new limit)"
  by (simp add: set_ok_def tx_set_new_def table_new_def gp_ok_def gp_pairs_def)

lemma set_ok_clear: "set_ok st (set_clear S)"
  by (simp add: set_ok_def set_clear_def table_clear_def gp_ok_def gp_pairs_def)

lemma priority_cell: "set_ok st S \<Longrightarrow> x \<in> set (ts_by_priority S) \<longleftrightarrow> (\<exists>s n. cells S s n = Some x)"
proof -
  assume S: "set_ok st S"
  have "set (ts_by_priority S) = (\<lambda>(s, n, x). x) ` set_mset (entries (ts_by_address S))"
    using arg_cong [OF set_okD(5) [OF S], of set_mset] by simp
  then have "x \<in> set (ts_by_priority S) \<longleftrightarrow> (\<exists>s n. (s, n, x) \<in># entries (ts_by_address S))" by force
  also have "\<dots> \<longleftrightarrow> (\<exists>s n. cells S s n = Some x)" using set_okD(1) [OF S] by (simp add: entries_get cells_def)
  finally show ?thesis .
qed

lemma set_mset_list: "mset xs = add_mset x (mset ys) \<Longrightarrow> set xs = insert x (set ys)"
  by (drule arg_cong [where f = set_mset]) simp

lemma distinct_mset: "mset xs = add_mset x (mset ys) \<Longrightarrow>
    distinct (map f xs) \<longleftrightarrow> f x \<notin> f ` set ys \<and> distinct (map f ys)"
proof -
  assume "mset xs = add_mset x (mset ys)"
  then have "mset (map f xs) = mset (f x # map f ys)" by simp
  then have "distinct (map f xs) \<longleftrightarrow> distinct (f x # map f ys)" by (rule mset_eq_imp_distinct_iff)
  then show ?thesis by simp
qed

lemma sum_mset_list:
  assumes "mset xs = add_mset x (mset ys)"
  shows "sum_list (map f xs) = f x + (sum_list (map f ys) :: nat)"
proof -
  have "sum_list (map f zs) = sum_mset (image_mset f (mset zs))" for zs
    by (simp add: sum_mset_sum_list [symmetric])
  then show ?thesis using assms by simp
qed

text \<open>Taking one order out of all four representations.\<close>

lemma set_take:
  assumes "table_ok by_address" and "gp_ok g" and "gp_remove (to_gas_price x) (to_hash x) g = (g', b)"
    and "btree_remove order_cmp x xs = (xs', b')"
    and "sorted_wrt (\<lambda>a b. order_cmp a b = Less) xs" and "set xs \<subseteq> {a. to_strategy a = st}" and "x \<in> set xs"
    and "distinct (map to_hash xs)" and "gp_pairs g = image_mset (\<lambda>x. (to_gas_price x, to_hash x)) (mset xs)"
    and "usage = sum_list (map to_memory_usage xs)"
  shows "b" "b'" "gp_ok g'" "mset xs = add_mset x (mset xs')"
    "sorted_wrt (\<lambda>a b. order_cmp a b = Less) xs'" "set xs' \<subseteq> {a. to_strategy a = st}"
    "distinct (map to_hash xs')" "gp_pairs g' = image_mset (\<lambda>x. (to_gas_price x, to_hash x)) (mset xs')"
    "usize_sub usage (to_memory_usage x) = Some (sum_list (map to_memory_usage xs'))"
proof -
  have "b' \<and> sorted_wrt (\<lambda>a b. order_cmp a b = Less) xs' \<and> set xs' \<subseteq> {a. to_strategy a = st} \<and>
      mset xs = add_mset x (mset xs')"
    using by_order.remove_found [of xs st x] assms(4-7) by simp
  then show xs': "b'" "sorted_wrt (\<lambda>a b. order_cmp a b = Less) xs'" "set xs' \<subseteq> {a. to_strategy a = st}"
      "mset xs = add_mset x (mset xs')" by blast+
  have "(to_gas_price x, to_hash x) \<in># gp_pairs g" using assms(7,9) by force
  from gp_remove_ok [OF assms(2) this] assms(3)
  have g: "gp_ok g'" "b" "gp_pairs g = add_mset (to_gas_price x, to_hash x) (gp_pairs g')" by simp_all
  then show "gp_ok g'" "b" by blast+
  show "gp_pairs g' = image_mset (\<lambda>x. (to_gas_price x, to_hash x)) (mset xs')"
    using g(3) assms(9) xs'(4) by simp
  show "distinct (map to_hash xs')" using distinct_mset [OF xs'(4)] assms(8) by blast
  show "usize_sub usage (to_memory_usage x) = Some (sum_list (map to_memory_usage xs'))"
    using sum_mset_list [OF xs'(4)] assms(10) by (simp add: usize_sub_def)
qed

lemma set_drop_ok:
  assumes S: "set_ok st S"
  shows "\<exists>S'. set_drop s n S = Some (S', cells S s n) \<and> set_ok st S' \<and> ts_memory_limit S' = ts_memory_limit S \<and>
    (\<forall>r c. cells S' r c = (if r = s \<and> c = n then None else cells S r c)) \<and>
    take_entry (cells S s n) (set_bag S) (set_bag S')"
proof -
  obtain t' old where t': "table_remove s n (ts_by_address S) = (t', old)"
    by (cases "table_remove s n (ts_by_address S)")
  note ok = set_okD [OF S]
  note t = table_remove_ok [OF ok(1) t']
  show ?thesis
  proof (cases old)
    case None
    then have "set_ok st (S\<lparr>ts_by_address := t'\<rparr>)" using ok t by (simp add: set_ok_def take_entry_def)
    then show ?thesis using None t t' set_ok_sync [of st "S\<lparr>ts_by_address := t'\<rparr>"]
      by (auto simp: set_drop_def cells_def take_entry_def set_bag_def)
  next
    case (Some x)
    then have x: "cells S s n = Some x" using t(2) by (simp add: cells_def)
    then have mem: "x \<in> set (ts_by_priority S)" using priority_cell [OF S] by blast
    obtain g' b where g': "gp_remove (to_gas_price x) (to_hash x) (ts_by_gas_price S) = (g', b)" by fastforce
    obtain xs' b' where xs': "btree_remove order_cmp x (ts_by_priority S) = (xs', b')" by fastforce
    let ?S = "S\<lparr>ts_by_priority := xs', ts_by_address := t', ts_by_gas_price := g',
        ts_memory_usage := sum_list (map to_memory_usage xs')\<rparr>"
    have out: "b" "b'" "gp_ok g'" "mset (ts_by_priority S) = add_mset x (mset xs')"
      "sorted_wrt (\<lambda>a b. order_cmp a b = Less) xs'" "set xs' \<subseteq> {a. to_strategy a = st}"
      "distinct (map to_hash xs')" "gp_pairs g' = image_mset (\<lambda>x. (to_gas_price x, to_hash x)) (mset xs')"
      "usize_sub (ts_memory_usage S) (to_memory_usage x) = Some (sum_list (map to_memory_usage xs'))"
      using set_take [OF ok(1,2) g' xs' ok(3,4) mem ok(6,7,8)] by blast+
    have "entries (ts_by_address S) = add_mset (s, n, x) (entries t')" using t(4) Some by (simp add: take_entry_def)
    then have "mset xs' = image_mset (\<lambda>(s, n, x). x) (entries t')" using out(4) ok(5) by simp
    moreover have "sum_list (map to_memory_usage xs') \<le> usize_max"
      using out(9) ok(9) by (simp add: usize_sub_def split: if_splits)
    ultimately have "set_ok st ?S" using out t(1) by (simp add: set_ok_def)
    moreover have "set_drop s n S = Some (?S, Some x)"
      using set_ok_sync [OF calculation] out t' Some g' xs' by (simp add: set_drop_def Let_def ts_upd)
    ultimately show ?thesis using x t(3) out(4) by (auto simp: cells_def take_entry_def set_bag_def)
  qed
qed

text \<open>Putting an order in, given what is left once the order it replaces is out.\<close>

lemma set_put:
  assumes "table_ok t'" and "mset zs = image_mset (\<lambda>(s, n, x). x) (entries t')"
    and "sorted_wrt (\<lambda>a b. order_cmp a b = Less) zs" and "set zs \<subseteq> {a. to_strategy a = st}"
    and "gp_ok g" and "gp_pairs g = image_mset (\<lambda>x. (to_gas_price x, to_hash x)) (mset ws)"
    and "distinct (map to_hash ws)" and zs: "mset zs = add_mset x (mset ws)"
    and "to_hash x \<notin> to_hash ` set ws" and "sum_list (map to_memory_usage ws) + to_memory_usage x \<le> usize_max"
  shows "set_ok st (S\<lparr>ts_by_priority := zs, ts_by_address := t',
    ts_by_gas_price := fst (gp_insert (to_gas_price x) (to_hash x) g),
    ts_memory_usage := sum_list (map to_memory_usage ws) + to_memory_usage x\<rparr>)"
proof -
  have "(to_gas_price x, to_hash x) \<notin># gp_pairs g" using assms(6,9) by auto
  note g = gp_insert_ok [OF assms(5) this]
  have "gp_pairs (fst (gp_insert (to_gas_price x) (to_hash x) g)) =
      image_mset (\<lambda>x. (to_gas_price x, to_hash x)) (mset zs)"
    unfolding g(2) zs assms(6) by simp
  moreover have "distinct (map to_hash zs)" using distinct_mset [OF zs] assms(7,9) by blast
  moreover have "sum_list (map to_memory_usage zs) = sum_list (map to_memory_usage ws) + to_memory_usage x"
    using sum_mset_list [OF zs, of to_memory_usage] by simp
  ultimately show ?thesis using assms(1-4,10) g(1) by (simp add: set_ok_def)
qed

lemma set_insert_ok:
  assumes S: "set_ok st S" and free: "set_free st S x"
  shows "\<exists>S'. set_insert s n x S = Some (S', cells S s n) \<and> set_ok st S' \<and> ts_memory_limit S' = ts_memory_limit S \<and>
    (\<forall>r c. cells S' r c = (if r = s \<and> c = n then Some x else cells S r c)) \<and>
    put_entry (cells S s n) x (set_bag S) (set_bag S')"
proof -
  obtain t' old where t': "table_insert s n x (ts_by_address S) = (t', old)"
    by (cases "table_insert s n x (ts_by_address S)")
  note ok = set_okD [OF S]
  note t = table_insert_ok [OF ok(1) t']
  obtain ys b where ys: "btree_insert order_cmp x (ts_by_priority S) = (ys, b)" by fastforce
  have x: "to_strategy x = st" "to_hash x \<notin> to_hash ` set (ts_by_priority S)"
      "ts_memory_usage S + to_memory_usage x \<le> usize_max" using free by (simp_all add: set_free_def)
  have new: "order_cmp x y \<noteq> Equal" if "y \<in> set (ts_by_priority S)" for y
  proof -
    have "to_strategy x = to_strategy y" "to_hash x \<noteq> to_hash y" using that ok(4) x by auto
    then show ?thesis using order_key_hash [of x y] by (auto simp: order_cmp_key cmp_def)
  qed
  have in_ys: "b" "mset ys = add_mset x (mset (ts_by_priority S))"
    using by_order.insert_new [of "ts_by_priority S" x] new ys by auto
  have asc: "sorted_wrt (\<lambda>a b. order_cmp a b = Less) ys" "set ys \<subseteq> {a. to_strategy a = st}"
    using by_order.insert_asc [of "ts_by_priority S" st x] ok(3,4) x(1) ys by auto
  show ?thesis
  proof (cases old)
    case None
    have "entries t' = add_mset (s, n, x) (entries (ts_by_address S))" using t(4) None by (simp add: put_entry_def)
    then have "mset ys = image_mset (\<lambda>(s, n, x). x) (entries t')" using in_ys(2) ok(5) by simp
    from set_put [OF t(1) this asc ok(2,7,6) in_ys(2) x(2), of S] x(3) ok(8)
    have S': "set_ok st (S\<lparr>ts_by_priority := ys, ts_by_address := t',
        ts_by_gas_price := fst (gp_insert (to_gas_price x) (to_hash x) (ts_by_gas_price S)),
        ts_memory_usage := ts_memory_usage S + to_memory_usage x\<rparr>)" by simp
    have "set_insert s n x S = Some (S\<lparr>ts_by_priority := ys, ts_by_address := t',
        ts_by_gas_price := fst (gp_insert (to_gas_price x) (to_hash x) (ts_by_gas_price S)),
        ts_memory_usage := ts_memory_usage S + to_memory_usage x\<rparr>, None)"
      using set_ok_sync [OF S'] ys in_ys(1) t' None x(3) by (simp add: set_insert_def Let_def checked_add_def)
    with S' show ?thesis using t(2,3) in_ys(2) None by (auto simp: cells_def put_entry_def set_bag_def)
  next
    case (Some y)
    then have y: "cells S s n = Some y" using t(2) by (simp add: cells_def)
    then have mem: "y \<in> set (ts_by_priority S)" using priority_cell [OF S] by blast
    obtain g' c where g': "gp_remove (to_gas_price y) (to_hash y) (ts_by_gas_price S) = (g', c)" by fastforce
    obtain ws c' where ws: "btree_remove order_cmp y (ts_by_priority S) = (ws, c')" by fastforce
    obtain zs d where zs: "btree_remove order_cmp y ys = (zs, d)" by fastforce
    have out: "c" "gp_ok g'" "mset (ts_by_priority S) = add_mset y (mset ws)" "distinct (map to_hash ws)"
      "gp_pairs g' = image_mset (\<lambda>x. (to_gas_price x, to_hash x)) (mset ws)"
      "usize_sub (ts_memory_usage S) (to_memory_usage y) = Some (sum_list (map to_memory_usage ws))"
      using set_take [OF ok(1,2) g' ws ok(3,4) mem ok(6,7,8)] by blast+
    have "y \<in> set ys" using mem set_mset_list [OF in_ys(2)] by simp
    with by_order.remove_found [of ys st y] asc zs
    have zs_ok: "d" "sorted_wrt (\<lambda>a b. order_cmp a b = Less) zs" "set zs \<subseteq> {a. to_strategy a = st}"
        "mset ys = add_mset y (mset zs)" by auto
    have zs_ws: "mset zs = add_mset x (mset ws)" using zs_ok(4) in_ys(2) out(3) by (simp add: add_mset_commute)
    obtain X where X: "entries (ts_by_address S) = add_mset (s, n, y) X" "entries t' = add_mset (s, n, x) X"
      using t(4) Some by (auto simp: put_entry_def)
    have "mset zs = image_mset (\<lambda>(s, n, x). x) (entries t')" using X zs_ws out(3) ok(5) by simp
    moreover have "to_hash x \<notin> to_hash ` set ws" using x(2) set_mset_list [OF out(3)] by auto
    moreover have "sum_list (map to_memory_usage ws) + to_memory_usage x \<le> usize_max"
      using out(6) x(3) by (simp add: usize_sub_def split: if_splits)
    ultimately have S': "set_ok st (S\<lparr>ts_by_priority := zs, ts_by_address := t',
        ts_by_gas_price := fst (gp_insert (to_gas_price x) (to_hash x) g'),
        ts_memory_usage := sum_list (map to_memory_usage ws) + to_memory_usage x\<rparr>)"
      and room: "checked_add (sum_list (map to_memory_usage ws)) (to_memory_usage x) =
        Some (sum_list (map to_memory_usage ws) + to_memory_usage x)"
      using set_put [OF t(1) _ zs_ok(2,3) out(2,5,4) zs_ws, of S] by (simp_all add: checked_add_def)
    have "set_insert s n x S = Some (S\<lparr>ts_by_priority := zs, ts_by_address := t',
        ts_by_gas_price := fst (gp_insert (to_gas_price x) (to_hash x) g'),
        ts_memory_usage := sum_list (map to_memory_usage ws) + to_memory_usage x\<rparr>, Some y)"
      using set_ok_sync [OF S'] ys in_ys(1) t' Some zs zs_ok(1) g' out(1,6) room
      by (simp add: set_insert_def Let_def ts_upd)
    with S' show ?thesis using t(3) y zs_ws out(3) by (auto simp: cells_def put_entry_def set_bag_def)
  qed
qed

interpretation txs: keyed_store "set_ok st" cells set_bag ts_memory_limit "set_free st" set_insert set_drop for st
  by unfold_locales (use set_insert_ok set_drop_ok in blast, use set_drop_ok in blast,
    simp add: priority_cell set_bag_def)

end
