(* ===== verification/Local_Transactions.thy ===== *)
theory Local_Transactions
  imports Transaction
begin

text \<open>
  The list of local transactions, \<^verbatim>\<open>src/core/src/transaction/local_transactions.rs\<close>: the status of every
  transaction that came from this node, and the bounded list of those that have left the queue. The
  messages sent over the channel are kept in order; a message carries its cause instead of the
  rendered text. \<open>None\<close> is the eviction loop running forever, which a bound of zero makes it do.
\<close>

subsection \<open>Data\<close>

datatype local_status =
    StPending | StFuture | StMined | StDropped | StReplaced | StRejected | StInvalid | StCanceled

datatype drop_cause =
    CauseRejected tx_error | CauseReplaced bytes nat | CauseInvalid | CauseCanceled | CauseLimit

datatype tx_io_message = MsgIncluded bytes bytes | MsgDropped bytes drop_cause

record local_list =
  ll_transactions :: "bytes \<Rightarrow> local_status option"
  ll_old :: "bytes list"
  ll_max_old :: nat
  ll_sent :: "tx_io_message list"

definition local_list_new :: "nat \<Rightarrow> local_list" where
  "local_list_new max_old =
     \<lparr>ll_transactions = (\<lambda>_. None), ll_old = [], ll_max_old = max_old, ll_sent = []\<rparr>"

definition local_list_default :: local_list where
  "local_list_default = local_list_new 10"

subsection \<open>Operations\<close>

definition set_status :: "bytes \<Rightarrow> local_status \<Rightarrow> local_list \<Rightarrow> local_list" where
  "set_status hash st l = l\<lparr>ll_transactions := (ll_transactions l)(hash \<mapsto> st)\<rparr>"

definition send_message :: "tx_io_message \<Rightarrow> local_list \<Rightarrow> local_list" where
  "send_message msg l = l\<lparr>ll_sent := ll_sent l @ [msg]\<rparr>"

definition mark_pending :: "bytes \<Rightarrow> local_list \<Rightarrow> local_list" where
  "mark_pending hash l = set_status hash StPending l"

definition mark_future :: "bytes \<Rightarrow> local_list \<Rightarrow> local_list" where
  "mark_future hash l = set_status hash StFuture l"

partial_function (option) clear_old :: "local_list \<Rightarrow> local_list option" where
  "clear_old l =
     (if length (ll_old l) \<ge> ll_max_old l then
        clear_old (if ll_old l = [] then l
          else l\<lparr>ll_old := butlast (ll_old l), ll_transactions := (ll_transactions l)(last (ll_old l) := None)\<rparr>)
      else Some l)"

declare clear_old.simps [code]

definition mark_old :: "bytes \<Rightarrow> local_list \<Rightarrow> local_list option" where
  "mark_old hash l = map_option (\<lambda>l. l\<lparr>ll_old := ll_old l @ [hash]\<rparr>) (clear_old l)"

definition mark_rejected :: "bytes \<Rightarrow> tx_error \<Rightarrow> local_list \<Rightarrow> local_list option" where
  "mark_rejected hash err l =
     map_option (set_status hash StRejected) (mark_old hash (send_message (MsgDropped hash (CauseRejected err)) l))"

definition mark_replaced :: "bytes \<Rightarrow> bytes \<Rightarrow> nat \<Rightarrow> local_list \<Rightarrow> local_list option" where
  "mark_replaced hash hash_replace gas_price l =
     map_option (set_status hash StReplaced)
       (mark_old hash (send_message (MsgDropped hash (CauseReplaced hash_replace gas_price)) l))"

definition mark_invalid :: "bytes \<Rightarrow> local_list \<Rightarrow> local_list option" where
  "mark_invalid hash l =
     map_option (set_status hash StInvalid) (mark_old hash (send_message (MsgDropped hash CauseInvalid) l))"

definition mark_canceled :: "bytes \<Rightarrow> local_list \<Rightarrow> local_list option" where
  "mark_canceled hash l =
     map_option (set_status hash StCanceled) (mark_old hash (send_message (MsgDropped hash CauseCanceled) l))"

definition mark_dropped :: "bytes \<Rightarrow> local_list \<Rightarrow> local_list option" where
  "mark_dropped hash l =
     map_option (set_status hash StDropped) (mark_old hash (send_message (MsgDropped hash CauseLimit) l))"

definition mark_mined :: "bytes \<Rightarrow> local_list \<Rightarrow> local_list option" where
  "mark_mined hash l =
     map_option (set_status hash StMined) (mark_old hash (send_message (MsgIncluded hash [0]) l))"

definition local_contains :: "bytes \<Rightarrow> local_list \<Rightarrow> bool" where
  "local_contains hash l \<longleftrightarrow> ll_transactions l hash \<noteq> None"

lemmas mark_defs = mark_rejected_def mark_replaced_def mark_invalid_def mark_canceled_def mark_dropped_def
  mark_mined_def

subsection \<open>The bounded list\<close>

text \<open>Below the bound nothing is evicted; at or above it the newest entries go until one place is free.\<close>

lemma clear_old_below: "length (ll_old l) < ll_max_old l \<Longrightarrow> clear_old l = Some l"
  by (simp add: clear_old.simps)

lemma clear_old_evicts:
  assumes "0 < ll_max_old l" and "length (ll_old l) = ll_max_old l"
  shows "clear_old l = Some (l\<lparr>ll_old := butlast (ll_old l),
    ll_transactions := (ll_transactions l)(last (ll_old l) := None)\<rparr>)"
proof -
  have "ll_old l \<noteq> []" using assms by auto
  then show ?thesis using assms by (subst clear_old.simps) (auto intro!: clear_old_below)
qed

definition local_ok :: "local_list \<Rightarrow> bool" where
  "local_ok l \<longleftrightarrow> 0 < ll_max_old l \<and> length (ll_old l) \<le> ll_max_old l"

lemma local_ok_default: "local_ok local_list_default"
  by (simp add: local_ok_def local_list_default_def local_list_new_def)

lemma mark_old_ok:
  assumes "local_ok l"
  shows "\<exists>l'. mark_old hash l = Some l' \<and> local_ok l' \<and> ll_max_old l' = ll_max_old l \<and>
    ll_old l' = take (ll_max_old l - 1) (ll_old l) @ [hash]"
proof (cases "length (ll_old l) < ll_max_old l")
  case True
  then show ?thesis using assms clear_old_below [OF True] by (simp add: mark_old_def local_ok_def)
next
  case False
  then have "length (ll_old l) = ll_max_old l" "0 < ll_max_old l" using assms by (simp_all add: local_ok_def)
  then show ?thesis using clear_old_evicts [of l]
    by (simp add: mark_old_def local_ok_def butlast_conv_take)
qed

lemma local_ok_upd [simp]:
  "local_ok (set_status h st l) = local_ok l" "local_ok (send_message msg l) = local_ok l"
  "local_ok (mark_pending h l) = local_ok l" "local_ok (mark_future h l) = local_ok l"
  by (simp_all add: local_ok_def set_status_def send_message_def mark_pending_def mark_future_def)

lemma marks_ok:
  assumes "local_ok l"
  shows "\<exists>l'. mark_rejected h e l = Some l' \<and> local_ok l'" "\<exists>l'. mark_replaced h h' p l = Some l' \<and> local_ok l'"
    "\<exists>l'. mark_invalid h l = Some l' \<and> local_ok l'" "\<exists>l'. mark_canceled h l = Some l' \<and> local_ok l'"
    "\<exists>l'. mark_dropped h l = Some l' \<and> local_ok l'" "\<exists>l'. mark_mined h l = Some l' \<and> local_ok l'"
proof -
  have "\<exists>l'. map_option (set_status h st) (mark_old h (send_message msg l)) = Some l' \<and> local_ok l'" for st msg
    using mark_old_ok [of "send_message msg l" h] assms by auto
  then show "\<exists>l'. mark_rejected h e l = Some l' \<and> local_ok l'" "\<exists>l'. mark_replaced h h' p l = Some l' \<and> local_ok l'"
    "\<exists>l'. mark_invalid h l = Some l' \<and> local_ok l'" "\<exists>l'. mark_canceled h l = Some l' \<and> local_ok l'"
    "\<exists>l'. mark_dropped h l = Some l' \<and> local_ok l'" "\<exists>l'. mark_mined h l = Some l' \<and> local_ok l'"
    by (simp_all add: mark_defs)
qed

text \<open>A sequence of marks, as the queue makes them.\<close>

datatype local_mark =
    MarkPending bytes | MarkFuture bytes | MarkRejected bytes tx_error | MarkReplaced bytes bytes nat
  | MarkInvalid bytes | MarkCanceled bytes | MarkDropped bytes | MarkMined bytes

fun local_step :: "local_mark \<Rightarrow> local_list \<Rightarrow> local_list option" where
  "local_step (MarkPending h) l = Some (mark_pending h l)"
| "local_step (MarkFuture h) l = Some (mark_future h l)"
| "local_step (MarkRejected h e) l = mark_rejected h e l"
| "local_step (MarkReplaced h h' p) l = mark_replaced h h' p l"
| "local_step (MarkInvalid h) l = mark_invalid h l"
| "local_step (MarkCanceled h) l = mark_canceled h l"
| "local_step (MarkDropped h) l = mark_dropped h l"
| "local_step (MarkMined h) l = mark_mined h l"

fun leaves :: "local_mark \<Rightarrow> bytes option" where
  "leaves (MarkPending h) = None"
| "leaves (MarkFuture h) = None"
| "leaves (MarkRejected h e) = Some h"
| "leaves (MarkReplaced h h' p) = Some h"
| "leaves (MarkInvalid h) = Some h"
| "leaves (MarkCanceled h) = Some h"
| "leaves (MarkDropped h) = Some h"
| "leaves (MarkMined h) = Some h"

fun local_run :: "local_mark list \<Rightarrow> local_list \<Rightarrow> local_list option" where
  "local_run [] l = Some l"
| "local_run (c # cs) l = local_step c l \<bind> local_run cs"

lemma local_step_old:
  assumes "local_ok l"
  shows "\<exists>l'. local_step c l = Some l' \<and> local_ok l' \<and> ll_max_old l' = ll_max_old l \<and>
    ll_old l' = (case leaves c of None \<Rightarrow> ll_old l | Some h \<Rightarrow> take (ll_max_old l - 1) (ll_old l) @ [h])"
proof -
  have "\<exists>l'. map_option (set_status h st) (mark_old h (send_message msg l)) = Some l' \<and> local_ok l' \<and>
      ll_max_old l' = ll_max_old l \<and> ll_old l' = take (ll_max_old l - 1) (ll_old l) @ [h]" for h st msg
    using mark_old_ok [of "send_message msg l" h] assms by (auto simp: set_status_def send_message_def local_ok_def)
  then show ?thesis using assms
    by (cases c) (simp_all add: mark_defs mark_pending_def mark_future_def set_status_def local_ok_def)
qed

text \<open>What a list of bound \<open>max_old\<close> holds after the departures \<open>ys\<close>.\<close>

definition kept :: "nat \<Rightarrow> 'a list \<Rightarrow> 'a list" where
  "kept max_old ys = take (max_old - 1) ys @ (if length ys < max_old then [] else [last ys])"

lemma kept_step: "0 < n \<Longrightarrow> take (n - 1) (kept n ys) @ [y] = kept n (ys @ [y])"
  by (auto simp: kept_def)

lemma local_run_old:
  assumes "local_ok l" and "ll_old l = kept (ll_max_old l) ys"
  shows "\<exists>l'. local_run cs l = Some l' \<and> local_ok l' \<and> ll_max_old l' = ll_max_old l \<and>
    ll_old l' = kept (ll_max_old l) (ys @ List.map_filter leaves cs)"
  using assms
proof (induction cs arbitrary: l ys)
  case Nil
  then show ?case by (simp add: map_filter_simps)
next
  case (Cons c cs)
  obtain l1 where l1: "local_step c l = Some l1" "local_ok l1" "ll_max_old l1 = ll_max_old l"
      "ll_old l1 = (case leaves c of None \<Rightarrow> ll_old l | Some h \<Rightarrow> take (ll_max_old l - 1) (ll_old l) @ [h])"
    using local_step_old [OF Cons.prems(1)] by blast
  let ?ys = "ys @ (case leaves c of None \<Rightarrow> [] | Some h \<Rightarrow> [h])"
  have pos: "0 < ll_max_old l" using Cons.prems(1) by (simp add: local_ok_def)
  have "ll_old l1 = kept (ll_max_old l1) ?ys"
    using l1(3,4) Cons.prems(2) kept_step [OF pos, of ys] by (simp split: option.splits)
  from Cons.IH [OF l1(2) this] show ?case using l1(1,3) by (auto simp: map_filter_simps split: option.splits)
qed

text \<open>
  The list of old local transactions. From a new list every sequence of marks ends, and the list
  of transactions that have left holds the first \<open>max_old - 1\<close> that ever left and, when there were
  more, the very last one: it never exceeds its bound, and once it is full each departure evicts the
  one before it while the oldest entries stay for good.
\<close>

theorem old_list_keeps_oldest:
  assumes "0 < max_old"
  shows "\<exists>l. local_run cs (local_list_new max_old) = Some l \<and> length (ll_old l) \<le> max_old \<and>
    ll_old l = take (max_old - 1) (List.map_filter leaves cs) @
      (if length (List.map_filter leaves cs) < max_old then [] else [last (List.map_filter leaves cs)])"
proof -
  let ?l = "local_list_new max_old"
  have "local_ok ?l" "ll_old ?l = kept (ll_max_old ?l) []" "ll_max_old ?l = max_old"
    using assms by (simp_all add: local_ok_def local_list_new_def kept_def)
  with local_run_old [of ?l "[]" cs] show ?thesis by (auto simp: local_ok_def kept_def)
qed

theorem old_list_keeps_oldest_witness:
  "\<exists>l. local_run [MarkMined [1], MarkMined [2], MarkPending [3], MarkMined [4]] (local_list_new 2) = Some l \<and>
     ll_old l = [[1], [4]]"
  using old_list_keeps_oldest [of 2 "[MarkMined [1], MarkMined [2], MarkPending [3], MarkMined [4]]"]
  by (auto simp: map_filter_simps)

end
