(* ===== verification/Transaction_Queue.thy ===== *)
theory Transaction_Queue
  imports Transaction_Set Local_Transactions
begin

text \<open>
  The transaction queue, \<^verbatim>\<open>TransactionQueue\<close> of \<^verbatim>\<open>src/core/src/transaction/transaction_queue.rs\<close>: the set
  of transactions ready for a block (\<open>current\<close>), the set waiting for a lower nonce (\<open>future\<close>), the
  transactions by hash and the last nonce of each sender in \<open>current\<close>, with importing, culling,
  removing, penalising, expiring and listing.

  \<^item> Every operation is the whole method on the record of the queue; \<open>None\<close> is a panic: a failed
    assertion, a missing \<^verbatim>\<open>expect\<close>, an overflow of a \<^verbatim>\<open>U256\<close>.
  \<^item> The account of a sender comes from the caller (\<open>fetch_account\<close>), as in the code.
  \<^item> A \<^verbatim>\<open>HashMap\<close> that is iterated is an association list, one that is only looked up a partial function.
\<close>

subsection \<open>Data\<close>

record account_details =
  ad_nonce :: nat
  ad_balance :: nat

datatype import_result = ImportCurrent | ImportFuture

datatype removal_reason = RemInvalid | RemCanceled | RemNotAllowed | RemInvalidBeaconHash bytes

definition GAS_PRICE_BUMP_SHIFT :: nat where
  "GAS_PRICE_BUMP_SHIFT = 3"

definition DEFAULT_QUEUING_PERIOD :: nat where
  "DEFAULT_QUEUING_PERIOD = 128"

type_synonym tx_map = "(bytes \<times> verified_transaction) list"

record tx_queue =
  q_strategy :: strategy
  q_max_time_in_queue :: nat
  q_current :: tx_set
  q_future :: tx_set
  q_by_hash :: tx_map
  q_last_nonces :: "address \<Rightarrow> nat option"
  q_local :: local_list

definition queue_with_limits :: "strategy \<Rightarrow> nat \<Rightarrow> tx_queue" where
  "queue_with_limits st memory_limit =
     \<lparr>q_strategy = st, q_max_time_in_queue = DEFAULT_QUEUING_PERIOD, q_current = tx_set_new memory_limit,
      q_future = tx_set_new memory_limit, q_by_hash = [], q_last_nonces = (\<lambda>_. None),
      q_local = local_list_default\<rparr>"

definition queue_new :: "strategy \<Rightarrow> tx_queue" where
  "queue_new st = queue_with_limits st usize_max"

definition queue_status :: "tx_queue \<Rightarrow> nat \<times> nat" where
  "queue_status q = (length (ts_by_priority (q_current q)), length (ts_by_priority (q_future q)))"

text \<open>The assertion that the queue makes about its three indexes.\<close>

definition queue_sync :: "tx_queue \<Rightarrow> bool" where
  "queue_sync q \<longleftrightarrow> length (ts_by_priority (q_future q)) + length (ts_by_priority (q_current q)) = length (q_by_hash q)"

definition assert_sync :: "tx_queue \<Rightarrow> tx_queue option" where
  "assert_sync q = (if queue_sync q then Some q else None)"

definition row_nonces :: "tx_set \<Rightarrow> address \<Rightarrow> nat list" where
  "row_nonces S sender = (case table_row (ts_by_address S) sender of None \<Rightarrow> [] | Some m \<Rightarrow> map fst m)"

subsection \<open>The memory limit\<close>

text \<open>The walk from the lowest priority that collects what has to go.\<close>

fun pick_dropped :: "tx_map \<Rightarrow> nat \<Rightarrow> nat \<Rightarrow> tx_order list \<Rightarrow> (address \<times> nat) list option" where
  "pick_dropped by_hash limit usage [] = Some []"
| "pick_dropped by_hash limit usage (ord # ords) =
     (if is_local (to_origin ord) \<or> to_origin ord = RetractedBlock then pick_dropped by_hash limit usage ords
      else do {
        usage' \<leftarrow> usize_sub usage (to_memory_usage ord);
        tx \<leftarrow> map_of by_hash (to_hash ord);
        if usage' \<le> limit then Some [(vt_sender tx, vt_nonce tx)]
        else map_option (Cons (vt_sender tx, vt_nonce tx)) (pick_dropped by_hash limit usage' ords)
      })"

fun drop_picked :: "(address \<times> nat) list \<Rightarrow> tx_set \<Rightarrow> tx_map \<Rightarrow> local_list \<Rightarrow> (address \<times> nat) list \<Rightarrow>
    (tx_set \<times> tx_map \<times> local_list \<times> (address \<times> nat) list) option" where
  "drop_picked [] S by_hash loc removed = Some (S, by_hash, loc, removed)"
| "drop_picked ((sender, nonce) # rest) S by_hash loc removed = do {
     (S', dropped) \<leftarrow> set_drop sender nonce S;
     ord \<leftarrow> dropped;
     tx \<leftarrow> map_of by_hash (to_hash ord);
     loc' \<leftarrow> (if is_local (vt_origin tx) then mark_dropped (vt_hash tx) loc else Some loc);
     (let m = (case map_of removed sender of None \<Rightarrow> nonce | Some val \<Rightarrow> min val nonce)
      in drop_picked rest S' (AList.delete (to_hash ord) by_hash) loc' (AList.update sender m removed))
   }"

definition enforce_limit :: "tx_map \<Rightarrow> local_list \<Rightarrow> tx_set \<Rightarrow>
    (tx_set \<times> tx_map \<times> local_list \<times> (address \<times> nat) list) option" where
  "enforce_limit by_hash loc S =
     (if ts_memory_usage S \<le> ts_memory_limit S then Some (S, by_hash, loc, [])
      else do {
        to_drop \<leftarrow> pick_dropped by_hash (ts_memory_limit S) (ts_memory_usage S) (rev (ts_by_priority S));
        drop_picked to_drop S by_hash loc []
      })"

subsection \<open>Replacing\<close>

definition replace_orders :: "address \<Rightarrow> nat \<Rightarrow> tx_order \<Rightarrow> tx_order \<Rightarrow> tx_set \<Rightarrow> tx_map \<Rightarrow> local_list \<Rightarrow>
    (tx_set \<times> tx_map \<times> local_list \<times> bool) option" where
  "replace_orders addr nonce old ord S by_hash loc = do {
     min_required \<leftarrow> u256_add (to_gas_price old) (to_gas_price old div 2 ^ GAS_PRICE_BUMP_SHIFT);
     if min_required > to_gas_price ord then do {
       (S', _) \<leftarrow> set_insert addr nonce old S;
       tx \<leftarrow> map_of by_hash (to_hash ord);
       loc' \<leftarrow> (if is_local (vt_origin tx) then mark_replaced (to_hash ord) (to_hash old) (to_gas_price old) loc
                 else Some loc);
       Some (S', AList.delete (to_hash ord) by_hash, loc', False)
     } else do {
       tx \<leftarrow> map_of by_hash (to_hash old);
       loc' \<leftarrow> (if is_local (vt_origin tx) then mark_replaced (to_hash old) (to_hash ord) (to_gas_price ord) loc
                 else Some loc);
       Some (S, AList.delete (to_hash old) by_hash, loc', True)
     }
   }"

definition replace_transaction :: "(bytes \<Rightarrow> nat) \<Rightarrow> verified_transaction \<Rightarrow> nat \<Rightarrow> strategy \<Rightarrow> tx_set \<Rightarrow> tx_map \<Rightarrow>
    local_list \<Rightarrow> (tx_set \<times> tx_map \<times> local_list \<times> bool) option" where
  "replace_transaction heap_size tx base_nonce st S by_hash loc = do {
     ord \<leftarrow> for_transaction heap_size tx base_nonce st;
     if map_of by_hash (vt_hash tx) \<noteq> None then None
     else do {
       let by_hash' = AList.update (vt_hash tx) tx by_hash;
       (S', replaced) \<leftarrow> set_insert (vt_sender tx) (vt_nonce tx) ord S;
       (case replaced of
          Some old \<Rightarrow> replace_orders (vt_sender tx) (vt_nonce tx) old ord S' by_hash' loc
        | None \<Rightarrow> Some (S', by_hash', loc, True))
     }
   }"

definition check_too_cheap :: "bool \<Rightarrow> (tx_error, unit) outcome" where
  "check_too_cheap is_in = (if is_in then Ok () else Err TooCheapToReplace)"

definition check_if_removed :: "address \<Rightarrow> nat \<Rightarrow> (address \<times> nat) list \<Rightarrow> (tx_error, unit) outcome" where
  "check_if_removed sender nonce dropped =
     (case map_of dropped sender of
        Some m \<Rightarrow> if nonce \<ge> m then Err LimitReached else Ok ()
      | None \<Rightarrow> Ok ())"

subsection \<open>Moving between the sets\<close>

fun update_future_loop :: "address \<Rightarrow> nat \<Rightarrow> nat list \<Rightarrow> tx_queue \<Rightarrow> tx_queue option" where
  "update_future_loop sender current_nonce [] q = Some q"
| "update_future_loop sender current_nonce (k # ks) q = do {
     (future, dropped) \<leftarrow> set_drop sender k (q_future q);
     ord \<leftarrow> dropped;
     q' \<leftarrow> (if k \<ge> current_nonce then do {
               ord' \<leftarrow> update_height k current_nonce ord;
               (future', _) \<leftarrow> set_insert sender k ord' future;
               Some (q\<lparr>q_future := future'\<rparr>)
             } else do {
               _ \<leftarrow> map_of (q_by_hash q) (to_hash ord);
               Some (q\<lparr>q_future := future, q_by_hash := AList.delete (to_hash ord) (q_by_hash q)\<rparr>)
             });
     update_future_loop sender current_nonce ks q'
   }"

definition update_future :: "address \<Rightarrow> nat \<Rightarrow> tx_queue \<Rightarrow> tx_queue option" where
  "update_future sender current_nonce q =
     update_future_loop sender current_nonce (row_nonces (q_future q) sender) q"

fun move_all_loop :: "address \<Rightarrow> nat \<Rightarrow> nat list \<Rightarrow> tx_queue \<Rightarrow> tx_queue option" where
  "move_all_loop sender current_nonce [] q = Some q"
| "move_all_loop sender current_nonce (k # ks) q = do {
     (current, dropped) \<leftarrow> set_drop sender k (q_current q);
     ord \<leftarrow> dropped;
     q' \<leftarrow> (if k \<ge> current_nonce then do {
               ord' \<leftarrow> update_height k current_nonce ord;
               let loc = (if is_local (to_origin ord') then mark_future (to_hash ord') (q_local q) else q_local q);
               (future, replaced) \<leftarrow> set_insert sender k ord' (q_future q);
               (case replaced of
                  Some old \<Rightarrow> do {
                    (future', by_hash', loc', _) \<leftarrow> replace_orders sender k old ord' future (q_by_hash q) loc;
                    Some (q\<lparr>q_current := current, q_future := future', q_by_hash := by_hash', q_local := loc'\<rparr>)
                  }
                | None \<Rightarrow> Some (q\<lparr>q_current := current, q_future := future, q_local := loc\<rparr>))
             } else do {
               tx \<leftarrow> map_of (q_by_hash q) (to_hash ord);
               loc \<leftarrow> (if is_local (vt_origin tx) then mark_mined (vt_hash tx) (q_local q) else Some (q_local q));
               Some (q\<lparr>q_current := current, q_by_hash := AList.delete (to_hash ord) (q_by_hash q), q_local := loc\<rparr>)
             });
     move_all_loop sender current_nonce ks q'
   }"

definition move_all_to_future :: "address \<Rightarrow> nat \<Rightarrow> tx_queue \<Rightarrow> tx_queue option" where
  "move_all_to_future sender current_nonce q = do {
     q' \<leftarrow> move_all_loop sender current_nonce (row_nonces (q_current q) sender) q;
     (future, by_hash, loc, _) \<leftarrow> enforce_limit (q_by_hash q') (q_local q') (q_future q');
     Some (q'\<lparr>q_future := future, q_by_hash := by_hash, q_local := loc\<rparr>)
   }"

text \<open>
  The loop that promotes consecutive nonces. It ends because a \<^verbatim>\<open>U256\<close> nonce cannot grow past its
  maximum; the results of the two removals are ignored, as in the code.
\<close>

definition take_future :: "address \<Rightarrow> nat \<Rightarrow> tx_set \<Rightarrow> (tx_set \<times> tx_order option) option" where
  "take_future addr nonce S =
     (case table_row_remove addr nonce (ts_by_address S) of (by_address, taken) \<Rightarrow>
      case taken of
        None \<Rightarrow> Some (S\<lparr>ts_by_address := by_address\<rparr>, None)
      | Some ord \<Rightarrow> do {
          usage \<leftarrow> usize_sub (ts_memory_usage S) (to_memory_usage ord);
          Some (S\<lparr>ts_by_address := by_address,
                  ts_by_priority := fst (btree_remove order_cmp ord (ts_by_priority S)),
                  ts_by_gas_price := fst (gp_remove (to_gas_price ord) (to_hash ord) (ts_by_gas_price S)),
                  ts_memory_usage := usage\<rparr>, Some ord)
        })"

definition promote :: "address \<Rightarrow> nat \<Rightarrow> nat \<Rightarrow> tx_order \<Rightarrow> tx_queue \<Rightarrow> tx_queue option" where
  "promote addr current_nonce first_nonce ord q = do {
     ord' \<leftarrow> update_height current_nonce first_nonce ord;
     let loc = (if is_local (to_origin ord') then mark_pending (to_hash ord') (q_local q) else q_local q);
     (current, replaced) \<leftarrow> set_insert addr current_nonce ord' (q_current q);
     (case replaced of
        Some old \<Rightarrow> do {
          (current', by_hash', loc', _) \<leftarrow> replace_orders addr current_nonce old ord' current (q_by_hash q) loc;
          Some (q\<lparr>q_current := current', q_by_hash := by_hash', q_local := loc'\<rparr>)
        }
      | None \<Rightarrow> Some (q\<lparr>q_current := current, q_local := loc\<rparr>))
   }"

function move_matching_loop :: "address \<Rightarrow> nat \<Rightarrow> nat \<Rightarrow> nat option \<Rightarrow> tx_queue \<Rightarrow> (nat option \<times> tx_queue) option" where
  "move_matching_loop addr current_nonce first_nonce update_to q = do {
     (future, taken) \<leftarrow> take_future addr current_nonce (q_future q);
     (case taken of
        None \<Rightarrow> Some (update_to, q\<lparr>q_future := future\<rparr>)
      | Some ord \<Rightarrow> do {
          q' \<leftarrow> promote addr current_nonce first_nonce ord (q\<lparr>q_future := future\<rparr>);
          next_nonce \<leftarrow> u256_add current_nonce 1;
          move_matching_loop addr next_nonce first_nonce (Some current_nonce) q'
        })
   }"
  by auto
termination
  by (relation "measure (\<lambda>(_, n, _, _, _). 2 ^ 256 - n)") (auto simp: u256_add_def split: if_splits)

declare move_matching_loop.simps [simp del]

definition move_matching_future_to_current :: "address \<Rightarrow> nat \<Rightarrow> nat \<Rightarrow> tx_queue \<Rightarrow> tx_queue option" where
  "move_matching_future_to_current addr current_nonce first_nonce q =
     (if \<not> table_has_row (ts_by_address (q_future q)) addr then Some q
      else do {
        (update_to, q1) \<leftarrow> move_matching_loop addr current_nonce first_nonce None q;
        let future = (q_future q1)\<lparr>ts_by_address := table_clear_if_empty addr (ts_by_address (q_future q1))\<rparr>;
        let q2 = q1\<lparr>q_future := future\<rparr>;
        Some (case update_to of
            None \<Rightarrow> q2
          | Some x \<Rightarrow> q2\<lparr>q_last_nonces := (q_last_nonces q2)(addr \<mapsto> x)\<rparr>)
      })"

subsection \<open>Importing\<close>

fun mark_local_loop :: "address \<Rightarrow> (bytes \<Rightarrow> local_list \<Rightarrow> local_list) \<Rightarrow> nat list \<Rightarrow> tx_set \<Rightarrow> local_list \<Rightarrow>
    (tx_set \<times> local_list) option" where
  "mark_local_loop sender mark [] S loc = Some (S, loc)"
| "mark_local_loop sender mark (k # ks) S loc = do {
     (S1, dropped) \<leftarrow> set_drop sender k S;
     ord \<leftarrow> dropped;
     (S2, _) \<leftarrow> set_insert sender k (ord\<lparr>to_origin := Local\<rparr>) S1;
     mark_local_loop sender mark ks S2 (mark (to_hash ord) loc)
   }"

definition mark_local :: "address \<Rightarrow> (bytes \<Rightarrow> local_list \<Rightarrow> local_list) \<Rightarrow> tx_set \<Rightarrow> local_list \<Rightarrow>
    (tx_set \<times> local_list) option" where
  "mark_local sender mark S loc =
     mark_local_loop sender mark
       (case table_row (ts_by_address S) sender of
          None \<Rightarrow> []
        | Some m \<Rightarrow> map fst (filter (\<lambda>(nonce, ord). \<not> is_local (to_origin ord)) m))
       S loc"

definition mark_transactions_local :: "address \<Rightarrow> tx_queue \<Rightarrow> tx_queue option" where
  "mark_transactions_local sender q = do {
     (current, loc) \<leftarrow> mark_local sender mark_pending (q_current q) (q_local q);
     (future, loc') \<leftarrow> mark_local sender mark_future (q_future q) loc;
     Some (q\<lparr>q_current := current, q_future := future, q_local := loc'\<rparr>)
   }"

definition update_last_nonces :: "(address \<times> nat) list \<Rightarrow> (address \<Rightarrow> nat option) \<Rightarrow> address \<Rightarrow> nat option" where
  "update_last_nonces min_nonces last_nonces =
     fold (\<lambda>(sender, nonce) m. if nonce = 0 then m(sender := None) else m(sender \<mapsto> nonce - 1)) min_nonces last_nonces"

text \<open>The two ends of an import: into the waiting set, and into the current one.\<close>

definition import_future :: "(bytes \<Rightarrow> nat) \<Rightarrow> verified_transaction \<Rightarrow> nat \<Rightarrow> tx_queue \<Rightarrow>
    (tx_queue \<times> (tx_error, import_result) outcome) option" where
  "import_future heap_size tx state_nonce q = do {
     (future, by_hash, loc, is_in) \<leftarrow>
       replace_transaction heap_size tx state_nonce (q_strategy q) (q_future q) (q_by_hash q) (q_local q);
     let q1 = q\<lparr>q_future := future, q_by_hash := by_hash, q_local := loc\<rparr>;
     (case check_too_cheap is_in of
        Ok _ \<Rightarrow> do {
          (future', by_hash', loc', removed) \<leftarrow> enforce_limit (q_by_hash q1) (q_local q1) (q_future q1);
          let q2 = q1\<lparr>q_future := future', q_by_hash := by_hash', q_local := loc'\<rparr>;
          Some (q2, try_ok (check_if_removed (vt_sender tx) (vt_nonce tx) removed) (\<lambda>_. Ok ImportFuture))
        }
      | Err e \<Rightarrow> Some (q1, Err e)
      | Panic \<Rightarrow> None)
   }"

definition place_current :: "(bytes \<Rightarrow> nat) \<Rightarrow> verified_transaction \<Rightarrow> nat \<Rightarrow> tx_queue \<Rightarrow>
    (tx_queue \<times> (tx_error, import_result) outcome) option" where
  "place_current heap_size tx state_nonce q = do {
     (current, by_hash, loc, is_in) \<leftarrow>
       replace_transaction heap_size tx state_nonce (q_strategy q) (q_current q) (q_by_hash q) (q_local q);
     let q1 = q\<lparr>q_current := current, q_by_hash := by_hash, q_local := loc\<rparr>;
     (case check_too_cheap is_in of
        Ok _ \<Rightarrow> do {
          let new_max = (case q_last_nonces q1 (vt_sender tx) of None \<Rightarrow> vt_nonce tx | Some n \<Rightarrow> max (vt_nonce tx) n);
          let last_nonces = (q_last_nonces q1)(vt_sender tx \<mapsto> new_max);
          (current', by_hash', loc', removed) \<leftarrow> enforce_limit (q_by_hash q1) (q_local q1) (q_current q1);
          let q2 = q1\<lparr>q_current := current', q_by_hash := by_hash', q_local := loc',
                       q_last_nonces := update_last_nonces removed last_nonces\<rparr>;
          Some (q2, try_ok (check_if_removed (vt_sender tx) (vt_nonce tx) removed) (\<lambda>_. Ok ImportCurrent))
        }
      | Err e \<Rightarrow> Some (q1, Err e)
      | Panic \<Rightarrow> None)
   }"

definition import_current :: "(bytes \<Rightarrow> nat) \<Rightarrow> verified_transaction \<Rightarrow> nat \<Rightarrow> tx_queue \<Rightarrow>
    (tx_queue \<times> (tx_error, import_result) outcome) option" where
  "import_current heap_size tx state_nonce q = do {
     q1 \<leftarrow> move_matching_future_to_current (vt_sender tx) (vt_nonce tx) state_nonce q;
     following \<leftarrow> u256_add (vt_nonce tx) 1;
     q2 \<leftarrow> move_matching_future_to_current (vt_sender tx) following state_nonce q1;
     place_current heap_size tx state_nonce q2
   }"

definition import_tx :: "(bytes \<Rightarrow> nat) \<Rightarrow> verified_transaction \<Rightarrow> nat \<Rightarrow> tx_queue \<Rightarrow>
    (tx_queue \<times> (tx_error, import_result) outcome) option" where
  "import_tx heap_size tx state_nonce q =
     (if map_of (q_by_hash q) (vt_hash tx) \<noteq> None then Some (q, Err AlreadyImported)
      else if vt_nonce tx < state_nonce then Some (q, Err Old)
      else do {
        q1 \<leftarrow> update_future (vt_sender tx) state_nonce q;
        q2 \<leftarrow> move_matching_future_to_current (vt_sender tx) state_nonce state_nonce q1;
        next_nonce \<leftarrow> (case q_last_nonces q2 (vt_sender tx) of None \<Rightarrow> Some state_nonce | Some n \<Rightarrow> u256_add n 1);
        q3 \<leftarrow> (if is_local (vt_origin tx) then mark_transactions_local (vt_sender tx) q2 else Some q2);
        if vt_nonce tx > next_nonce then import_future heap_size tx state_nonce q3
        else import_current heap_size tx state_nonce q3
      })"

definition add_internal :: "(bytes \<Rightarrow> nat) \<Rightarrow> (address \<Rightarrow> account_details) \<Rightarrow> verified_transaction \<Rightarrow> tx_queue \<Rightarrow>
    (tx_queue \<times> (tx_error, import_result) outcome) option" where
  "add_internal heap_size fetch_account tx q = do {
     (q', result) \<leftarrow> import_tx heap_size tx (ad_nonce (fetch_account (vt_sender tx))) q;
     q'' \<leftarrow> assert_sync q';
     Some (q'', result)
   }"

definition queue_add :: "(bytes \<Rightarrow> nat) \<Rightarrow> (address \<Rightarrow> account_details) \<Rightarrow> verified_transaction \<Rightarrow> tx_queue \<Rightarrow>
    (tx_queue \<times> (tx_error, import_result) outcome) option" where
  "queue_add heap_size fetch_account tx q =
     (if vt_origin tx = Local then do {
        (q', result) \<leftarrow> add_internal heap_size fetch_account tx q;
        loc \<leftarrow> (case result of
            Ok ImportCurrent \<Rightarrow> Some (mark_pending (vt_hash tx) (q_local q'))
          | Ok ImportFuture \<Rightarrow> Some (mark_future (vt_hash tx) (q_local q'))
          | Err e \<Rightarrow> if \<not> local_contains (vt_hash tx) (q_local q') then mark_rejected (vt_hash tx) e (q_local q')
                     else Some (q_local q')
          | Panic \<Rightarrow> None);
        Some (q'\<lparr>q_local := loc\<rparr>, result)
      } else add_internal heap_size fetch_account tx q)"

subsection \<open>Culling, removing, penalising\<close>

definition cull_internal :: "address \<Rightarrow> nat \<Rightarrow> tx_queue \<Rightarrow> tx_queue option" where
  "cull_internal sender client_nonce q = do {
     q1 \<leftarrow> update_future sender client_nonce (q\<lparr>q_last_nonces := (q_last_nonces q)(sender := None)\<rparr>);
     q2 \<leftarrow> move_all_to_future sender client_nonce q1;
     q3 \<leftarrow> move_matching_future_to_current sender client_nonce client_nonce q2;
     assert_sync q3
   }"

definition queue_cull :: "address \<Rightarrow> nat \<Rightarrow> tx_queue \<Rightarrow> tx_queue option" where
  "queue_cull sender client_nonce q =
     (let in_current = List.find (\<lambda>nonce. nonce < client_nonce) (row_nonces (q_current q) sender);
          in_future = List.find (\<lambda>nonce. nonce \<le> client_nonce) (row_nonces (q_future q) sender)
      in if in_current = None \<and> in_future = None then Some q else cull_internal sender client_nonce q)"

definition mark_removed :: "bytes \<Rightarrow> removal_reason \<Rightarrow> local_list \<Rightarrow> local_list option" where
  "mark_removed hash reason loc =
     (if local_contains hash loc then
        (case reason of
           RemInvalid \<Rightarrow> mark_invalid hash loc
         | RemNotAllowed \<Rightarrow> mark_invalid hash loc
         | RemCanceled \<Rightarrow> mark_canceled hash loc
         | RemInvalidBeaconHash _ \<Rightarrow> mark_invalid hash loc)
      else Some loc)"

definition queue_remove :: "(address \<Rightarrow> account_details) \<Rightarrow> removal_reason \<Rightarrow> bytes \<Rightarrow> tx_queue \<Rightarrow> tx_queue option" where
  "queue_remove fetch_account reason hash q = do {
     q0 \<leftarrow> assert_sync q;
     (case map_of (q_by_hash q0) hash of
        None \<Rightarrow> Some q0
      | Some tx \<Rightarrow> do {
          let sender = vt_sender tx;
          let nonce = vt_nonce tx;
          let current_nonce = ad_nonce (fetch_account sender);
          loc \<leftarrow> mark_removed hash reason (q_local q0);
          let q1 = q0\<lparr>q_by_hash := AList.delete hash (q_by_hash q0), q_local := loc\<rparr>;
          (future, in_future) \<leftarrow> set_drop sender nonce (q_future q1);
          let q2 = q1\<lparr>q_future := future\<rparr>;
          if in_future \<noteq> None then do {
            q3 \<leftarrow> update_future sender current_nonce q2;
            q4 \<leftarrow> move_matching_future_to_current sender current_nonce current_nonce q3;
            assert_sync q4
          } else do {
            (current, in_current) \<leftarrow> set_drop sender nonce (q_current q2);
            let q3 = q2\<lparr>q_current := current\<rparr>;
            if in_current \<noteq> None then do {
              q4 \<leftarrow> cull_internal sender current_nonce q3;
              assert_sync q4
            } else Some q3
          }
        })
   }"

fun penalize_loop :: "address \<Rightarrow> nat list \<Rightarrow> tx_set \<Rightarrow> tx_set option" where
  "penalize_loop sender [] S = Some S"
| "penalize_loop sender (k # ks) S = do {
     (S1, dropped) \<leftarrow> set_drop sender k S;
     ord \<leftarrow> dropped;
     (S2, _) \<leftarrow> set_insert sender k (penalize_order ord) S1;
     penalize_loop sender ks S2
   }"

definition queue_penalize :: "bytes \<Rightarrow> tx_queue \<Rightarrow> tx_queue option" where
  "queue_penalize hash q =
     (case map_of (q_by_hash q) hash of
        None \<Rightarrow> Some q
      | Some tx \<Rightarrow>
          if is_local (vt_origin tx) then Some q
          else do {
            current \<leftarrow> penalize_loop (vt_sender tx) (row_nonces (q_current q) (vt_sender tx)) (q_current q);
            future \<leftarrow> penalize_loop (vt_sender tx) (row_nonces (q_future q) (vt_sender tx)) (q_future q);
            Some (q\<lparr>q_current := current, q_future := future\<rparr>)
          })"

fun fold_queue :: "('a \<Rightarrow> tx_queue \<Rightarrow> tx_queue option) \<Rightarrow> 'a list \<Rightarrow> tx_queue \<Rightarrow> tx_queue option" where
  "fold_queue f [] q = Some q"
| "fold_queue f (x # xs) q = f x q \<bind> fold_queue f xs"

text \<open>The hashes that have been waiting too long, or too long for their sender's balance.\<close>

fun expired :: "(address \<times> account_details) list \<Rightarrow> nat \<Rightarrow> nat \<Rightarrow> tx_map \<Rightarrow> bytes list option" where
  "expired senders max_time current_time [] = Some []"
| "expired senders max_time current_time ((hash, tx) # rest) = do {
     let time_diff = current_time - vt_insertion_time tx;
     hit \<leftarrow> (if is_local (vt_origin tx) then Some False
              else if time_diff > max_time then Some True
              else if time_diff > max_time div 2 ^ 3 then
                (case map_of senders (vt_sender tx) of
                   Some details \<Rightarrow> map_option (\<lambda>cost. cost > ad_balance details) (vt_cost tx)
                 | None \<Rightarrow> Some False)
              else Some False);
     hashes \<leftarrow> expired senders max_time current_time rest;
     Some (if hit then hash # hashes else hashes)
   }"

definition queue_senders :: "(address \<Rightarrow> account_details) \<Rightarrow> tx_queue \<Rightarrow> (address \<times> account_details) list" where
  "queue_senders fetch_account q =
     fold (\<lambda>sender m. AList.update sender (fetch_account sender) m)
       (table_keys (ts_by_address (q_current q)) @ table_keys (ts_by_address (q_future q))) []"

definition queue_remove_old :: "(address \<Rightarrow> account_details) \<Rightarrow> nat \<Rightarrow> tx_queue \<Rightarrow> tx_queue option" where
  "queue_remove_old fetch_account current_time q = do {
     let senders = queue_senders fetch_account q;
     q1 \<leftarrow> fold_queue (\<lambda>(sender, details). queue_cull sender (ad_nonce details)) senders q;
     invalid \<leftarrow> expired senders (q_max_time_in_queue q1) current_time (q_by_hash q1);
     fold_queue (queue_remove fetch_account RemInvalid) invalid q1
   }"

definition queue_clear :: "tx_queue \<Rightarrow> tx_queue" where
  "queue_clear q =
     q\<lparr>q_current := set_clear (q_current q), q_future := set_clear (q_future q), q_by_hash := [],
       q_last_nonces := (\<lambda>_. None)\<rparr>"

subsection \<open>Listing\<close>

definition delayed_until :: "nat \<Rightarrow> nat \<Rightarrow> verified_transaction \<Rightarrow> bool" where
  "delayed_until best_block best_timestamp tx =
     (case vt_condition tx of
        Some (Number n) \<Rightarrow> n > best_block
      | Some (Timestamp t) \<Rightarrow> t > best_timestamp
      | None \<Rightarrow> False)"

fun filter_pending :: "nat \<Rightarrow> nat \<Rightarrow> tx_map \<Rightarrow> address list \<Rightarrow> tx_order list \<Rightarrow> verified_transaction list option" where
  "filter_pending best_block best_timestamp by_hash delayed [] = Some []"
| "filter_pending best_block best_timestamp by_hash delayed (t # ts) = do {
     tx \<leftarrow> map_of by_hash (to_hash t);
     if vt_sender tx \<in> set delayed then filter_pending best_block best_timestamp by_hash delayed ts
     else if delayed_until best_block best_timestamp tx
       then filter_pending best_block best_timestamp by_hash (vt_sender tx # delayed) ts
     else map_option (Cons tx) (filter_pending best_block best_timestamp by_hash delayed ts)
   }"

definition filter_pending_transaction :: "nat \<Rightarrow> nat \<Rightarrow> tx_queue \<Rightarrow> verified_transaction list option" where
  "filter_pending_transaction best_block best_timestamp q =
     filter_pending best_block best_timestamp (q_by_hash q) [] (ts_by_priority (q_current q))"

definition top_transactions_at :: "nat \<Rightarrow> nat \<Rightarrow> tx_queue \<Rightarrow> signed_transaction list option" where
  "top_transactions_at best_block best_timestamp q =
     map_option (map vt_transaction) (filter_pending_transaction best_block best_timestamp q)"

definition top_transactions :: "tx_queue \<Rightarrow> signed_transaction list option" where
  "top_transactions q = top_transactions_at (2 ^ 64 - 1) (2 ^ 64 - 1) q"

definition pending_of :: "verified_transaction \<Rightarrow> pending_transaction" where
  "pending_of tx = \<lparr>pt_transaction = vt_transaction tx, pt_condition = vt_condition tx\<rparr>"

definition pending_transactions :: "nat \<Rightarrow> nat \<Rightarrow> tx_queue \<Rightarrow> pending_transaction list option" where
  "pending_transactions best_block best_timestamp q =
     map_option (map pending_of) (filter_pending_transaction best_block best_timestamp q)"

definition future_transactions :: "tx_queue \<Rightarrow> pending_transaction list option" where
  "future_transactions q =
     map_option (map pending_of)
       (those (map (\<lambda>t. map_of (q_by_hash q) (to_hash t)) (ts_by_priority (q_future q))))"

definition pending_hashes :: "tx_queue \<Rightarrow> bytes list" where
  "pending_hashes q = map to_hash (ts_by_priority (q_current q))"

definition has_local_pending_transactions :: "tx_queue \<Rightarrow> bool" where
  "has_local_pending_transactions q = list_ex (\<lambda>t. to_origin t = Local) (ts_by_priority (q_current q))"

definition queue_find :: "bytes \<Rightarrow> tx_queue \<Rightarrow> pending_transaction option" where
  "queue_find hash q = map_option pending_of (map_of (q_by_hash q) hash)"

definition last_nonce :: "address \<Rightarrow> tx_queue \<Rightarrow> nat option" where
  "last_nonce addr q = q_last_nonces q addr"

end
