(* ===== verification/Queue_Safety.thy ===== *)
theory Queue_Safety
  imports Transaction_Queue
begin

text \<open>
  What keeps the transaction queue together, and why none of its assertions fails.

  \<^item> \<open>consistent\<close> relates the hash index to the two sets. Every operation is a sequence of small moves,
    and between two of them an order may be in neither set: \<open>F\<close> holds the orders in flight. The
    four moves (taking an order out of a set, putting one in, forgetting one, a new one arriving)
    keep the relation, and the operations are compositions of them. \<open>W\<close> bounds the memory of all
    orders; only an arrival raises it.
  \<^item> \<open>nonces_apart\<close> says that for every sender all waiting nonces lie above the current ones.
\<close>

subsection \<open>Orders and their transactions\<close>

type_synonym flight = "(address \<times> nat \<times> tx_order) multiset"

definition tx_bounded :: "verified_transaction \<Rightarrow> bool" where
  "tx_bounded tx \<longleftrightarrow> vt_nonce tx < 2 ^ 128 \<and> vt_gas_price tx < 2 ^ 128 \<and> vt_gas_limit tx < 2 ^ 64 \<and>
     t_value (ut_unsigned (st_transaction (vt_transaction tx))) < 2 ^ 128"

definition backed :: "strategy \<Rightarrow> tx_map \<Rightarrow> address \<Rightarrow> nat \<Rightarrow> tx_order \<Rightarrow> bool" where
  "backed st by_hash s n x \<longleftrightarrow> to_strategy x = st \<and>
     (\<exists>tx. map_of by_hash (to_hash x) = Some tx \<and> vt_sender tx = s \<and> vt_nonce tx = n \<and>
        to_gas_price x = vt_gas_price tx \<and> tx_bounded tx)"

definition consistent :: "strategy \<Rightarrow> nat \<Rightarrow> tx_map \<Rightarrow> tx_set \<Rightarrow> tx_set \<Rightarrow> flight \<Rightarrow> bool" where
  "consistent st W by_hash S T F \<longleftrightarrow>
     set_ok st S \<and> set_ok st T \<and> distinct (map fst by_hash) \<and>
     mset (map fst by_hash) = image_mset to_hash (set_bag S + set_bag T + image_mset (\<lambda>(s, n, x). x) F) \<and>
     (\<forall>s n x. cells S s n = Some x \<or> cells T s n = Some x \<or> (s, n, x) \<in># F \<longrightarrow> backed st by_hash s n x) \<and>
     ts_memory_usage S + ts_memory_usage T + (\<Sum>(s, n, x) \<in># F. to_memory_usage x) \<le> W \<and> W \<le> usize_max"

text \<open>Two orders of the same transaction, which may differ in height, penalties and origin.\<close>

definition same_tx :: "tx_order \<Rightarrow> tx_order \<Rightarrow> bool" where
  "same_tx x y \<longleftrightarrow> to_hash x = to_hash y \<and> to_gas_price x = to_gas_price y \<and>
     to_memory_usage x = to_memory_usage y \<and> to_strategy x = to_strategy y"

lemma same_tx_refl [simp]: "same_tx x x"
  by (simp add: same_tx_def)

lemma consistentD:
  assumes "consistent st W by_hash S T F"
  shows "set_ok st S" "set_ok st T" "distinct (map fst by_hash)"
    "mset (map fst by_hash) = image_mset to_hash (set_bag S + set_bag T + image_mset (\<lambda>(s, n, x). x) F)"
    "ts_memory_usage S + ts_memory_usage T + (\<Sum>(s, n, x) \<in># F. to_memory_usage x) \<le> W" "W \<le> usize_max"
  using assms unfolding consistent_def by blast+

lemma consistent_backed:
  assumes "consistent st W by_hash S T F"
  shows "cells S s n = Some x \<Longrightarrow> backed st by_hash s n x" "cells T s n = Some x \<Longrightarrow> backed st by_hash s n x"
    "(s, n, x) \<in># F \<Longrightarrow> backed st by_hash s n x"
  using assms unfolding consistent_def by blast+

lemma consistent_sym: "consistent st W by_hash S T F \<Longrightarrow> consistent st W by_hash T S F"
  unfolding consistent_def by (auto simp: ac_simps)

lemma usage_bag: "set_ok st S \<Longrightarrow> ts_memory_usage S = (\<Sum>x \<in># set_bag S. to_memory_usage x)"
  using set_okD(8) [of st S] by (simp add: set_bag_def sum_mset_sum_list [symmetric])

lemma take_entry_usage:
  "set_ok st S \<Longrightarrow> set_ok st S' \<Longrightarrow> take_entry (Some x) (set_bag S) (set_bag S') \<Longrightarrow>
    ts_memory_usage S = to_memory_usage x + ts_memory_usage S'"
  by (simp add: usage_bag take_entry_def)

subsection \<open>The four moves\<close>

definition one_cell :: "tx_set \<Rightarrow> tx_set \<Rightarrow> address \<Rightarrow> nat \<Rightarrow> tx_order option \<Rightarrow> bool" where
  "one_cell S S' s n v \<longleftrightarrow> ts_memory_limit S' = ts_memory_limit S \<and>
     (\<forall>r c. cells S' r c = (if r = s \<and> c = n then v else cells S r c))"

lemma consistent_take:
  assumes "consistent st W by_hash S T F" and "cells S s n = Some x"
    and "set_ok st S'" and "one_cell S S' s n None" and "take_entry (Some x) (set_bag S) (set_bag S')"
  shows "consistent st W by_hash S' T (add_mset (s, n, x) F)"
proof -
  note C = consistentD [OF assms(1)]
  have "set_bag S = add_mset x (set_bag S')" using assms(5) by (simp add: take_entry_def)
  moreover have "ts_memory_usage S = to_memory_usage x + ts_memory_usage S'"
    using take_entry_usage [OF C(1) assms(3,5)] .
  ultimately show ?thesis
    unfolding consistent_def using C assms(2-4) consistent_backed [OF assms(1)]
    by (auto simp: one_cell_def split: if_splits)
qed

lemma drop_move:
  assumes "consistent st W by_hash S T F" and "cells S s n = Some x"
  shows "\<exists>S'. set_drop s n S = Some (S', Some x) \<and> consistent st W by_hash S' T (add_mset (s, n, x) F) \<and>
    one_cell S S' s n None"
  using txs.take_ok [OF consistentD(1) [OF assms(1)], of s n] assms
    consistent_take [OF assms] by (fastforce simp: one_cell_def)

lemma drop_none:
  assumes "consistent st W by_hash S T F" and "cells S s n = None"
  shows "\<exists>S'. set_drop s n S = Some (S', None) \<and> consistent st W by_hash S' T F \<and> one_cell S S' s n None"
proof -
  obtain S' where S': "set_drop s n S = Some (S', None)" "set_ok st S'" "one_cell S S' s n None"
      "set_bag S' = set_bag S"
    using txs.take_ok [OF consistentD(1) [OF assms(1)], of s n] assms(2)
    by (auto simp: one_cell_def take_entry_def)
  moreover have "ts_memory_usage S' = ts_memory_usage S"
    using usage_bag [OF S'(2)] usage_bag [OF consistentD(1) [OF assms(1)]] S'(4) by simp
  ultimately have "consistent st W by_hash S' T F"
    using assms unfolding consistent_def one_cell_def by (auto split: if_splits)
  then show ?thesis using S' by blast
qed

lemma flight_free:
  assumes "consistent st W by_hash S T (add_mset (s, n, x) F)" and "same_tx x' x"
  shows "set_free st S x'"
proof -
  note C = consistentD [OF assms(1)]
  have "to_strategy x = st" using consistent_backed(3) [OF assms(1), of s n x] by (simp add: backed_def)
  moreover have "to_hash x \<notin># image_mset to_hash (set_bag S)"
  proof
    assume "to_hash x \<in># image_mset to_hash (set_bag S)"
    then have "0 < count (image_mset to_hash (set_bag S)) (to_hash x)" by (simp only: count_greater_zero_iff)
    moreover have "count (mset (map fst by_hash)) (to_hash x) = Suc (count (image_mset to_hash (set_bag S)) (to_hash x) +
        count (image_mset to_hash (set_bag T)) (to_hash x) +
        count (image_mset to_hash (image_mset (\<lambda>(s, n, x). x) F)) (to_hash x))" unfolding C(4) by simp
    moreover have "count (mset (map fst by_hash)) (to_hash x) \<le> 1"
      using C(3) by (simp add: distinct_count_atmost_1)
    ultimately show False by linarith
  qed
  ultimately show ?thesis using assms(2) C(5,6) by (auto simp: set_free_def same_tx_def set_bag_def)
qed

lemma put_move:
  assumes "consistent st W by_hash S T (add_mset (s, n, x) F)" and "same_tx x' x"
  shows "\<exists>S'. set_insert s n x' S = Some (S', cells S s n) \<and> one_cell S S' s n (Some x') \<and>
    consistent st W by_hash S' T (case cells S s n of None \<Rightarrow> F | Some y \<Rightarrow> add_mset (s, n, y) F)"
proof -
  note C = consistentD [OF assms(1)]
  obtain S' where S': "set_insert s n x' S = Some (S', cells S s n)" "set_ok st S'" "one_cell S S' s n (Some x')"
      "put_entry (cells S s n) x' (set_bag S) (set_bag S')"
    using txs.put_ok [OF C(1) flight_free [OF assms], of s n] by (auto simp: one_cell_def)
  note u = usage_bag [OF S'(2)] usage_bag [OF C(1)]
  have "backed st by_hash s n x'"
    using consistent_backed(3) [OF assms(1), of s n x] assms(2) by (simp add: backed_def same_tx_def)
  moreover have "consistent st W by_hash S' T (case cells S s n of None \<Rightarrow> F | Some y \<Rightarrow> add_mset (s, n, y) F)"
  proof (cases "cells S s n")
    case None
    then have "set_bag S' = add_mset x' (set_bag S)" using S'(4) by (simp add: put_entry_def)
    then show ?thesis
      unfolding consistent_def using C S'(2,3) None u calculation consistent_backed [OF assms(1)] assms(2)
      by (auto simp: one_cell_def same_tx_def split: if_splits)
  next
    case (Some y)
    then obtain X where "set_bag S = add_mset y X" "set_bag S' = add_mset x' X"
      using S'(4) by (auto simp: put_entry_def)
    then show ?thesis
      unfolding consistent_def using C S'(2,3) Some u calculation consistent_backed [OF assms(1)] assms(2)
      by (auto simp: one_cell_def same_tx_def split: if_splits)
  qed
  ultimately show ?thesis using S' by blast
qed

lemma flight_hash:
  assumes "consistent st W by_hash S T (add_mset (s, n, x) F)"
  shows "cells S r c = Some y \<Longrightarrow> to_hash y \<noteq> to_hash x" "cells T r c = Some y \<Longrightarrow> to_hash y \<noteq> to_hash x"
    "(r, c, y) \<in># F \<Longrightarrow> to_hash y \<noteq> to_hash x"
proof -
  note C = consistentD [OF assms]
  show "to_hash y \<noteq> to_hash x" if "cells S r c = Some y"
    using flight_free [OF assms same_tx_refl] priority_cell [OF C(1), of y] that
    by (metis image_eqI set_free_def)
  show "to_hash y \<noteq> to_hash x" if "cells T r c = Some y"
    using flight_free [OF consistent_sym [OF assms] same_tx_refl] priority_cell [OF C(2), of y] that
    by (metis image_eqI set_free_def)
  show "to_hash y \<noteq> to_hash x" if F: "(r, c, y) \<in># F"
  proof
    assume eq: "to_hash y = to_hash x"
    obtain G where "F = add_mset (r, c, y) G" using F by (metis multi_member_split)
    then have "count (mset (map fst by_hash)) (to_hash x) \<ge> 2" unfolding C(4) using eq by simp
    moreover have "count (mset (map fst by_hash)) (to_hash x) \<le> 1" using C(3) by (simp add: distinct_count_atmost_1)
    ultimately show False by linarith
  qed
qed

lemma forget_move:
  assumes "consistent st W by_hash S T (add_mset (s, n, x) F)"
  shows "\<exists>tx. map_of by_hash (to_hash x) = Some tx \<and> vt_sender tx = s \<and> vt_nonce tx = n \<and>
    consistent st W (AList.delete (to_hash x) by_hash) S T F"
proof -
  note C = consistentD [OF assms]
  obtain tx where tx: "map_of by_hash (to_hash x) = Some tx" "vt_sender tx = s" "vt_nonce tx = n"
    using consistent_backed(3) [OF assms, of s n x] by (auto simp: backed_def)
  obtain X where "mset by_hash = add_mset (to_hash x, tx) X" "mset (AList.delete (to_hash x) by_hash) = X"
    using alist_Some [OF C(3) tx(1)] by blast
  then have keys: "mset (map fst by_hash) = add_mset (to_hash x) (mset (map fst (AList.delete (to_hash x) by_hash)))"
    by simp
  have keep: "backed st (AList.delete (to_hash x) by_hash) r c y"
    if "backed st by_hash r c y" "to_hash y \<noteq> to_hash x" for r c y
    using that by (simp add: backed_def delete_conv')
  have "consistent st W (AList.delete (to_hash x) by_hash) S T F"
    unfolding consistent_def
  proof (intro conjI allI impI)
    show "set_ok st S" "set_ok st T" "distinct (map fst (AList.delete (to_hash x) by_hash))"
      using C(1,2,3) by (simp_all add: distinct_alist)
    show "mset (map fst (AList.delete (to_hash x) by_hash)) =
        image_mset to_hash (set_bag S + set_bag T + image_mset (\<lambda>(s, n, x). x) F)"
      using C(4) unfolding keys by simp
    show "ts_memory_usage S + ts_memory_usage T + (\<Sum>(s, n, x)\<in>#F. to_memory_usage x) \<le> W" "W \<le> usize_max"
      using C(5,6) by simp_all
    fix r c y
    assume "cells S r c = Some y \<or> cells T r c = Some y \<or> (r, c, y) \<in># F"
    then show "backed st (AList.delete (to_hash x) by_hash) r c y"
      using consistent_backed [OF assms, of r c y] flight_hash [OF assms, of r c y] keep by auto
  qed
  then show ?thesis using tx by blast
qed

lemma arrive_move:
  assumes "consistent st W by_hash S T F" and "map_of by_hash (to_hash x) = None"
    and "to_strategy x = st" and "to_gas_price x = vt_gas_price tx" and "tx_bounded tx"
    and "W + to_memory_usage x \<le> usize_max"
  shows "consistent st (W + to_memory_usage x) (AList.update (to_hash x) tx by_hash) S T (add_mset (vt_sender tx, vt_nonce tx, x) F)"
proof -
  note C = consistentD [OF assms(1)]
  have keep: "backed st (AList.update (to_hash x) tx by_hash) r c y" if "backed st by_hash r c y" for r c y
    using that assms(2) by (auto simp: backed_def update_conv')
  have keys: "mset (AList.update (to_hash x) tx by_hash) = add_mset (to_hash x, tx) (mset by_hash)"
    using alist_None [OF assms(2)] by blast
  show ?thesis
    unfolding consistent_def
  proof (intro conjI allI impI)
    show "set_ok st S" "set_ok st T" "distinct (map fst (AList.update (to_hash x) tx by_hash))"
      using C(1,2,3) by (simp_all add: distinct_alist)
    show "mset (map fst (AList.update (to_hash x) tx by_hash)) = image_mset to_hash (set_bag S + set_bag T +
        image_mset (\<lambda>(s, n, x). x) (add_mset (vt_sender tx, vt_nonce tx, x) F))"
      using C(4) keys by simp
    show "ts_memory_usage S + ts_memory_usage T +
        (\<Sum>(s, n, x)\<in>#add_mset (vt_sender tx, vt_nonce tx, x) F. to_memory_usage x) \<le> W + to_memory_usage x"
        "W + to_memory_usage x \<le> usize_max"
      using C(5) assms(6) by simp_all
    fix r c y
    assume "cells S r c = Some y \<or> cells T r c = Some y \<or> (r, c, y) \<in># add_mset (vt_sender tx, vt_nonce tx, x) F"
    moreover have "backed st (AList.update (to_hash x) tx by_hash) (vt_sender tx) (vt_nonce tx) x"
      using assms(3-5) by (simp add: backed_def update_conv')
    ultimately show "backed st (AList.update (to_hash x) tx by_hash) r c y"
      using consistent_backed [OF assms(1), of r c y] keep by auto
  qed
qed

subsection \<open>Which of two transactions stays\<close>

lemma one_cell_trans: "one_cell S S' s n v \<Longrightarrow> one_cell S' S'' s n w \<Longrightarrow> one_cell S S'' s n w"
  by (simp add: one_cell_def)

lemma one_cell_get: "one_cell S S' s n v \<Longrightarrow> cells S' s n = v"
  by (simp add: one_cell_def)

lemma backed_price: "backed st by_hash s n x \<Longrightarrow> to_gas_price x < 2 ^ 128"
  by (auto simp: backed_def tx_bounded_def)

lemma if_mark:
  "local_ok loc \<Longrightarrow> \<exists>l. m = Some l \<and> local_ok l \<Longrightarrow> \<exists>loc'. (if b then m else Some loc) = Some loc' \<and> local_ok loc'"
  by (cases b) auto

text \<open>The price that a replacement has to reach.\<close>

definition outbids :: "tx_order \<Rightarrow> tx_order \<Rightarrow> bool" where
  "outbids x old \<longleftrightarrow> to_gas_price old + to_gas_price old div 8 \<le> to_gas_price x"

lemma replace_orders_ok:
  assumes C: "consistent st W by_hash S T (add_mset (s, n, old) F)" and x: "cells S s n = Some x" and loc: "local_ok loc"
  shows "\<exists>S' by_hash' loc'. replace_orders s n old x S by_hash loc = Some (S', by_hash', loc', outbids x old) \<and>
    consistent st W by_hash' S' T F \<and> local_ok loc' \<and> one_cell S S' s n (Some (if outbids x old then x else old)) \<and>
    by_hash' = AList.delete (to_hash (if outbids x old then old else x)) by_hash"
proof -
  have "to_gas_price old < 2 ^ 128" using backed_price [OF consistent_backed(3) [OF C, of s n old]] by simp
  then have bump: "u256_add (to_gas_price old) (to_gas_price old div 2 ^ GAS_PRICE_BUMP_SHIFT) =
      Some (to_gas_price old + to_gas_price old div 8)"
    by (simp add: u256_add_def GAS_PRICE_BUMP_SHIFT_def)
  show ?thesis
  proof (cases "outbids x old")
    case True
    obtain tx where tx: "map_of by_hash (to_hash old) = Some tx" "consistent st W (AList.delete (to_hash old) by_hash) S T F"
      using forget_move [OF C] by blast
    obtain loc' where "(if is_local (vt_origin tx) then mark_replaced (to_hash old) (to_hash x) (to_gas_price x) loc
        else Some loc) = Some loc' \<and> local_ok loc'"
      using if_mark [OF loc marks_ok(2) [OF loc]] by blast
    moreover have "one_cell S S s n (Some x)" using x by (simp add: one_cell_def)
    ultimately show ?thesis using True tx bump by (auto simp: replace_orders_def outbids_def)
  next
    case False
    obtain S' where S': "set_insert s n old S = Some (S', Some x)" "one_cell S S' s n (Some old)"
        "consistent st W by_hash S' T (add_mset (s, n, x) F)"
      using put_move [OF C same_tx_refl] x by auto
    obtain tx where tx: "map_of by_hash (to_hash x) = Some tx" "consistent st W (AList.delete (to_hash x) by_hash) S' T F"
      using forget_move [OF S'(3)] by blast
    obtain loc' where "(if is_local (vt_origin tx) then mark_replaced (to_hash x) (to_hash old) (to_gas_price old) loc
        else Some loc) = Some loc' \<and> local_ok loc'"
      using if_mark [OF loc marks_ok(2) [OF loc]] by blast
    then show ?thesis using False S' tx bump by (auto simp: replace_orders_def outbids_def)
  qed
qed

subsection \<open>The queue\<close>

definition queue_ok :: "nat \<Rightarrow> tx_queue \<Rightarrow> bool" where
  "queue_ok W q \<longleftrightarrow> consistent (q_strategy q) W (q_by_hash q) (q_current q) (q_future q) {#} \<and> local_ok (q_local q)"

lemma queue_ok_sync: "queue_ok W q \<Longrightarrow> queue_sync q"
proof -
  assume "queue_ok W q"
  then have "consistent (q_strategy q) W (q_by_hash q) (q_current q) (q_future q) {#}" by (simp add: queue_ok_def)
  from arg_cong [OF consistentD(4) [OF this], of size] show ?thesis by (simp add: queue_sync_def set_bag_def)
qed

lemma queue_ok_assert: "queue_ok W q \<Longrightarrow> assert_sync q = Some q"
  by (simp add: assert_sync_def queue_ok_sync)

text \<open>The settings no operation changes.\<close>

definition frame :: "tx_queue \<Rightarrow> tx_queue \<Rightarrow> bool" where
  "frame q q' \<longleftrightarrow> q_strategy q' = q_strategy q \<and> q_max_time_in_queue q' = q_max_time_in_queue q \<and>
     ts_memory_limit (q_current q') = ts_memory_limit (q_current q) \<and>
     ts_memory_limit (q_future q') = ts_memory_limit (q_future q)"

lemma frame_refl [simp]: "frame q q"
  by (simp add: frame_def)

lemma frame_trans: "frame q q' \<Longrightarrow> frame q' q'' \<Longrightarrow> frame q q''"
  by (simp add: frame_def)

definition merged :: "tx_order \<Rightarrow> tx_order option \<Rightarrow> tx_order" where
  "merged x old = (case old of None \<Rightarrow> x | Some y \<Rightarrow> if outbids x y then x else y)"

lemma put_or_replace:
  assumes "consistent st W by_hash S T (add_mset (s, n, x) F)" and "same_tx x' x" and "local_ok loc"
  shows "\<exists>S1 S2 by_hash' loc'. set_insert s n x' S = Some (S1, cells S s n) \<and>
    (case cells S s n of None \<Rightarrow> S2 = S1 \<and> by_hash' = by_hash \<and> loc' = loc
     | Some old \<Rightarrow> replace_orders s n old x' S1 by_hash loc = Some (S2, by_hash', loc', outbids x' old)) \<and>
    consistent st W by_hash' S2 T F \<and> local_ok loc' \<and> one_cell S S2 s n (Some (merged x' (cells S s n))) \<and>
    (\<forall>y. cells S s n = Some y \<longrightarrow> by_hash' = AList.delete (to_hash (if outbids x' y then y else x')) by_hash)"
proof -
  obtain S1 where S1: "set_insert s n x' S = Some (S1, cells S s n)" "one_cell S S1 s n (Some x')"
      "consistent st W by_hash S1 T (case cells S s n of None \<Rightarrow> F | Some y \<Rightarrow> add_mset (s, n, y) F)"
    using put_move [OF assms(1,2)] by blast
  show ?thesis
  proof (cases "cells S s n")
    case None
    then show ?thesis using S1 assms(3) by (auto simp: merged_def)
  next
    case (Some old)
    then have "consistent st W by_hash S1 T (add_mset (s, n, old) F)" using S1(3) by simp
    from replace_orders_ok [OF this one_cell_get [OF S1(2)] assms(3)]
    obtain S2 by_hash' loc' where "replace_orders s n old x' S1 by_hash loc = Some (S2, by_hash', loc', outbids x' old)"
        "consistent st W by_hash' S2 T F" "local_ok loc'" "one_cell S1 S2 s n (Some (if outbids x' old then x' else old))"
        "by_hash' = AList.delete (to_hash (if outbids x' old then old else x')) by_hash"
      by blast
    then show ?thesis using S1(1) Some one_cell_trans [OF S1(2)] by (auto simp: merged_def)
  qed
qed

subsection \<open>Updating the waiting set\<close>

definition reheight :: "nat \<Rightarrow> nat \<Rightarrow> tx_order \<Rightarrow> tx_order" where
  "reheight base n x = x\<lparr>to_nonce_height := n - base\<rparr>"

lemma update_height_ok: "base \<le> n \<Longrightarrow> update_height n base x = Some (reheight base n x)"
  by (simp add: update_height_def u256_sub_def reheight_def)

lemma reheight_same [simp]: "same_tx (reheight base n x) x"
  by (simp add: reheight_def same_tx_def)

lemma reheight_simps [simp]: "to_hash (reheight base n x) = to_hash x" "to_origin (reheight base n x) = to_origin x"
  by (simp_all add: reheight_def)

definition updated :: "nat \<Rightarrow> nat \<Rightarrow> tx_order option \<Rightarrow> tx_order option" where
  "updated base n v = (if base \<le> n then map_option (reheight base n) v else None)"

lemma update_future_loop_ok:
  assumes "queue_ok W q" and "distinct ks" and "\<And>k. k \<in> set ks \<Longrightarrow> cells (q_future q) s k \<noteq> None"
  shows "\<exists>q'. update_future_loop s base ks q = Some q' \<and> queue_ok W q' \<and> frame q q' \<and>
    q_current q' = q_current q \<and> q_last_nonces q' = q_last_nonces q \<and>
    (\<forall>r m. cells (q_future q') r m =
       (if r = s \<and> m \<in> set ks then updated base m (cells (q_future q) s m) else cells (q_future q) r m))"
  using assms
proof (induction ks arbitrary: q)
  case (Cons k ks)
  let ?st = "q_strategy q"
  have C: "consistent ?st W (q_by_hash q) (q_future q) (q_current q) {#}" and loc: "local_ok (q_local q)"
    using Cons.prems(1) consistent_sym by (auto simp: queue_ok_def)
  obtain x where x: "cells (q_future q) s k = Some x" using Cons.prems(3) [of k] by auto
  obtain S where S: "set_drop s k (q_future q) = Some (S, Some x)" "one_cell (q_future q) S s k None"
      "consistent ?st W (q_by_hash q) S (q_current q) {#(s, k, x)#}"
    using drop_move [OF C x] by blast
  have "\<exists>q1. (if base \<le> k then do {
        ord' \<leftarrow> update_height k base x;
        (future', _) \<leftarrow> set_insert s k ord' S;
        Some (q\<lparr>q_future := future'\<rparr>)
      } else do {
        _ \<leftarrow> map_of (q_by_hash q) (to_hash x);
        Some (q\<lparr>q_future := S, q_by_hash := AList.delete (to_hash x) (q_by_hash q)\<rparr>)
      }) = Some q1 \<and> queue_ok W q1 \<and> frame q q1 \<and> q_current q1 = q_current q \<and> q_last_nonces q1 = q_last_nonces q \<and>
      one_cell (q_future q) (q_future q1) s k (updated base k (Some x))"
  proof (cases "base \<le> k")
    case True
    obtain S' where S': "set_insert s k (reheight base k x) S = Some (S', None)"
        "one_cell S S' s k (Some (reheight base k x))" "consistent ?st W (q_by_hash q) S' (q_current q) {#}"
      using put_move [OF S(3) reheight_same] one_cell_get [OF S(2)] by auto
    then show ?thesis using True S(2) loc consistent_sym [OF S'(3)]
      by (auto simp: update_height_ok queue_ok_def frame_def updated_def one_cell_def)
  next
    case False
    obtain tx where "map_of (q_by_hash q) (to_hash x) = Some tx"
        "consistent ?st W (AList.delete (to_hash x) (q_by_hash q)) S (q_current q) {#}"
      using forget_move [OF S(3)] by blast
    then show ?thesis using False S(2) loc consistent_sym
      by (auto simp: queue_ok_def frame_def updated_def one_cell_def)
  qed
  then obtain q1 where q1: "update_future_loop s base (k # ks) q = update_future_loop s base ks q1"
      "queue_ok W q1" "frame q q1" "q_current q1 = q_current q" "q_last_nonces q1 = q_last_nonces q"
      "one_cell (q_future q) (q_future q1) s k (updated base k (Some x))"
    using S(1) by auto
  have "cells (q_future q1) s j \<noteq> None" if "j \<in> set ks" for j
    using Cons.prems(2,3) q1(6) that by (auto simp: one_cell_def)
  from Cons.IH [OF q1(2) _ this] obtain q' where q': "update_future_loop s base ks q1 = Some q'" "queue_ok W q'"
      "frame q1 q'" "q_current q' = q_current q1" "q_last_nonces q' = q_last_nonces q1"
      "\<And>r m. cells (q_future q') r m =
         (if r = s \<and> m \<in> set ks then updated base m (cells (q_future q1) s m) else cells (q_future q1) r m)"
    using Cons.prems(2) by auto
  show ?case using q1 q' x Cons.prems(2) frame_trans [OF q1(3) q'(3)] by (auto simp: one_cell_def)
qed simp

lemma row_nonces_mem: "set_ok st S \<Longrightarrow> n \<in> set (row_nonces S s) \<longleftrightarrow> cells S s n \<noteq> None"
  and row_nonces_distinct: "set_ok st S \<Longrightarrow> distinct (row_nonces S s)"
  using row_columns [of "ts_by_address S"] set_okD(1) by (simp_all add: row_nonces_def cells_def)

lemma update_future_ok:
  assumes "queue_ok W q"
  shows "\<exists>q'. update_future s base q = Some q' \<and> queue_ok W q' \<and> frame q q' \<and>
    q_current q' = q_current q \<and> q_last_nonces q' = q_last_nonces q \<and>
    (\<forall>r m. cells (q_future q') r m =
       (if r = s then updated base m (cells (q_future q) s m) else cells (q_future q) r m))"
proof -
  have ok: "set_ok (q_strategy q) (q_future q)" using assms by (simp add: queue_ok_def consistent_def)
  note ks = row_nonces_mem [OF ok, of _ s] row_nonces_distinct [OF ok, of s]
  have "updated base m None = None" for m by (simp add: updated_def)
  then show ?thesis
    using update_future_loop_ok [OF assms ks(2), of s base] ks(1)
    by (fastforce simp: update_future_def)
qed

subsection \<open>Reinserting changed orders\<close>

lemma reinsert:
  assumes "consistent st W by_hash S T {#}" and "cells S s k = Some x" and "same_tx x' x"
  shows "\<exists>S1 S2. set_drop s k S = Some (S1, Some x) \<and> set_insert s k x' S1 = Some (S2, None) \<and>
    consistent st W by_hash S2 T {#} \<and> one_cell S S2 s k (Some x')"
proof -
  obtain S1 where S1: "set_drop s k S = Some (S1, Some x)" "one_cell S S1 s k None"
      "consistent st W by_hash S1 T {#(s, k, x)#}"
    using drop_move [OF assms(1,2)] by blast
  obtain S2 where "set_insert s k x' S1 = Some (S2, None)" "one_cell S1 S2 s k (Some x')"
      "consistent st W by_hash S2 T {#}"
    using put_move [OF S1(3) assms(3)] one_cell_get [OF S1(2)] by auto
  then show ?thesis using S1(1) one_cell_trans [OF S1(2)] by blast
qed

text \<open>A set in which the orders of a sender at some nonces have been changed.\<close>

definition cells_changed :: "(tx_order \<Rightarrow> tx_order) \<Rightarrow> address \<Rightarrow> nat set \<Rightarrow> tx_set \<Rightarrow> tx_set \<Rightarrow> bool" where
  "cells_changed f s K S S' \<longleftrightarrow> ts_memory_limit S' = ts_memory_limit S \<and>
     (\<forall>r m. cells S' r m = (if r = s \<and> m \<in> K then map_option f (cells S s m) else cells S r m))"

lemma cells_changed_Nil [simp]: "cells_changed f s {} S S"
  by (simp add: cells_changed_def)

lemma cells_changed_step:
  "one_cell S S1 s k (Some (f x)) \<Longrightarrow> cells S s k = Some x \<Longrightarrow> cells_changed f s K S1 S' \<Longrightarrow> k \<notin> K \<Longrightarrow>
    cells_changed f s (insert k K) S S'"
  by (auto simp: cells_changed_def one_cell_def)

lemma penalize_same [simp]: "same_tx (penalize_order x) x" "same_tx (x\<lparr>to_origin := Local\<rparr>) x"
  by (simp_all add: penalize_order_def same_tx_def)

lemma penalize_loop_ok:
  assumes "consistent st W by_hash S T {#}" and "distinct ks" and "\<And>k. k \<in> set ks \<Longrightarrow> cells S s k \<noteq> None"
  shows "\<exists>S'. penalize_loop s ks S = Some S' \<and> consistent st W by_hash S' T {#} \<and>
    cells_changed penalize_order s (set ks) S S'"
  using assms
proof (induction ks arbitrary: S)
  case (Cons k ks)
  obtain x where x: "cells S s k = Some x" using Cons.prems(3) [of k] by auto
  obtain S1 S2 where S2: "set_drop s k S = Some (S1, Some x)" "set_insert s k (penalize_order x) S1 = Some (S2, None)"
      "consistent st W by_hash S2 T {#}" "one_cell S S2 s k (Some (penalize_order x))"
    using reinsert [OF Cons.prems(1) x penalize_same(1)] by blast
  have "cells S2 s j \<noteq> None" if "j \<in> set ks" for j
    using Cons.prems(2,3) S2(4) that by (auto simp: one_cell_def)
  from Cons.IH [OF S2(3) _ this] obtain S' where "penalize_loop s ks S2 = Some S'" "consistent st W by_hash S' T {#}"
      "cells_changed penalize_order s (set ks) S2 S'"
    using Cons.prems(2) by auto
  then show ?case using S2 cells_changed_step [where f = penalize_order, OF S2(4) x] Cons.prems(2) by auto
qed simp

lemma mark_local_loop_ok:
  assumes "consistent st W by_hash S T {#}" and "distinct ks" and "\<And>k. k \<in> set ks \<Longrightarrow> cells S s k \<noteq> None"
    and "\<And>h l. local_ok (mark h l) = local_ok l" and "local_ok loc"
  shows "\<exists>S' loc'. mark_local_loop s mark ks S loc = Some (S', loc') \<and> consistent st W by_hash S' T {#} \<and>
    cells_changed (\<lambda>x. x\<lparr>to_origin := Local\<rparr>) s (set ks) S S' \<and> local_ok loc'"
  using assms(1-3,5)
proof (induction ks arbitrary: S loc)
  case (Cons k ks)
  let ?f = "\<lambda>x. x\<lparr>to_origin := Local\<rparr>"
  obtain x where x: "cells S s k = Some x" using Cons.prems(3) [of k] by auto
  obtain S1 S2 where S2: "set_drop s k S = Some (S1, Some x)" "set_insert s k (?f x) S1 = Some (S2, None)"
      "consistent st W by_hash S2 T {#}" "one_cell S S2 s k (Some (?f x))"
    using reinsert [OF Cons.prems(1) x penalize_same(2)] by blast
  have "cells S2 s j \<noteq> None" if "j \<in> set ks" for j
    using Cons.prems(2,3) S2(4) that by (auto simp: one_cell_def)
  from Cons.IH [OF S2(3) _ this, of "mark (to_hash x) loc"] obtain S' loc' where
      "mark_local_loop s mark ks S2 (mark (to_hash x) loc) = Some (S', loc')" "consistent st W by_hash S' T {#}"
      "cells_changed ?f s (set ks) S2 S'" "local_ok loc'"
    using Cons.prems(2,4) assms(4) by auto
  then show ?case using S2 cells_changed_step [where f = ?f, OF S2(4) x] Cons.prems(2) by auto
qed simp

lemma queue_penalize_ok:
  assumes "queue_ok W q"
  shows "\<exists>q'. queue_penalize h q = Some q' \<and> queue_ok W q' \<and> frame q q' \<and> q_last_nonces q' = q_last_nonces q \<and>
    q_by_hash q' = q_by_hash q \<and>
    (\<forall>r m. (cells (q_current q') r m = None) = (cells (q_current q) r m = None)) \<and>
    (\<forall>r m. (cells (q_future q') r m = None) = (cells (q_future q) r m = None))"
proof (cases "\<exists>tx. map_of (q_by_hash q) h = Some tx \<and> \<not> is_local (vt_origin tx)")
  case True
  then obtain tx where tx: "map_of (q_by_hash q) h = Some tx" "\<not> is_local (vt_origin tx)" by blast
  let ?s = "vt_sender tx"
  have C: "consistent (q_strategy q) W (q_by_hash q) (q_current q) (q_future q) {#}" and loc: "local_ok (q_local q)"
    using assms by (simp_all add: queue_ok_def)
  note ok = consistentD(1,2) [OF C]
  obtain A where A: "penalize_loop ?s (row_nonces (q_current q) ?s) (q_current q) = Some A"
      "consistent (q_strategy q) W (q_by_hash q) A (q_future q) {#}"
      "cells_changed penalize_order ?s (set (row_nonces (q_current q) ?s)) (q_current q) A"
    using penalize_loop_ok [OF C row_nonces_distinct [OF ok(1)]] row_nonces_mem [OF ok(1)] by blast
  obtain B where B: "penalize_loop ?s (row_nonces (q_future q) ?s) (q_future q) = Some B"
      "consistent (q_strategy q) W (q_by_hash q) B A {#}"
      "cells_changed penalize_order ?s (set (row_nonces (q_future q) ?s)) (q_future q) B"
    using penalize_loop_ok [OF consistent_sym [OF A(2)] row_nonces_distinct [OF ok(2)]] row_nonces_mem [OF ok(2)]
    by blast
  show ?thesis using tx A B consistent_sym [OF B(2)] loc
    by (auto simp: queue_penalize_def queue_ok_def frame_def cells_changed_def)
qed (use assms in \<open>auto simp: queue_penalize_def split: option.splits\<close>)

lemma filter_row_mem:
  assumes "set_ok st S"
  shows "distinct (case table_row (ts_by_address S) s of None \<Rightarrow> [] | Some m \<Rightarrow> map fst (filter P m))"
    "k \<in> set (case table_row (ts_by_address S) s of None \<Rightarrow> [] | Some m \<Rightarrow> map fst (filter P m)) \<Longrightarrow> cells S s k \<noteq> None"
proof -
  have "distinct (row_nonces S s)" using row_nonces_distinct [OF assms] .
  then show "distinct (case table_row (ts_by_address S) s of None \<Rightarrow> [] | Some m \<Rightarrow> map fst (filter P m))"
    by (auto simp: row_nonces_def distinct_map_filter split: option.splits)
  show "cells S s k \<noteq> None"
    if "k \<in> set (case table_row (ts_by_address S) s of None \<Rightarrow> [] | Some m \<Rightarrow> map fst (filter P m))"
  proof -
    have "k \<in> set (row_nonces S s)" using that by (auto simp: row_nonces_def split: option.splits)
    then show ?thesis using row_nonces_mem [OF assms] by blast
  qed
qed

lemma mark_local_ok:
  assumes C: "consistent st W by_hash S T {#}" and mark: "\<And>h l. local_ok (mark h l) = local_ok l" and "local_ok loc"
  shows "\<exists>A l. mark_local s mark S loc = Some (A, l) \<and> local_ok l \<and> consistent st W by_hash A T {#} \<and>
    (\<forall>r m. (cells A r m = None) = (cells S r m = None)) \<and> ts_memory_limit A = ts_memory_limit S"
proof -
  let ?ks = "case table_row (ts_by_address S) s of None \<Rightarrow> []
    | Some m \<Rightarrow> map fst (filter (\<lambda>(nonce, ord). \<not> is_local (to_origin ord)) m)"
  obtain A l where "mark_local_loop s mark ?ks S loc = Some (A, l)" "consistent st W by_hash A T {#}" "local_ok l"
      "cells_changed (\<lambda>x. x\<lparr>to_origin := Local\<rparr>) s (set ?ks) S A"
    using mark_local_loop_ok [of st W by_hash S T ?ks s mark loc] C mark assms(3)
      filter_row_mem [OF consistentD(1) [OF C], where s = s] by blast
  then show ?thesis by (auto simp: mark_local_def cells_changed_def)
qed

lemma mark_transactions_local_ok:
  assumes "queue_ok W q"
  shows "\<exists>q'. mark_transactions_local s q = Some q' \<and> queue_ok W q' \<and> frame q q' \<and> q_last_nonces q' = q_last_nonces q \<and>
    q_by_hash q' = q_by_hash q \<and>
    (\<forall>r m. (cells (q_current q') r m = None) = (cells (q_current q) r m = None)) \<and>
    (\<forall>r m. (cells (q_future q') r m = None) = (cells (q_future q) r m = None))"
proof -
  have C: "consistent (q_strategy q) W (q_by_hash q) (q_current q) (q_future q) {#}" and loc: "local_ok (q_local q)"
    using assms by (simp_all add: queue_ok_def)
  obtain A l where A: "mark_local s mark_pending (q_current q) (q_local q) = Some (A, l)" "local_ok l"
      "consistent (q_strategy q) W (q_by_hash q) A (q_future q) {#}"
      "\<forall>r m. (cells A r m = None) = (cells (q_current q) r m = None)"
      "ts_memory_limit A = ts_memory_limit (q_current q)"
    using mark_local_ok [OF C, of mark_pending "q_local q" s] loc local_ok_upd(3) by blast
  obtain B l' where B: "mark_local s mark_future (q_future q) l = Some (B, l')" "local_ok l'"
      "consistent (q_strategy q) W (q_by_hash q) B A {#}"
      "\<forall>r m. (cells B r m = None) = (cells (q_future q) r m = None)"
      "ts_memory_limit B = ts_memory_limit (q_future q)"
    using mark_local_ok [OF consistent_sym [OF A(3)], of mark_future l s] A(2) local_ok_upd(4) by blast
  show ?thesis using A B consistent_sym [OF B(3)]
    by (auto simp: mark_transactions_local_def queue_ok_def frame_def)
qed

subsection \<open>Enforcing the memory limit\<close>

text \<open>Orders the limit never removes, and the orders it does remove, given from the lowest priority.\<close>

definition protected_order :: "tx_order \<Rightarrow> bool" where
  "protected_order x \<longleftrightarrow> is_local (to_origin x) \<or> to_origin x = RetractedBlock"

fun victims :: "nat \<Rightarrow> nat \<Rightarrow> tx_order list \<Rightarrow> tx_order list" where
  "victims limit usage [] = []"
| "victims limit usage (x # xs) =
     (if protected_order x then victims limit usage xs
      else if usage - to_memory_usage x \<le> limit then [x]
      else x # victims limit (usage - to_memory_usage x) xs)"

lemma victims_sub: "mset (victims limit usage xs) \<subseteq># mset xs"
proof (induction xs arbitrary: usage)
  case (Cons x xs)
  show ?case
    using Cons.IH [of usage] Cons.IH [of "usage - to_memory_usage x"]
    by (auto intro: subset_mset.order_trans)
qed simp

lemma victims_mem: "x \<in> set (victims limit usage xs) \<Longrightarrow> x \<in> set xs \<and> \<not> protected_order x"
  by (induction xs arbitrary: usage) (auto split: if_splits)

lemma victims_distinct: "distinct (map to_hash xs) \<Longrightarrow> distinct (map to_hash (victims limit usage xs))"
  by (induction xs arbitrary: usage) (auto dest!: victims_mem split: if_splits)

lemma victims_usage:
  "sum_list (map to_memory_usage xs) \<le> usage \<Longrightarrow> limit < usage \<Longrightarrow>
    usage - sum_list (map to_memory_usage (victims limit usage xs)) \<le> limit \<or>
    victims limit usage xs = filter (\<lambda>x. \<not> protected_order x) xs"
proof (induction xs arbitrary: usage)
  case (Cons x xs)
  show ?case
  proof (cases "protected_order x")
    case True
    then show ?thesis using Cons.IH [of usage] Cons.prems by simp
  next
    case False
    then show ?thesis using Cons.IH [of "usage - to_memory_usage x"] Cons.prems by (auto simp: diff_diff_left)
  qed
qed simp

definition tx_key :: "tx_map \<Rightarrow> tx_order \<Rightarrow> address \<times> nat" where
  "tx_key by_hash x = (case map_of by_hash (to_hash x) of Some tx \<Rightarrow> (vt_sender tx, vt_nonce tx) | None \<Rightarrow> ([], 0))"

lemma pick_dropped_ok:
  assumes "sum_list (map to_memory_usage xs) \<le> usage" and "\<And>x. x \<in> set xs \<Longrightarrow> map_of by_hash (to_hash x) \<noteq> None"
  shows "pick_dropped by_hash limit usage xs = Some (map (tx_key by_hash) (victims limit usage xs))"
  using assms
proof (induction xs arbitrary: usage)
  case (Cons x xs)
  obtain tx where "map_of by_hash (to_hash x) = Some tx" using Cons.prems(2) [of x] by auto
  then show ?case using Cons.prems Cons.IH [of usage] Cons.IH [of "usage - to_memory_usage x"]
    by (auto simp: protected_order_def usize_sub_def tx_key_def)
qed simp

lemma drop_picked_ok:
  assumes "consistent st W by_hash S T {#}" and "local_ok loc" and "distinct (map to_hash xs)"
    and "\<And>x. x \<in> set xs \<Longrightarrow> (case key x of (s, n) \<Rightarrow> cells S s n) = Some x"
  shows "\<exists>S' by_hash' loc' rem. drop_picked (map key xs) S by_hash loc removed = Some (S', by_hash', loc', rem) \<and>
    consistent st W by_hash' S' T {#} \<and> local_ok loc' \<and> ts_memory_limit S' = ts_memory_limit S \<and>
    (\<forall>r c. cells S' r c = (if \<exists>x \<in> set xs. key x = (r, c) then None else cells S r c)) \<and>
    set_bag S = set_bag S' + mset xs"
  using assms
proof (induction xs arbitrary: S by_hash loc removed)
  case (Cons x xs)
  obtain s n where key: "key x = (s, n)" by (cases "key x")
  then have x: "cells S s n = Some x" using Cons.prems(4) [of x] by simp
  obtain S1 where S1: "set_drop s n S = Some (S1, Some x)" "consistent st W by_hash S1 T {#(s, n, x)#}"
      "one_cell S S1 s n None"
    using drop_move [OF Cons.prems(1) x] by blast
  have bag: "set_bag S = add_mset x (set_bag S1)"
    using txs.take_ok [OF consistentD(1) [OF Cons.prems(1)], of s n] S1(1) x by (auto simp: take_entry_def)
  obtain tx where tx: "map_of by_hash (to_hash x) = Some tx" "consistent st W (AList.delete (to_hash x) by_hash) S1 T {#}"
    using forget_move [OF S1(2)] by blast
  obtain loc1 where loc1: "(if is_local (vt_origin tx) then mark_dropped (vt_hash tx) loc else Some loc) = Some loc1"
      "local_ok loc1"
    using if_mark [OF Cons.prems(2) marks_ok(5) [OF Cons.prems(2)]] by blast
  have other: "key y \<noteq> (s, n)" if "y \<in> set xs" for y
    using Cons.prems(3,4) x that by force
  have "(case key y of (s, n) \<Rightarrow> cells S1 s n) = Some y" if "y \<in> set xs" for y
    using Cons.prems(4) [of y] other [OF that] that S1(3) by (auto simp: one_cell_def split: prod.splits)
  from Cons.IH [OF tx(2) loc1(2) _ this, of "AList.update s
      (case map_of removed s of None \<Rightarrow> n | Some val \<Rightarrow> min val n) removed"] Cons.prems(3)
  obtain S' by_hash' loc' rem where "drop_picked (map key xs) S1 (AList.delete (to_hash x) by_hash) loc1 (AList.update s
      (case map_of removed s of None \<Rightarrow> n | Some val \<Rightarrow> min val n) removed) = Some (S', by_hash', loc', rem)"
      "consistent st W by_hash' S' T {#}" "local_ok loc'" "ts_memory_limit S' = ts_memory_limit S1"
      "\<forall>r c. cells S' r c = (if \<exists>x \<in> set xs. key x = (r, c) then None else cells S1 r c)"
      "set_bag S1 = set_bag S' + mset xs" by auto
  then show ?case using S1 tx(1) loc1(1) key bag by (auto simp: one_cell_def Let_def)
qed simp

text \<open>What enforcing the limit does to a set.\<close>

lemma enforce_limit_ok:
  assumes C: "consistent st W by_hash S T {#}" and loc: "local_ok loc"
  shows "\<exists>S' by_hash' loc' rem. enforce_limit by_hash loc S = Some (S', by_hash', loc', rem) \<and>
    consistent st W by_hash' S' T {#} \<and> local_ok loc' \<and> ts_memory_limit S' = ts_memory_limit S \<and>
    (\<forall>r c. cells S' r c = None \<or> cells S' r c = cells S r c) \<and>
    set_bag S = set_bag S' + (if ts_memory_usage S \<le> ts_memory_limit S then {#}
      else mset (victims (ts_memory_limit S) (ts_memory_usage S) (rev (ts_by_priority S)))) \<and>
    (ts_memory_usage S \<le> ts_memory_limit S \<longrightarrow> S' = S \<and> by_hash' = by_hash \<and> loc' = loc \<and> rem = [])"
proof (cases "ts_memory_usage S \<le> ts_memory_limit S")
  case True
  then show ?thesis using assms by (simp add: enforce_limit_def)
next
  case False
  let ?xs = "victims (ts_memory_limit S) (ts_memory_usage S) (rev (ts_by_priority S))"
  note ok = set_okD [OF consistentD(1) [OF C]]
  have "sum_list (map to_memory_usage (rev (ts_by_priority S))) \<le> ts_memory_usage S"
    using ok(8) by (simp add: rev_map [symmetric])
  moreover have "map_of by_hash (to_hash x) \<noteq> None" if "x \<in> set (rev (ts_by_priority S))" for x
    using that priority_cell [OF consistentD(1) [OF C], of x] consistent_backed(1) [OF C]
    by (fastforce simp: backed_def)
  ultimately have pick: "pick_dropped by_hash (ts_memory_limit S) (ts_memory_usage S) (rev (ts_by_priority S)) =
      Some (map (tx_key by_hash) ?xs)"
    by (rule pick_dropped_ok)
  have "(case tx_key by_hash x of (s, n) \<Rightarrow> cells S s n) = Some x" if "x \<in> set ?xs" for x
  proof -
    have "x \<in> set (ts_by_priority S)" using victims_mem [OF that] by simp
    then obtain s n where x: "cells S s n = Some x" using priority_cell [OF consistentD(1) [OF C]] by blast
    then have "tx_key by_hash x = (s, n)" using consistent_backed(1) [OF C x] by (auto simp: backed_def tx_key_def)
    then show ?thesis using x by simp
  qed
  moreover have "distinct (map to_hash ?xs)" using ok(6) by (intro victims_distinct) (simp add: rev_map [symmetric])
  ultimately obtain S' by_hash' loc' rem where "drop_picked (map (tx_key by_hash) ?xs) S by_hash loc [] = Some (S', by_hash', loc', rem)"
      "consistent st W by_hash' S' T {#}" "local_ok loc'" "ts_memory_limit S' = ts_memory_limit S"
      "\<forall>r c. cells S' r c = (if \<exists>x \<in> set ?xs. tx_key by_hash x = (r, c) then None else cells S r c)"
      "set_bag S = set_bag S' + mset ?xs"
    using drop_picked_ok [OF C loc, of ?xs "tx_key by_hash" "[]"] by blast
  then show ?thesis using False pick by (auto simp: enforce_limit_def)
qed

subsection \<open>Moving everything to the waiting set\<close>

lemma move_all_loop_ok:
  assumes "queue_ok W q" and "distinct ks" and "\<And>k. k \<in> set ks \<Longrightarrow> cells (q_current q) s k \<noteq> None"
  shows "\<exists>q'. move_all_loop s base ks q = Some q' \<and> queue_ok W q' \<and> frame q q' \<and> q_last_nonces q' = q_last_nonces q \<and>
    (\<forall>r m. cells (q_current q') r m = (if r = s \<and> m \<in> set ks then None else cells (q_current q) r m)) \<and>
    (\<forall>r m. cells (q_future q') r m = (if r = s \<and> m \<in> set ks \<and> base \<le> m
       then Some (merged (reheight base m (the (cells (q_current q) s m))) (cells (q_future q) s m))
       else cells (q_future q) r m))"
  using assms
proof (induction ks arbitrary: q)
  case (Cons k ks)
  let ?st = "q_strategy q"
  have C: "consistent ?st W (q_by_hash q) (q_current q) (q_future q) {#}" and loc: "local_ok (q_local q)"
    using Cons.prems(1) by (auto simp: queue_ok_def)
  obtain x where x: "cells (q_current q) s k = Some x" using Cons.prems(3) [of k] by auto
  obtain S where S: "set_drop s k (q_current q) = Some (S, Some x)" "one_cell (q_current q) S s k None"
      "consistent ?st W (q_by_hash q) S (q_future q) {#(s, k, x)#}"
    using drop_move [OF C x] by blast
  have "\<exists>q1. move_all_loop s base (k # ks) q = move_all_loop s base ks q1 \<and> queue_ok W q1 \<and> frame q q1 \<and>
      q_last_nonces q1 = q_last_nonces q \<and> one_cell (q_current q) (q_current q1) s k None \<and>
      one_cell (q_future q) (q_future q1) s k (if base \<le> k then Some (merged (reheight base k x) (cells (q_future q) s k))
        else cells (q_future q) s k)"
  proof (cases "base \<le> k")
    case True
    let ?loc = "if is_local (to_origin x) then mark_future (to_hash x) (q_local q) else q_local q"
    have l: "local_ok ?loc" using loc by simp
    obtain S1 S2 by_hash' loc' where R: "set_insert s k (reheight base k x) (q_future q) = Some (S1, cells (q_future q) s k)"
        "case cells (q_future q) s k of None \<Rightarrow> S2 = S1 \<and> by_hash' = q_by_hash q \<and> loc' = ?loc
         | Some old \<Rightarrow> replace_orders s k old (reheight base k x) S1 (q_by_hash q) ?loc =
             Some (S2, by_hash', loc', outbids (reheight base k x) old)"
        "consistent ?st W by_hash' S2 S {#}" "local_ok loc'"
        "one_cell (q_future q) S2 s k (Some (merged (reheight base k x) (cells (q_future q) s k)))"
      using put_or_replace [OF consistent_sym [OF S(3)] reheight_same l] by blast
    let ?q = "q\<lparr>q_current := S, q_future := S2, q_by_hash := by_hash', q_local := loc'\<rparr>"
    have "move_all_loop s base (k # ks) q = move_all_loop s base ks ?q"
      using R(1,2) S(1) True
      by (cases "cells (q_future q) s k"; cases "is_local (to_origin x)") (simp_all add: update_height_ok Let_def)
    moreover have "queue_ok W ?q" using consistent_sym [OF R(3)] R(4) by (simp add: queue_ok_def)
    moreover have "frame q ?q" using S(2) R(5) by (simp add: frame_def one_cell_def)
    ultimately show ?thesis using S(2) R(5) True by (intro exI [of _ ?q]) simp
  next
    case False
    obtain tx where tx: "map_of (q_by_hash q) (to_hash x) = Some tx"
        "consistent ?st W (AList.delete (to_hash x) (q_by_hash q)) S (q_future q) {#}"
      using forget_move [OF S(3)] by blast
    obtain loc' where loc': "(if is_local (vt_origin tx) then mark_mined (vt_hash tx) (q_local q)
        else Some (q_local q)) = Some loc'" "local_ok loc'"
      using if_mark [OF loc marks_ok(6) [OF loc]] by blast
    let ?q = "q\<lparr>q_current := S, q_by_hash := AList.delete (to_hash x) (q_by_hash q), q_local := loc'\<rparr>"
    have "move_all_loop s base (k # ks) q = move_all_loop s base ks ?q" using S(1) tx(1) loc'(1) False by simp
    moreover have "queue_ok W ?q" using tx(2) loc'(2) by (simp add: queue_ok_def)
    ultimately show ?thesis using S(2) False by (intro exI [of _ ?q]) (simp add: frame_def one_cell_def)
  qed
  then obtain q1 where q1: "move_all_loop s base (k # ks) q = move_all_loop s base ks q1" "queue_ok W q1" "frame q q1"
      "q_last_nonces q1 = q_last_nonces q" "one_cell (q_current q) (q_current q1) s k None"
      "one_cell (q_future q) (q_future q1) s k (if base \<le> k then Some (merged (reheight base k x) (cells (q_future q) s k))
        else cells (q_future q) s k)" by blast
  have later: "cells (q_current q1) s j = cells (q_current q) s j" "cells (q_future q1) s j = cells (q_future q) s j"
    if "j \<in> set ks" for j
    using Cons.prems(2) q1(5,6) that by (auto simp: one_cell_def)
  have "cells (q_current q1) s j \<noteq> None" if "j \<in> set ks" for j using Cons.prems(3) [of j] later that by simp
  from Cons.IH [OF q1(2) _ this] obtain q' where q': "move_all_loop s base ks q1 = Some q'" "queue_ok W q'"
      "frame q1 q'" "q_last_nonces q' = q_last_nonces q1"
      "\<And>r m. cells (q_current q') r m = (if r = s \<and> m \<in> set ks then None else cells (q_current q1) r m)"
      "\<And>r m. cells (q_future q') r m = (if r = s \<and> m \<in> set ks \<and> base \<le> m
         then Some (merged (reheight base m (the (cells (q_current q1) s m))) (cells (q_future q1) s m))
         else cells (q_future q1) r m)"
    using Cons.prems(2) by auto
  show ?case
    using q1(1,4) q'(1,2,4) frame_trans [OF q1(3) q'(3)] q'(5,6) q1(5,6) later x Cons.prems(2)
    by (auto simp: one_cell_def)
qed simp

lemma move_all_to_future_ok:
  assumes "queue_ok W q"
  shows "\<exists>q'. move_all_to_future s base q = Some q' \<and> queue_ok W q' \<and> frame q q' \<and> q_last_nonces q' = q_last_nonces q \<and>
    (\<forall>r m. cells (q_current q') r m = (if r = s then None else cells (q_current q) r m)) \<and>
    (\<forall>r m. cells (q_future q') r m = None \<or> cells (q_future q') r m =
       (if r = s \<and> cells (q_current q) s m \<noteq> None \<and> base \<le> m
        then Some (merged (reheight base m (the (cells (q_current q) s m))) (cells (q_future q) s m))
        else cells (q_future q) r m)) \<and>
    (W \<le> ts_memory_limit (q_future q) \<longrightarrow> (\<forall>r m. cells (q_future q') r m =
       (if r = s \<and> cells (q_current q) s m \<noteq> None \<and> base \<le> m
        then Some (merged (reheight base m (the (cells (q_current q) s m))) (cells (q_future q) s m))
        else cells (q_future q) r m)))"
proof -
  have ok: "set_ok (q_strategy q) (q_current q)" using assms by (simp add: queue_ok_def consistent_def)
  note ks = row_nonces_mem [OF ok, of _ s] row_nonces_distinct [OF ok, of s]
  obtain q1 where q1: "move_all_loop s base (row_nonces (q_current q) s) q = Some q1" "queue_ok W q1" "frame q q1"
      "q_last_nonces q1 = q_last_nonces q"
      "\<forall>r m. cells (q_current q1) r m = (if r = s \<and> m \<in> set (row_nonces (q_current q) s) then None else cells (q_current q) r m)"
      "\<forall>r m. cells (q_future q1) r m = (if r = s \<and> m \<in> set (row_nonces (q_current q) s) \<and> base \<le> m
         then Some (merged (reheight base m (the (cells (q_current q) s m))) (cells (q_future q) s m))
         else cells (q_future q) r m)"
    using move_all_loop_ok [OF assms ks(2)] ks(1) by blast
  have C: "consistent (q_strategy q1) W (q_by_hash q1) (q_future q1) (q_current q1) {#}" "local_ok (q_local q1)"
    using q1(2) consistent_sym by (auto simp: queue_ok_def)
  obtain S by_hash loc rem where E: "enforce_limit (q_by_hash q1) (q_local q1) (q_future q1) = Some (S, by_hash, loc, rem)"
      "consistent (q_strategy q1) W by_hash S (q_current q1) {#}" "local_ok loc"
      "ts_memory_limit S = ts_memory_limit (q_future q1)"
      "\<forall>r c. cells S r c = None \<or> cells S r c = cells (q_future q1) r c"
      "ts_memory_usage (q_future q1) \<le> ts_memory_limit (q_future q1) \<longrightarrow> S = q_future q1"
    using enforce_limit_ok [OF C] by blast
  let ?q = "q1\<lparr>q_future := S, q_by_hash := by_hash, q_local := loc\<rparr>"
  have "queue_ok W ?q" using consistent_sym [OF E(2)] E(3) by (simp add: queue_ok_def)
  moreover have "frame q ?q" using q1(3) E(4) by (simp add: frame_def)
  moreover have "ts_memory_usage (q_future q1) \<le> W" using consistentD(5) [OF C(1)] by simp
  ultimately show ?thesis
    using q1 E ks(1) by (intro exI [of _ ?q]) (auto simp: move_all_to_future_def frame_def)
qed

subsection \<open>Promoting consecutive nonces\<close>

lemma take_future_move:
  assumes C: "consistent st W by_hash S T {#}" and x: "cells S s n = Some x"
  shows "\<exists>S'. take_future s n S = Some (S', Some x) \<and> consistent st W by_hash S' T {#(s, n, x)#} \<and> one_cell S S' s n None"
proof -
  note S = consistentD(1) [OF C]
  note ok = set_okD [OF S]
  obtain t' where t': "table_row_remove s n (ts_by_address S) = (t', Some x)"
    using table_row_remove_ok(2) [OF ok(1)] x by (cases "table_row_remove s n (ts_by_address S)") (auto simp: cells_def)
  note t = table_row_remove_ok [OF ok(1) t']
  have mem: "x \<in> set (ts_by_priority S)" using priority_cell [OF S] x by blast
  obtain g' b where g': "gp_remove (to_gas_price x) (to_hash x) (ts_by_gas_price S) = (g', b)" by fastforce
  obtain xs' b' where xs': "btree_remove order_cmp x (ts_by_priority S) = (xs', b')" by fastforce
  have out: "gp_ok g'" "mset (ts_by_priority S) = add_mset x (mset xs')"
    "sorted_wrt (\<lambda>a b. order_cmp a b = Less) xs'" "set xs' \<subseteq> {a. to_strategy a = st}"
    "distinct (map to_hash xs')" "gp_pairs g' = image_mset (\<lambda>x. (to_gas_price x, to_hash x)) (mset xs')"
    "usize_sub (ts_memory_usage S) (to_memory_usage x) = Some (sum_list (map to_memory_usage xs'))"
    using set_take [OF ok(1,2) g' xs' ok(3,4) mem ok(6,7,8)] by blast+
  let ?S = "S\<lparr>ts_by_address := t', ts_by_priority := xs', ts_by_gas_price := g',
      ts_memory_usage := sum_list (map to_memory_usage xs')\<rparr>"
  have "entries (ts_by_address S) = add_mset (s, n, x) (entries t')" using t(4) by (simp add: take_entry_def)
  then have "mset xs' = image_mset (\<lambda>(s, n, x). x) (entries t')" using out(2) ok(5) by simp
  moreover have "sum_list (map to_memory_usage xs') \<le> usize_max"
    using out(7) ok(9) by (simp add: usize_sub_def split: if_splits)
  ultimately have S': "set_ok st ?S" using out t(1) by (simp add: set_ok_def)
  have cell: "one_cell S ?S s n None" using t(3) by (simp add: one_cell_def cells_def)
  have "take_entry (Some x) (set_bag S) (set_bag ?S)" using out(2) by (simp add: take_entry_def set_bag_def)
  then have "consistent st W by_hash ?S T {#(s, n, x)#}" by (rule consistent_take [OF C x S' cell])
  moreover have "take_future s n S = Some (?S, Some x)" using t' g' xs' out(7) by (simp add: take_future_def)
  ultimately show ?thesis using cell by blast
qed

lemma row_change:
  assumes C: "consistent st W by_hash S T F" and "table_ok t'" and "table_get t' = table_get (ts_by_address S)"
    and "entries t' = entries (ts_by_address S)"
  shows "consistent st W by_hash (S\<lparr>ts_by_address := t'\<rparr>) T F" "cells (S\<lparr>ts_by_address := t'\<rparr>) = cells S"
proof -
  have "set_ok st (S\<lparr>ts_by_address := t'\<rparr>)"
    using consistentD(1) [OF C] assms(2,4) unfolding set_ok_def by simp
  moreover show "cells (S\<lparr>ts_by_address := t'\<rparr>) = cells S" using assms(3) by (simp add: cells_def)
  ultimately show "consistent st W by_hash (S\<lparr>ts_by_address := t'\<rparr>) T F"
    using C unfolding consistent_def by (simp add: set_bag_def)
qed

lemma take_future_none:
  assumes C: "consistent st W by_hash S T {#}" and "cells S s n = None"
  shows "\<exists>S'. take_future s n S = Some (S', None) \<and> consistent st W by_hash S' T {#} \<and> cells S' = cells S \<and>
    ts_memory_limit S' = ts_memory_limit S"
proof -
  note ok = set_okD(1) [OF consistentD(1) [OF C]]
  obtain t' where t': "table_row_remove s n (ts_by_address S) = (t', None)"
    using table_row_remove_ok(2) [OF ok] assms(2)
    by (cases "table_row_remove s n (ts_by_address S)") (auto simp: cells_def)
  note t = table_row_remove_ok [OF ok t']
  have "table_get t' = table_get (ts_by_address S)" using t(2,3) by (auto simp: fun_eq_iff)
  then show ?thesis using row_change [OF C t(1)] t(4) t' by (auto simp: take_future_def take_entry_def)
qed

lemma promote_ok:
  assumes "consistent (q_strategy q) W (q_by_hash q) (q_current q) (q_future q) {#(s, n, x)#}" and "local_ok (q_local q)"
    and "base \<le> n"
  shows "\<exists>q'. promote s n base x q = Some q' \<and> queue_ok W q' \<and> frame q q' \<and> q_future q' = q_future q \<and>
    q_last_nonces q' = q_last_nonces q \<and>
    one_cell (q_current q) (q_current q') s n (Some (merged (reheight base n x) (cells (q_current q) s n)))"
proof -
  let ?loc = "if is_local (to_origin x) then mark_pending (to_hash x) (q_local q) else q_local q"
  have l: "local_ok ?loc" using assms(2) by simp
  obtain S1 S2 by_hash' loc' where R: "set_insert s n (reheight base n x) (q_current q) = Some (S1, cells (q_current q) s n)"
      "case cells (q_current q) s n of None \<Rightarrow> S2 = S1 \<and> by_hash' = q_by_hash q \<and> loc' = ?loc
       | Some old \<Rightarrow> replace_orders s n old (reheight base n x) S1 (q_by_hash q) ?loc =
           Some (S2, by_hash', loc', outbids (reheight base n x) old)"
      "consistent (q_strategy q) W by_hash' S2 (q_future q) {#}" "local_ok loc'"
      "one_cell (q_current q) S2 s n (Some (merged (reheight base n x) (cells (q_current q) s n)))"
    using put_or_replace [OF assms(1) reheight_same l] by blast
  let ?q = "q\<lparr>q_current := S2, q_by_hash := by_hash', q_local := loc'\<rparr>"
  have "promote s n base x q = Some ?q"
    using R(1,2) assms(3) by (cases "cells (q_current q) s n"; cases "is_local (to_origin x)")
      (simp_all add: promote_def update_height_ok Let_def)
  then show ?thesis using R(3-5) by (intro exI [of _ ?q]) (simp add: queue_ok_def frame_def one_cell_def)
qed

text \<open>The queue after \<open>k\<close> consecutive nonces of \<open>s\<close>, from \<open>n\<close> on, have been promoted.\<close>

definition promoted :: "address \<Rightarrow> nat \<Rightarrow> nat \<Rightarrow> nat \<Rightarrow> tx_queue \<Rightarrow> tx_queue \<Rightarrow> bool" where
  "promoted s base n k q q' \<longleftrightarrow>
     (\<forall>i < k. cells (q_future q) s (n + i) \<noteq> None) \<and> cells (q_future q) s (n + k) = None \<and>
     (\<forall>r m. cells (q_future q') r m = (if r = s \<and> n \<le> m \<and> m < n + k then None else cells (q_future q) r m)) \<and>
     (\<forall>r m. cells (q_current q') r m = (if r = s \<and> n \<le> m \<and> m < n + k
        then Some (merged (reheight base m (the (cells (q_future q) s m))) (cells (q_current q) s m))
        else cells (q_current q) r m))"

lemma promoted_0: "cells (q_future q) s n = None \<Longrightarrow> cells (q_future q') = cells (q_future q) \<Longrightarrow>
    cells (q_current q') = cells (q_current q) \<Longrightarrow> promoted s base n 0 q q'"
  by (auto simp: promoted_def)

lemma promoted_Suc:
  assumes "cells (q_future q) s n = Some x" and "one_cell (q_future q) (q_future q1) s n None"
    and "one_cell (q_current q) (q_current q1) s n (Some (merged (reheight base n x) (cells (q_current q) s n)))"
    and "promoted s base (Suc n) k q1 q'"
  shows "promoted s base n (Suc k) q q'"
proof -
  have fut: "cells (q_future q1) r m = (if r = s \<and> m = n then None else cells (q_future q) r m)" for r m
    using assms(2) by (simp add: one_cell_def)
  have cur: "cells (q_current q1) r m = (if r = s \<and> m = n then Some (merged (reheight base n x) (cells (q_current q) s n))
      else cells (q_current q) r m)" for r m
    using assms(3) by (simp add: one_cell_def)
  have P: "\<forall>i < k. cells (q_future q1) s (Suc n + i) \<noteq> None" "cells (q_future q1) s (Suc n + k) = None"
      "cells (q_future q') r m = (if r = s \<and> Suc n \<le> m \<and> m < Suc n + k then None else cells (q_future q1) r m)"
      "cells (q_current q') r m = (if r = s \<and> Suc n \<le> m \<and> m < Suc n + k
        then Some (merged (reheight base m (the (cells (q_future q1) s m))) (cells (q_current q1) s m))
        else cells (q_current q1) r m)" for r m
    using assms(4) by (simp_all add: promoted_def)
  have "cells (q_future q) s (n + i) \<noteq> None" if "i < Suc k" for i
    using P(1) that assms(1) fut by (cases i) auto
  moreover have "cells (q_future q) s (n + Suc k) = None" using P(2) fut by simp
  ultimately show ?thesis unfolding promoted_def P(3,4) fut cur using assms(1) by auto
qed

lemma queue_nonce: "queue_ok W q \<Longrightarrow> cells (q_future q) s n \<noteq> None \<or> cells (q_current q) s n \<noteq> None \<Longrightarrow> n < 2 ^ 128"
  using consistent_backed(1,2) [of "q_strategy q" W "q_by_hash q" "q_current q" "q_future q" "{#}" s n]
  by (force simp: queue_ok_def backed_def tx_bounded_def)

lemma move_matching_loop_ok:
  assumes "queue_ok W q" and "base \<le> n"
  shows "\<exists>k q'. move_matching_loop s n base u q = Some (if k = 0 then u else Some (n + k - 1), q') \<and> queue_ok W q' \<and>
    frame q q' \<and> q_last_nonces q' = q_last_nonces q \<and> promoted s base n k q q'"
  using assms
proof (induction s n base u q rule: move_matching_loop.induct)
  case (1 s n base u q)
  have C: "consistent (q_strategy q) W (q_by_hash q) (q_future q) (q_current q) {#}" and loc: "local_ok (q_local q)"
    using "1.prems"(1) consistent_sym by (auto simp: queue_ok_def)
  show ?case
  proof (cases "cells (q_future q) s n")
    case None
    obtain S where S: "take_future s n (q_future q) = Some (S, None)" "cells S = cells (q_future q)"
        "consistent (q_strategy q) W (q_by_hash q) S (q_current q) {#}" "ts_memory_limit S = ts_memory_limit (q_future q)"
      using take_future_none [OF C None] by blast
    let ?q = "q\<lparr>q_future := S\<rparr>"
    have "promoted s base n 0 q ?q" using None S(2) by (intro promoted_0) simp_all
    moreover have "queue_ok W ?q" using consistent_sym [OF S(3)] loc by (simp add: queue_ok_def)
    moreover have "move_matching_loop s n base u q = Some (u, ?q)"
      using S(1) by (subst move_matching_loop.simps) simp
    ultimately show ?thesis using S(4) by (intro exI [of _ 0] exI [of _ ?q]) (simp add: frame_def)
  next
    case (Some x)
    obtain S where S: "take_future s n (q_future q) = Some (S, Some x)" "one_cell (q_future q) S s n None"
        "consistent (q_strategy q) W (q_by_hash q) S (q_current q) {#(s, n, x)#}"
      using take_future_move [OF C Some] by blast
    obtain q1 where q1: "promote s n base x (q\<lparr>q_future := S\<rparr>) = Some q1" "queue_ok W q1" "frame (q\<lparr>q_future := S\<rparr>) q1"
        "q_future q1 = S" "q_last_nonces q1 = q_last_nonces q"
        "one_cell (q_current q) (q_current q1) s n (Some (merged (reheight base n x) (cells (q_current q) s n)))"
      using promote_ok [of "q\<lparr>q_future := S\<rparr>" W s n x base] consistent_sym [OF S(3)] loc "1.prems"(2) by auto
    have "n < 2 ^ 128" using queue_nonce [OF "1.prems"(1), of s n] Some by simp
    then have next_nonce: "u256_add n 1 = Some (Suc n)" by (simp add: u256_add_def)
    obtain k q' where q': "move_matching_loop s (Suc n) base (Some n) q1 = Some (if k = 0 then Some n else Some (Suc n + k - 1), q')"
        "queue_ok W q'" "frame q1 q'" "q_last_nonces q' = q_last_nonces q1" "promoted s base (Suc n) k q1 q'"
      using "1.IH" [OF S(1) refl refl q1(1) next_nonce q1(2)] "1.prems"(2) by fastforce
    have "frame q q'" using q1(3) q'(3) S(2) by (simp add: frame_def one_cell_def)
    moreover have "promoted s base n (Suc k) q q'"
      using promoted_Suc [OF Some _ q1(6) q'(5)] S(2) q1(4) by simp
    moreover have "move_matching_loop s n base u q = Some (Some (n + Suc k - 1), q')"
      using S(1) q1(1) next_nonce q'(1) by (subst move_matching_loop.simps) simp
    ultimately show ?thesis using q' q1(5) by (intro exI [of _ "Suc k"] exI [of _ q']) simp
  qed
qed

lemma move_matching_ok:
  assumes "queue_ok W q" and "base \<le> n"
  shows "\<exists>k q'. move_matching_future_to_current s n base q = Some q' \<and> queue_ok W q' \<and> frame q q' \<and>
    promoted s base n k q q' \<and>
    q_last_nonces q' = (if k = 0 then q_last_nonces q else (q_last_nonces q)(s \<mapsto> n + k - 1))"
proof (cases "table_has_row (ts_by_address (q_future q)) s")
  case False
  then have "cells (q_future q) s n = None" by (simp add: cells_def table_get_def table_has_row_def)
  then have "promoted s base n 0 q q" by (simp add: promoted_0)
  then show ?thesis using assms(1) False by (intro exI [of _ 0]) (simp add: move_matching_future_to_current_def)
next
  case True
  obtain k q1 where q1: "move_matching_loop s n base None q = Some (if k = 0 then None else Some (n + k - 1), q1)"
      "queue_ok W q1" "frame q q1" "q_last_nonces q1 = q_last_nonces q" "promoted s base n k q q1"
    using move_matching_loop_ok [OF assms] by blast
  let ?t = "table_clear_if_empty s (ts_by_address (q_future q1))"
  let ?q = "q1\<lparr>q_future := (q_future q1)\<lparr>ts_by_address := ?t\<rparr>\<rparr>"
  let ?q' = "if k = 0 then ?q else ?q\<lparr>q_last_nonces := (q_last_nonces ?q)(s \<mapsto> n + k - 1)\<rparr>"
  have C: "consistent (q_strategy q1) W (q_by_hash q1) (q_future q1) (q_current q1) {#}" "local_ok (q_local q1)"
    using q1(2) consistent_sym by (auto simp: queue_ok_def)
  note t = table_clear_if_empty_ok [OF set_okD(1) [OF consistentD(1) [OF C(1)]], of s]
  note row = row_change [OF C(1) t]
  have "queue_ok W ?q'" using consistent_sym [OF row(1)] C(2) by (simp add: queue_ok_def)
  moreover have "promoted s base n k q ?q'" using q1(5) row(2) by (simp add: promoted_def)
  moreover have "frame q ?q'" using q1(3) by (simp add: frame_def)
  moreover have "move_matching_future_to_current s n base q = Some ?q'"
    using True q1(1) by (simp add: move_matching_future_to_current_def Let_def)
  ultimately show ?thesis using q1(4) by (intro exI [of _ k] exI [of _ ?q']) simp
qed

end
