(* ===== verification/Queue_Invariant.thy ===== *)
theory Queue_Invariant
  imports Queue_Safety
begin

text \<open>
  Every operation of the transaction queue, whole: what it keeps and that it does not panic.

  \<^item> \<open>queue_ok\<close> (from Queue_Safety) ties the two sets to the hash index; \<open>last_bounded\<close> keeps the stored
    nonces in range; \<open>nonces_apart\<close> says that a sender's nonces in the current set are at most the
    recorded last nonce and those in the waiting set above it.
  \<^item> The first two are kept by every operation but \<open>queue_remove\<close> under any memory limit. The third needs
    that the limit of the current set drops nothing, and \<open>queue_remove\<close> needs the third.
\<close>

subsection \<open>Hashes in the queue\<close>

definition known :: "tx_queue \<Rightarrow> bytes \<Rightarrow> bool" where
  "known q h \<longleftrightarrow> (\<exists>s n x. (cells (q_current q) s n = Some x \<or> cells (q_future q) s n = Some x) \<and> to_hash x = h)"

lemma queue_okD:
  assumes "queue_ok W q"
  shows "consistent (q_strategy q) W (q_by_hash q) (q_current q) (q_future q) {#}"
    "consistent (q_strategy q) W (q_by_hash q) (q_future q) (q_current q) {#}" "local_ok (q_local q)"
    "set_ok (q_strategy q) (q_current q)" "set_ok (q_strategy q) (q_future q)" "W \<le> usize_max"
proof -
  show C: "consistent (q_strategy q) W (q_by_hash q) (q_current q) (q_future q) {#}" and "local_ok (q_local q)"
    using assms by (simp_all add: queue_ok_def)
  show "consistent (q_strategy q) W (q_by_hash q) (q_future q) (q_current q) {#}" by (rule consistent_sym [OF C])
  show "set_ok (q_strategy q) (q_current q)" "set_ok (q_strategy q) (q_future q)" "W \<le> usize_max"
    using consistentD [OF C] by simp_all
qed

lemma known_iff: "queue_ok W q \<Longrightarrow> known q h \<longleftrightarrow> map_of (q_by_hash q) h \<noteq> None"
proof -
  assume ok: "queue_ok W q"
  note C = consistentD(4) [OF queue_okD(1) [OF ok]]
  have mem: "x \<in> set (ts_by_priority (q_current q)) \<union> set (ts_by_priority (q_future q)) \<longleftrightarrow>
      (\<exists>s n. cells (q_current q) s n = Some x \<or> cells (q_future q) s n = Some x)" for x
    using priority_cell [OF queue_okD(4) [OF ok], of x] priority_cell [OF queue_okD(5) [OF ok], of x]
    by (simp add: ex_disj_distrib)
  have "map_of (q_by_hash q) h \<noteq> None \<longleftrightarrow> h \<in> set_mset (mset (map fst (q_by_hash q)))"
    by (simp add: map_of_eq_None_iff)
  also have "\<dots> \<longleftrightarrow> h \<in> to_hash ` (set (ts_by_priority (q_current q)) \<union> set (ts_by_priority (q_future q)))"
    unfolding C by (auto simp: set_bag_def)
  also have "\<dots> \<longleftrightarrow> known q h"
    unfolding known_def image_iff Bex_def mem by blast
  finally show ?thesis by simp
qed

lemma queue_backed:
  assumes "queue_ok W q"
  shows "cells (q_current q) s n = Some x \<Longrightarrow> backed (q_strategy q) (q_by_hash q) s n x"
    "cells (q_future q) s n = Some x \<Longrightarrow> backed (q_strategy q) (q_by_hash q) s n x"
  using consistent_backed [OF queue_okD(1) [OF assms]] by blast+

lemma queue_tx:
  assumes "queue_ok W q" and "map_of (q_by_hash q) h = Some tx"
  shows "tx_bounded tx"
    "\<exists>x. (cells (q_current q) (vt_sender tx) (vt_nonce tx) = Some x \<or> cells (q_future q) (vt_sender tx) (vt_nonce tx) = Some x) \<and>
       to_hash x = h"
proof -
  have "known q h" using known_iff [OF assms(1)] assms(2) by simp
  then obtain s n x where x: "cells (q_current q) s n = Some x \<or> cells (q_future q) s n = Some x" "to_hash x = h"
    by (auto simp: known_def)
  then have "backed (q_strategy q) (q_by_hash q) s n x" using queue_backed [OF assms(1)] by blast
  then have "tx_bounded tx \<and> vt_sender tx = s \<and> vt_nonce tx = n" using assms(2) x(2) by (auto simp: backed_def)
  then show "tx_bounded tx" "\<exists>x. (cells (q_current q) (vt_sender tx) (vt_nonce tx) = Some x \<or>
      cells (q_future q) (vt_sender tx) (vt_nonce tx) = Some x) \<and> to_hash x = h"
    using x by auto
qed

lemma merged_hash: "to_hash (merged x v) = to_hash x \<or> (\<exists>y. v = Some y \<and> to_hash (merged x v) = to_hash y)"
  by (auto simp: merged_def split: option.splits)

lemma promoted_known:
  assumes "promoted s base n k q q'" and "known q' h"
  shows "known q h"
proof -
  have fut: "cells (q_future q') r m = Some x \<Longrightarrow> cells (q_future q) r m = Some x" for r m x
    using assms(1) by (auto simp: promoted_def split: if_splits)
  have "known q (to_hash x)" if x: "cells (q_current q') r m = Some x" for r m x
  proof (cases "r = s \<and> n \<le> m \<and> m < n + k")
    case True
    then have "m = n + (m - n)" "m - n < k" by auto
    then obtain y where y: "cells (q_future q) s m = Some y" using assms(1) by (fastforce simp: promoted_def)
    have "x = merged (reheight base m y) (cells (q_current q) s m)" using assms(1) x True y by (simp add: promoted_def)
    then have "to_hash x = to_hash y \<or> (\<exists>z. cells (q_current q) s m = Some z \<and> to_hash x = to_hash z)"
      using merged_hash [of "reheight base m y" "cells (q_current q) s m"] by simp
    then show ?thesis using y unfolding known_def by metis
  next
    case False
    then have "cells (q_current q') r m = cells (q_current q) r m" using assms(1) by (auto simp: promoted_def)
    then show ?thesis using x unfolding known_def by metis
  qed
  then show ?thesis using assms(2) fut unfolding known_def by metis
qed

subsection \<open>Nonces of a sender in the two sets\<close>

definition sender_apart :: "(nat \<Rightarrow> tx_order option) \<Rightarrow> (nat \<Rightarrow> tx_order option) \<Rightarrow> nat option \<Rightarrow> bool" where
  "sender_apart cur fut l \<longleftrightarrow>
     (\<forall>m. cur m \<noteq> None \<longrightarrow> (\<exists>k. l = Some k \<and> m \<le> k)) \<and> (\<forall>m k. fut m \<noteq> None \<longrightarrow> l = Some k \<longrightarrow> k < m)"

definition nonces_apart :: "tx_queue \<Rightarrow> bool" where
  "nonces_apart q \<longleftrightarrow> (\<forall>s. sender_apart (cells (q_current q) s) (cells (q_future q) s) (q_last_nonces q s))"

definition last_bounded :: "tx_queue \<Rightarrow> bool" where
  "last_bounded q \<longleftrightarrow> (\<forall>s n. q_last_nonces q s = Some n \<longrightarrow> n < 2 ^ 128)"

lemma sender_apart_mono:
  assumes "sender_apart cur fut l" and "\<And>m. cur' m \<noteq> None \<Longrightarrow> cur m \<noteq> None" and "\<And>m. fut' m \<noteq> None \<Longrightarrow> fut m \<noteq> None"
  shows "sender_apart cur' fut' l"
  using assms unfolding sender_apart_def by metis

lemma sender_apart_promote:
  assumes "sender_apart cur fut l" and "\<And>m. n \<le> m \<Longrightarrow> m < n + k \<Longrightarrow> fut m \<noteq> None" and "fut (n + k) = None"
    and "\<And>m. 0 < k \<Longrightarrow> fut m \<noteq> None \<Longrightarrow> n \<le> m" and "0 < k"
  shows "sender_apart (\<lambda>m. if n \<le> m \<and> m < n + k then Some (f m) else cur m)
    (\<lambda>m. if n \<le> m \<and> m < n + k then None else fut m) (Some (n + k - 1))"
proof -
  have "fut n \<noteq> None" using assms(2) [of n] assms(5) by simp
  then have "cur m \<noteq> None \<Longrightarrow> m \<le> n" for m using assms(1) unfolding sender_apart_def by force
  moreover have "n + k < m" if "fut m \<noteq> None" "\<not> (n \<le> m \<and> m < n + k)" for m
    using assms(3) assms(4) [OF assms(5) that(1)] that by (cases "m = n + k") auto
  ultimately show ?thesis
    using assms(5) unfolding sender_apart_def by (auto split: if_splits) (fastforce, metis Suc_leI diff_le_self le_trans less_imp_le not_less)
qed

lemma promotedD:
  assumes "promoted s base n k q q'"
  shows "n \<le> m \<Longrightarrow> m < n + k \<Longrightarrow> cells (q_future q) s m \<noteq> None" "cells (q_future q) s (n + k) = None"
    "cells (q_future q') s = (\<lambda>m. if n \<le> m \<and> m < n + k then None else cells (q_future q) s m)"
    "cells (q_current q') s = (\<lambda>m. if n \<le> m \<and> m < n + k
        then Some (merged (reheight base m (the (cells (q_future q) s m))) (cells (q_current q) s m))
        else cells (q_current q) s m)"
    "r \<noteq> s \<Longrightarrow> cells (q_future q') r = cells (q_future q) r" "r \<noteq> s \<Longrightarrow> cells (q_current q') r = cells (q_current q) r"
proof -
  show "cells (q_future q) s m \<noteq> None" if "n \<le> m" "m < n + k"
  proof -
    have "m = n + (m - n)" "m - n < k" using that by auto
    then show ?thesis using assms unfolding promoted_def by metis
  qed
qed (use assms in \<open>auto simp: promoted_def fun_eq_iff\<close>)

lemma promoted_0D:
  assumes "promoted s base n 0 q q'"
  shows "cells (q_future q') = cells (q_future q)" "cells (q_current q') = cells (q_current q)"
  using assms by (auto simp: promoted_def fun_eq_iff)

lemma apart_promoted:
  assumes "nonces_apart q" and P: "promoted s base n k q q'" and "\<And>m. 0 < k \<Longrightarrow> cells (q_future q) s m \<noteq> None \<Longrightarrow> n \<le> m"
    and "q_last_nonces q' = (if k = 0 then q_last_nonces q else (q_last_nonces q)(s \<mapsto> n + k - 1))"
  shows "nonces_apart q'"
proof (cases "k = 0")
  case True
  then show ?thesis using assms(1,4) promoted_0D P by (auto simp: nonces_apart_def)
next
  case False
  note D = promotedD [OF P]
  have A: "sender_apart (cells (q_current q) r) (cells (q_future q) r) (q_last_nonces q r)" for r
    using assms(1) by (simp add: nonces_apart_def)
  have "sender_apart (cells (q_current q') s) (cells (q_future q') s) (Some (n + k - 1))"
    unfolding D(3,4) by (rule sender_apart_promote [OF A [of s]]) (use D(1,2) assms(3) False in \<open>blast+\<close>)
  moreover have "sender_apart (cells (q_current q') r) (cells (q_future q') r) (q_last_nonces q r)" if "r \<noteq> s" for r
    using A [of r] D(5,6) [OF that] by simp
  ultimately show ?thesis using False assms(4) by (simp add: nonces_apart_def)
qed

lemma bounded_promoted:
  assumes "last_bounded q" and "queue_ok W q" and P: "promoted s base n k q q'"
    and "q_last_nonces q' = (if k = 0 then q_last_nonces q else (q_last_nonces q)(s \<mapsto> n + k - 1))"
  shows "last_bounded q'"
proof -
  have "n + k - 1 < 2 ^ 128" if "0 < k"
    using promotedD(1) [OF P, of "n + k - 1"] queue_nonce [OF assms(2), of s "n + k - 1"] that by simp
  then show ?thesis using assms(1,4) unfolding last_bounded_def by auto
qed

subsection \<open>Importing a transaction\<close>

definition tx_weight :: "(bytes \<Rightarrow> nat) \<Rightarrow> verified_transaction \<Rightarrow> nat" where
  "tx_weight heap_size tx = heap_size (t_data (ut_unsigned (st_transaction (vt_transaction tx))))"

definition new_order :: "(bytes \<Rightarrow> nat) \<Rightarrow> verified_transaction \<Rightarrow> nat \<Rightarrow> strategy \<Rightarrow> tx_order" where
  "new_order heap_size tx base st =
     \<lparr>to_nonce_height = vt_nonce tx - base, to_gas_price = vt_gas_price tx,
      to_gas_factor = vt_gas_limit tx div 2 ^ 15 * 10000000000, to_gas = vt_gas_limit tx,
      to_memory_usage = tx_weight heap_size tx, to_strategy = st, to_hash = vt_hash tx,
      to_insertion_id = vt_insertion_id tx, to_origin = vt_origin tx, to_penalties = 0\<rparr>"

lemma for_transaction_ok:
  assumes "tx_bounded tx" and "base \<le> vt_nonce tx"
  shows "for_transaction heap_size tx base st = Some (new_order heap_size tx base st)"
proof -
  have "vt_gas_limit tx div 2 ^ 15 < 2 ^ 64"
    using assms(1) div_le_dividend [of "vt_gas_limit tx" "2 ^ 15"] unfolding tx_bounded_def by linarith
  then have "vt_gas_limit tx div 2 ^ 15 * 10000000000 < 2 ^ 256" by simp
  then show ?thesis
    using assms(2) by (simp add: for_transaction_def u256_mul_def u256_sub_def new_order_def tx_weight_def)
qed

definition replaces :: "tx_order \<Rightarrow> tx_order option \<Rightarrow> bool" where
  "replaces x v \<longleftrightarrow> (case v of None \<Rightarrow> True | Some y \<Rightarrow> outbids x y)"

lemma replace_transaction_ok:
  assumes C: "consistent st W by_hash S T {#}" and h: "map_of by_hash (vt_hash tx) = None" and "base \<le> vt_nonce tx"
    and b: "tx_bounded tx" and W: "W + tx_weight heap_size tx \<le> usize_max" and l: "local_ok loc"
  defines "x \<equiv> new_order heap_size tx base st" and "v \<equiv> cells S (vt_sender tx) (vt_nonce tx)"
  shows "\<exists>S' by_hash' loc'. replace_transaction heap_size tx base st S by_hash loc = Some (S', by_hash', loc', replaces x v) \<and>
    consistent st (W + tx_weight heap_size tx) by_hash' S' T {#} \<and> local_ok loc' \<and>
    one_cell S S' (vt_sender tx) (vt_nonce tx) (Some (merged x v)) \<and>
    (\<forall>y. v = Some y \<longrightarrow>
      by_hash' = AList.delete (to_hash (if outbids x y then y else x)) (AList.update (vt_hash tx) tx by_hash))"
proof -
  have x: "to_hash x = vt_hash tx" "to_strategy x = st" "to_gas_price x = vt_gas_price tx"
      "to_memory_usage x = tx_weight heap_size tx"
    by (simp_all add: x_def new_order_def)
  have "consistent st (W + tx_weight heap_size tx) (AList.update (vt_hash tx) tx by_hash) S T {#(vt_sender tx, vt_nonce tx, x)#}"
    using arrive_move [OF C, of x tx] h x b W by simp
  from put_or_replace [OF this same_tx_refl l]
  obtain S1 S2 by_hash' loc' where R: "set_insert (vt_sender tx) (vt_nonce tx) x S = Some (S1, v)"
      "case v of None \<Rightarrow> S2 = S1 \<and> by_hash' = AList.update (vt_hash tx) tx by_hash \<and> loc' = loc
       | Some old \<Rightarrow> replace_orders (vt_sender tx) (vt_nonce tx) old x S1 (AList.update (vt_hash tx) tx by_hash) loc =
           Some (S2, by_hash', loc', outbids x old)"
      "consistent st (W + tx_weight heap_size tx) by_hash' S2 T {#}" "local_ok loc'"
      "one_cell S S2 (vt_sender tx) (vt_nonce tx) (Some (merged x v))"
      "\<forall>y. v = Some y \<longrightarrow>
        by_hash' = AList.delete (to_hash (if outbids x y then y else x)) (AList.update (vt_hash tx) tx by_hash)"
    unfolding v_def by blast
  have "for_transaction heap_size tx base st = Some x" unfolding x_def by (rule for_transaction_ok [OF b assms(3)])
  then have "replace_transaction heap_size tx base st S by_hash loc = Some (S2, by_hash', loc', replaces x v)"
    using R(1,2) h by (cases v) (simp_all add: replace_transaction_def replaces_def)
  then show ?thesis using R(3-6) by blast
qed

lemma pick_dropped_bounded:
  "pick_dropped by_hash limit usage xs = Some ks \<Longrightarrow> (\<And>h tx. map_of by_hash h = Some tx \<Longrightarrow> vt_nonce tx < B) \<Longrightarrow>
    list_all (\<lambda>(s, n). n < B) ks"
  by (induction xs arbitrary: usage ks) (auto split: if_splits bind_splits)

lemma alist_update_all:
  "list_all P xs \<Longrightarrow> P (k, v) \<Longrightarrow> list_all P (AList.update k v xs)"
  by (induction xs) auto

lemma drop_picked_bounded:
  "drop_picked ks S by_hash loc rem = Some (S', by_hash', loc', rem') \<Longrightarrow> list_all (\<lambda>(s, n). n < B) ks \<Longrightarrow>
    list_all (\<lambda>(s, n). n < B) rem \<Longrightarrow> list_all (\<lambda>(s, n). n < B) rem'"
proof (induction ks S by_hash loc rem rule: drop_picked.induct)
  case (2 sender nonce rest S by_hash loc removed)
  let ?m = "case map_of removed sender of None \<Rightarrow> nonce | Some val \<Rightarrow> min val nonce"
  have "?m < B" using "2.prems"(2) by (auto split: option.splits)
  then have "list_all (\<lambda>(s, n). n < B) (AList.update sender ?m removed)"
    using "2.prems"(3) by (intro alist_update_all) simp_all
  then show ?case using "2.IH" "2.prems"(1,2) by (auto simp: Let_def split: bind_splits)
qed simp

lemma enforce_limit_bounded:
  assumes "enforce_limit by_hash loc S = Some (S', by_hash', loc', rem)"
    and "\<And>h tx. map_of by_hash h = Some tx \<Longrightarrow> vt_nonce tx < B"
  shows "list_all (\<lambda>(s, n). n < B) rem"
  using assms(1) pick_dropped_bounded [OF _ assms(2)] drop_picked_bounded
  by (fastforce simp: enforce_limit_def split: if_splits bind_splits)

lemma update_last_nonces_bounded:
  "list_all (\<lambda>(s, n). n < B) rem \<Longrightarrow> (\<And>s n. lns s = Some n \<Longrightarrow> n < B) \<Longrightarrow> update_last_nonces rem lns s = Some n \<Longrightarrow> n < B"
proof (induction rem arbitrary: lns)
  case (Cons p rem)
  obtain r m where p: "p = (r, m)" by fastforce
  have "(if m = 0 then lns(r := None) else lns(r \<mapsto> m - 1)) s = Some n \<Longrightarrow> n < B" for s n
    using Cons.prems(1,2) p by (auto split: if_splits)
  then show ?case using Cons.IH Cons.prems(1,3) p by (auto simp: update_last_nonces_def)
qed (simp add: update_last_nonces_def)

lemma tx_nonce_bound: "queue_ok W q \<Longrightarrow> map_of (q_by_hash q) h = Some tx \<Longrightarrow> vt_nonce tx < 2 ^ 128"
  using queue_tx(1) by (simp add: tx_bounded_def)

text \<open>The hashes after one transaction has been put into a set and the limit has been enforced.\<close>

lemma put_hashes:
  assumes "one_cell S S' s n (Some (merged x (cells S s n)))" and "\<And>r m. cells S'' r m = None \<or> cells S'' r m = cells S' r m"
    and "cells S'' r m = Some y"
  shows "to_hash y = to_hash x \<or> (\<exists>z. cells S r m = Some z \<and> to_hash z = to_hash y)"
proof -
  have "cells S' r m = Some y" using assms(2) [of r m] assms(3) by auto
  then show ?thesis using assms(1) merged_hash [of x "cells S s n"] by (auto simp: one_cell_def split: if_splits)
qed

lemma checks_no_panic:
  "try_ok (check_if_removed s n rem) (\<lambda>_. Ok v) \<noteq> Panic" "check_too_cheap b = Ok () \<and> b \<or> check_too_cheap b = Err TooCheapToReplace \<and> \<not> b"
  by (auto simp: check_if_removed_def check_too_cheap_def split: option.splits)

lemma import_future_ok:
  assumes ok: "queue_ok W q" and h: "map_of (q_by_hash q) (vt_hash tx) = None" and "base \<le> vt_nonce tx"
    and b: "tx_bounded tx" and W: "W + tx_weight heap_size tx \<le> usize_max"
  shows "\<exists>q' r. import_future heap_size tx base q = Some (q', r) \<and> r \<noteq> Panic \<and> queue_ok (W + tx_weight heap_size tx) q' \<and>
    frame q q' \<and> q_last_nonces q' = q_last_nonces q \<and> q_current q' = q_current q \<and>
    (\<forall>r m. cells (q_future q') r m \<noteq> None \<longrightarrow> r = vt_sender tx \<and> m = vt_nonce tx \<or> cells (q_future q) r m \<noteq> None) \<and>
    (\<forall>h. known q' h \<longrightarrow> known q h \<or> h = vt_hash tx)"
proof -
  note Q = queue_okD [OF ok]
  let ?x = "new_order heap_size tx base (q_strategy q)"
  let ?v = "cells (q_future q) (vt_sender tx) (vt_nonce tx)"
  let ?W = "W + tx_weight heap_size tx"
  obtain S by_hash loc where R: "replace_transaction heap_size tx base (q_strategy q) (q_future q) (q_by_hash q) (q_local q) =
        Some (S, by_hash, loc, replaces ?x ?v)" "consistent (q_strategy q) ?W by_hash S (q_current q) {#}" "local_ok loc"
      "one_cell (q_future q) S (vt_sender tx) (vt_nonce tx) (Some (merged ?x ?v))"
    using replace_transaction_ok [OF Q(2) h assms(3) b W Q(3)] by blast
  obtain S' by_hash' loc' rem where E: "enforce_limit by_hash loc S = Some (S', by_hash', loc', rem)"
      "consistent (q_strategy q) ?W by_hash' S' (q_current q) {#}" "local_ok loc'" "ts_memory_limit S' = ts_memory_limit S"
      "\<forall>r c. cells S' r c = None \<or> cells S' r c = cells S r c"
    using enforce_limit_ok [OF R(2,3)] by blast
  let ?q1 = "q\<lparr>q_future := S, q_by_hash := by_hash, q_local := loc\<rparr>"
  let ?q2 = "q\<lparr>q_future := S', q_by_hash := by_hash', q_local := loc'\<rparr>"
  have ok': "queue_ok ?W ?q1" "queue_ok ?W ?q2"
    using consistent_sym [OF R(2)] R(3) consistent_sym [OF E(2)] E(3) by (simp_all add: queue_ok_def)
  have fr: "frame q ?q1" "frame q ?q2" using R(4) E(4) by (simp_all add: frame_def one_cell_def)
  have hash: "to_hash ?x = vt_hash tx" by (simp add: new_order_def)
  have "known q h \<or> h = vt_hash tx" if "known (q\<lparr>q_future := T, q_by_hash := bh, q_local := lo\<rparr>) h"
    and T: "\<And>r m. cells T r m = None \<or> cells T r m = cells S r m" for T bh lo h
    using that(1) put_hashes [OF R(4) T] hash unfolding known_def by (simp) metis
  then have known: "\<forall>h. known ?q1 h \<longrightarrow> known q h \<or> h = vt_hash tx" "\<forall>h. known ?q2 h \<longrightarrow> known q h \<or> h = vt_hash tx"
    using E(5) by blast+
  have cell: "cells S r m \<noteq> None \<Longrightarrow> r = vt_sender tx \<and> m = vt_nonce tx \<or> cells (q_future q) r m \<noteq> None" for r m
    using R(4) by (auto simp: one_cell_def split: if_splits)
  have cell': "cells S' r m \<noteq> None \<Longrightarrow> r = vt_sender tx \<and> m = vt_nonce tx \<or> cells (q_future q) r m \<noteq> None" for r m
    using E(5) cell by metis
  consider "replaces ?x ?v" | "\<not> replaces ?x ?v" by blast
  then show ?thesis
  proof cases
    case 1
    then have "import_future heap_size tx base q = Some (?q2, try_ok (check_if_removed (vt_sender tx) (vt_nonce tx) rem) (\<lambda>_. Ok ImportFuture))"
      using R(1) E(1) by (simp add: import_future_def check_too_cheap_def Let_def)
    then show ?thesis using ok'(2) fr(2) cell' known(2) checks_no_panic(1) by (intro exI conjI) (assumption | simp)+
  next
    case 2
    then have "import_future heap_size tx base q = Some (?q1, Err TooCheapToReplace)"
      using R(1) by (simp add: import_future_def check_too_cheap_def Let_def)
    then show ?thesis using ok'(1) fr(1) cell known(1) by (intro exI conjI) (assumption | simp)+
  qed
qed

lemma place_current_ok:
  assumes ok: "queue_ok W q" and h: "map_of (q_by_hash q) (vt_hash tx) = None" and "base \<le> vt_nonce tx"
    and b: "tx_bounded tx" and W: "W + tx_weight heap_size tx \<le> usize_max" and lb: "last_bounded q"
  shows "\<exists>q' r. place_current heap_size tx base q = Some (q', r) \<and> r \<noteq> Panic \<and> queue_ok (W + tx_weight heap_size tx) q' \<and>
    frame q q' \<and> last_bounded q' \<and> q_future q' = q_future q \<and> (\<forall>h. known q' h \<longrightarrow> known q h \<or> h = vt_hash tx) \<and>
    (W + tx_weight heap_size tx \<le> ts_memory_limit (q_current q) \<longrightarrow>
      one_cell (q_current q) (q_current q') (vt_sender tx) (vt_nonce tx)
        (Some (merged (new_order heap_size tx base (q_strategy q)) (cells (q_current q) (vt_sender tx) (vt_nonce tx)))) \<and>
      (if replaces (new_order heap_size tx base (q_strategy q)) (cells (q_current q) (vt_sender tx) (vt_nonce tx))
       then r = Ok ImportCurrent \<and> q_last_nonces q' = (q_last_nonces q)(vt_sender tx \<mapsto>
         (case q_last_nonces q (vt_sender tx) of None \<Rightarrow> vt_nonce tx | Some n \<Rightarrow> max (vt_nonce tx) n))
       else r = Err TooCheapToReplace \<and> q_last_nonces q' = q_last_nonces q))"
proof -
  note Q = queue_okD [OF ok]
  let ?x = "new_order heap_size tx base (q_strategy q)"
  let ?v = "cells (q_current q) (vt_sender tx) (vt_nonce tx)"
  let ?W = "W + tx_weight heap_size tx"
  let ?lns = "(q_last_nonces q)(vt_sender tx \<mapsto>
         (case q_last_nonces q (vt_sender tx) of None \<Rightarrow> vt_nonce tx | Some n \<Rightarrow> max (vt_nonce tx) n))"
  obtain S by_hash loc where R: "replace_transaction heap_size tx base (q_strategy q) (q_current q) (q_by_hash q) (q_local q) =
        Some (S, by_hash, loc, replaces ?x ?v)" "consistent (q_strategy q) ?W by_hash S (q_future q) {#}" "local_ok loc"
      "one_cell (q_current q) S (vt_sender tx) (vt_nonce tx) (Some (merged ?x ?v))"
    using replace_transaction_ok [OF Q(1) h assms(3) b W Q(3)] by blast
  obtain S' by_hash' loc' rem where E: "enforce_limit by_hash loc S = Some (S', by_hash', loc', rem)"
      "consistent (q_strategy q) ?W by_hash' S' (q_future q) {#}" "local_ok loc'" "ts_memory_limit S' = ts_memory_limit S"
      "ts_memory_usage S \<le> ts_memory_limit S \<longrightarrow> S' = S \<and> by_hash' = by_hash \<and> loc' = loc \<and> rem = []"
      "\<forall>r c. cells S' r c = None \<or> cells S' r c = cells S r c"
    using enforce_limit_ok [OF R(2,3)] by blast
  let ?q1 = "q\<lparr>q_current := S, q_by_hash := by_hash, q_local := loc\<rparr>"
  let ?q2 = "q\<lparr>q_current := S', q_by_hash := by_hash', q_local := loc', q_last_nonces := update_last_nonces rem ?lns\<rparr>"
  have ok': "queue_ok ?W ?q1" "queue_ok ?W ?q2" using R(2,3) E(2,3) by (simp_all add: queue_ok_def)
  have fr: "frame q ?q1" "frame q ?q2" using R(4) E(4) by (simp_all add: frame_def one_cell_def)
  have hash: "to_hash ?x = vt_hash tx" by (simp add: new_order_def)
  have "known q h \<or> h = vt_hash tx" if "known (q\<lparr>q_current := T, q_by_hash := bh, q_local := lo, q_last_nonces := ln\<rparr>) h"
    and T: "\<And>r m. cells T r m = None \<or> cells T r m = cells S r m" for T bh lo ln h
    using that(1) put_hashes [OF R(4) T] hash unfolding known_def by (simp) metis
  then have known2: "\<forall>h. known ?q2 h \<longrightarrow> known q h \<or> h = vt_hash tx" using E(6) by blast
  have known1: "\<forall>h. known ?q1 h \<longrightarrow> known q h \<or> h = vt_hash tx"
    using put_hashes [OF R(4), of S] hash unfolding known_def by (simp) metis
  have rem: "list_all (\<lambda>(s, n). n < 2 ^ 128) rem"
    by (rule enforce_limit_bounded [OF E(1)]) (use tx_nonce_bound [OF ok'(1)] in simp)
  have lns: "n < 2 ^ 128" if "?lns s = Some n" for s n
    using that lb b by (auto simp: last_bounded_def tx_bounded_def split: if_splits option.splits)
  have lb': "last_bounded ?q2"
  proof (unfold last_bounded_def, intro allI impI)
    fix s n
    assume "q_last_nonces ?q2 s = Some n"
    then have "update_last_nonces rem ?lns s = Some n" by simp
    then show "n < 2 ^ 128" by (rule update_last_nonces_bounded [OF rem, of ?lns, rotated]) (rule lns)
  qed
  have no_drop: "S' = S \<and> rem = []" if "?W \<le> ts_memory_limit (q_current q)"
    using E(5) consistentD(5) [OF R(2)] R(4) that by (simp add: one_cell_def)
  consider "replaces ?x ?v" | "\<not> replaces ?x ?v" by blast
  then show ?thesis
  proof cases
    case 1
    then have "place_current heap_size tx base q = Some (?q2, try_ok (check_if_removed (vt_sender tx) (vt_nonce tx) rem) (\<lambda>_. Ok ImportCurrent))"
      using R(1) E(1) by (simp add: place_current_def check_too_cheap_def Let_def)
    moreover have "one_cell (q_current q) S' (vt_sender tx) (vt_nonce tx) (Some (merged ?x ?v)) \<and>
        try_ok (check_if_removed (vt_sender tx) (vt_nonce tx) rem) (\<lambda>_. Ok ImportCurrent) = Ok ImportCurrent \<and>
        update_last_nonces rem ?lns = ?lns" if "?W \<le> ts_memory_limit (q_current q)"
      using no_drop [OF that] R(4) by (simp add: check_if_removed_def update_last_nonces_def)
    moreover have "q_future ?q2 = q_future q" "q_current ?q2 = S'" "q_last_nonces ?q2 = update_last_nonces rem ?lns"
      by simp_all
    ultimately show ?thesis using ok'(2) fr(2) lb' checks_no_panic(1) 1 known2
      by (intro exI [of _ ?q2] exI conjI impI) (assumption | simp only: if_True simp_thms | blast)+
  next
    case 2
    then have "place_current heap_size tx base q = Some (?q1, Err TooCheapToReplace)"
      using R(1) by (simp add: place_current_def check_too_cheap_def Let_def)
    moreover have "last_bounded ?q1" "q_future ?q1 = q_future q" "q_current ?q1 = S" "q_last_nonces ?q1 = q_last_nonces q"
      using lb by (simp_all add: last_bounded_def)
    ultimately show ?thesis using ok'(1) fr(1) 2 R(4) known1
      by (intro exI [of _ ?q1] exI conjI impI) (assumption | simp only: if_False simp_thms outcome.distinct)+
  qed
qed

lemma place_apart:
  assumes A: "nonces_apart q" and f: "q_future q' = q_future q"
    and c: "one_cell (q_current q) (q_current q') s n (Some (merged x (cells (q_current q) s n)))"
    and l: "if replaces x (cells (q_current q) s n)
      then q_last_nonces q' = (q_last_nonces q)(s \<mapsto> (case q_last_nonces q s of None \<Rightarrow> n | Some m \<Rightarrow> max n m))
      else q_last_nonces q' = q_last_nonces q"
    and above: "\<And>m. cells (q_future q) s m \<noteq> None \<Longrightarrow> n < m"
  shows "nonces_apart q'"
  unfolding nonces_apart_def
proof
  fix r
  have A': "sender_apart (cells (q_current q) r) (cells (q_future q) r) (q_last_nonces q r)"
    using A by (simp add: nonces_apart_def)
  have cur: "cells (q_current q') r m \<noteq> None \<Longrightarrow> r = s \<and> m = n \<or> cells (q_current q) r m \<noteq> None" for m
    using c by (auto simp: one_cell_def split: if_splits)
  show "sender_apart (cells (q_current q') r) (cells (q_future q') r) (q_last_nonces q' r)"
  proof (cases "r = s \<and> replaces x (cells (q_current q) s n)")
    case True
    let ?l = "case q_last_nonces q s of None \<Rightarrow> n | Some m \<Rightarrow> max n m"
    have "q_last_nonces q' s = Some ?l" using l True by simp
    moreover have "m \<le> ?l" if "cells (q_current q') s m \<noteq> None" for m
      using cur [of m] that A' True by (auto simp: sender_apart_def split: option.splits)
    moreover have "?l < m" if "cells (q_future q') s m \<noteq> None" for m
      using above [of m] that A' True f by (auto simp: sender_apart_def split: option.splits)
    ultimately show ?thesis using True by (simp add: sender_apart_def)
  next
    case False
    then have "q_last_nonces q' r = q_last_nonces q r" using l by (auto split: if_splits)
    moreover have "cells (q_current q) r m \<noteq> None" if "cells (q_current q') r m \<noteq> None" for m
      using cur [OF that] False by (cases "cells (q_current q) s n") (auto simp: replaces_def)
    ultimately show ?thesis using sender_apart_mono [OF A'] f by simp
  qed
qed

lemma import_current_ok:
  assumes ok: "queue_ok W q" and h: "map_of (q_by_hash q) (vt_hash tx) = None" and base: "base \<le> vt_nonce tx"
    and b: "tx_bounded tx" and W: "W + tx_weight heap_size tx \<le> usize_max" and lb: "last_bounded q"
  shows "\<exists>q' r. import_current heap_size tx base q = Some (q', r) \<and> r \<noteq> Panic \<and> queue_ok (W + tx_weight heap_size tx) q' \<and>
    frame q q' \<and> last_bounded q' \<and> (\<forall>h. known q' h \<longrightarrow> known q h \<or> h = vt_hash tx) \<and>
    (W + tx_weight heap_size tx \<le> ts_memory_limit (q_current q) \<longrightarrow> nonces_apart q \<longrightarrow>
      (\<forall>m. cells (q_future q) (vt_sender tx) m \<noteq> None \<longrightarrow> vt_nonce tx \<le> m) \<longrightarrow> nonces_apart q')"
proof -
  let ?s = "vt_sender tx" and ?n = "vt_nonce tx"
  obtain k q1 where q1: "move_matching_future_to_current ?s ?n base q = Some q1" "queue_ok W q1" "frame q q1"
      "promoted ?s base ?n k q q1"
      "q_last_nonces q1 = (if k = 0 then q_last_nonces q else (q_last_nonces q)(?s \<mapsto> ?n + k - 1))"
    using move_matching_ok [OF ok base] by blast
  have "u256_add ?n 1 = Some (Suc ?n)" using b by (simp add: tx_bounded_def u256_add_def)
  moreover obtain k' q2 where q2: "move_matching_future_to_current ?s (Suc ?n) base q1 = Some q2" "queue_ok W q2" "frame q1 q2"
      "promoted ?s base (Suc ?n) k' q1 q2"
      "q_last_nonces q2 = (if k' = 0 then q_last_nonces q1 else (q_last_nonces q1)(?s \<mapsto> Suc ?n + k' - 1))"
    using move_matching_ok [OF q1(2), of base "Suc ?n"] base by (metis le_SucI)
  moreover have lb': "last_bounded q1" "last_bounded q2"
    using bounded_promoted [OF lb ok q1(4,5)] bounded_promoted [OF _ q1(2) q2(4,5)] by blast+
  moreover have "\<not> known q (vt_hash tx)" using known_iff [OF ok] h by simp
  then have h': "map_of (q_by_hash q2) (vt_hash tx) = None"
    using known_iff [OF q2(2)] promoted_known [OF q2(4)] promoted_known [OF q1(4)] by blast
  ultimately obtain q' r where q': "import_current heap_size tx base q = Some (q', r)" "r \<noteq> Panic"
      "queue_ok (W + tx_weight heap_size tx) q'" "frame q2 q'" "last_bounded q'" "q_future q' = q_future q2"
      "W + tx_weight heap_size tx \<le> ts_memory_limit (q_current q2) \<longrightarrow>
        one_cell (q_current q2) (q_current q') ?s ?n
          (Some (merged (new_order heap_size tx base (q_strategy q2)) (cells (q_current q2) ?s ?n))) \<and>
        (if replaces (new_order heap_size tx base (q_strategy q2)) (cells (q_current q2) ?s ?n)
         then r = Ok ImportCurrent \<and> q_last_nonces q' = (q_last_nonces q2)(?s \<mapsto>
           (case q_last_nonces q2 ?s of None \<Rightarrow> ?n | Some n \<Rightarrow> max ?n n))
         else r = Err TooCheapToReplace \<and> q_last_nonces q' = q_last_nonces q2)"
      "\<forall>h. known q' h \<longrightarrow> known q2 h \<or> h = vt_hash tx"
    using place_current_ok [OF q2(2) h' base b W lb'(2)] q1(1) q2(1) by (auto simp: import_current_def)
  have fr: "frame q q2" "frame q q'" using frame_trans [OF q1(3) q2(3)] frame_trans q'(4) by blast+
  have "nonces_apart q'" if lim: "W + tx_weight heap_size tx \<le> ts_memory_limit (q_current q)" and A: "nonces_apart q"
    and above: "\<forall>m. cells (q_future q) ?s m \<noteq> None \<longrightarrow> ?n \<le> m"
  proof -
    have "cells (q_future q1) ?s m \<noteq> None \<Longrightarrow> Suc ?n \<le> m" for m
      using above promotedD(2,3) [OF q1(4)] by (cases "m = ?n"; cases k) (auto split: if_splits)
    moreover from this have "cells (q_future q2) ?s m \<noteq> None \<Longrightarrow> ?n < m" for m
      using promotedD(3) [OF q2(4)] by (fastforce split: if_splits)
    moreover have "nonces_apart q1" using apart_promoted [OF A q1(4) _ q1(5)] above by blast
    ultimately have "nonces_apart q2" and above': "\<And>m. cells (q_future q2) ?s m \<noteq> None \<Longrightarrow> ?n < m"
      using apart_promoted [OF _ q2(4) _ q2(5)] by blast+
    then show ?thesis
      using place_apart [OF _ q'(6), of ?s ?n "new_order heap_size tx base (q_strategy q2)"] q'(7) lim fr(1)
      by (auto simp: frame_def split: if_splits)
  qed
  moreover have "known q h \<or> h = vt_hash tx" if "known q' h" for h
    using q'(8) that promoted_known [OF q2(4)] promoted_known [OF q1(4)] by blast
  ultimately show ?thesis using q' fr(2) by blast
qed

lemma queue_ok_mono: "queue_ok W q \<Longrightarrow> W \<le> W' \<Longrightarrow> W' \<le> usize_max \<Longrightarrow> queue_ok W' q"
  unfolding queue_ok_def consistent_def by simp

lemma apart_mono:
  assumes "nonces_apart q" and "\<And>r m. cells (q_current q') r m \<noteq> None \<Longrightarrow> cells (q_current q) r m \<noteq> None"
    and "\<And>r m. cells (q_future q') r m \<noteq> None \<Longrightarrow> cells (q_future q) r m \<noteq> None" and "q_last_nonces q' = q_last_nonces q"
  shows "nonces_apart q'"
  unfolding nonces_apart_def assms(4)
proof
  fix r
  have "sender_apart (cells (q_current q) r) (cells (q_future q) r) (q_last_nonces q r)"
    using assms(1) by (simp add: nonces_apart_def)
  then show "sender_apart (cells (q_current q') r) (cells (q_future q') r) (q_last_nonces q r)"
    by (rule sender_apart_mono) (use assms(2,3) in \<open>blast+\<close>)
qed

lemma last_bounded_next: "last_bounded q \<Longrightarrow> q_last_nonces q s = Some n \<Longrightarrow> u256_add n 1 = Some (Suc n)"
proof -
  assume "last_bounded q" and "q_last_nonces q s = Some n"
  then have "n < 2 ^ 128" by (simp add: last_bounded_def)
  then show ?thesis by (simp add: u256_add_def)
qed

lemma updated_Some: "updated base m v = Some y \<Longrightarrow> base \<le> m \<and> (\<exists>x. v = Some x \<and> to_hash y = to_hash x)"
  by (auto simp: updated_def split: if_splits)

text \<open>Bringing the waiting set of a sender up to date with the account, as importing and removing begin.\<close>

lemma refresh_ok:
  assumes ok: "queue_ok W q" and lb: "last_bounded q"
  shows "\<exists>q1 q2. update_future s base q = Some q1 \<and> move_matching_future_to_current s base base q1 = Some q2 \<and>
    queue_ok W q2 \<and> frame q q2 \<and> last_bounded q2 \<and> (\<forall>h. known q2 h \<longrightarrow> known q h) \<and>
    (\<forall>m. cells (q_future q2) s m \<noteq> None \<longrightarrow> base \<le> m) \<and> (nonces_apart q \<longrightarrow> nonces_apart q2)"
proof -
  obtain q1 where q1: "update_future s base q = Some q1" "queue_ok W q1" "frame q q1" "q_current q1 = q_current q"
      "q_last_nonces q1 = q_last_nonces q"
      "\<And>r m. cells (q_future q1) r m = (if r = s then updated base m (cells (q_future q) s m) else cells (q_future q) r m)"
    using update_future_ok [OF ok] by blast
  obtain k q2 where q2: "move_matching_future_to_current s base base q1 = Some q2" "queue_ok W q2" "frame q1 q2"
      "promoted s base base k q1 q2"
      "q_last_nonces q2 = (if k = 0 then q_last_nonces q1 else (q_last_nonces q1)(s \<mapsto> base + k - 1))"
    using move_matching_ok [OF q1(2) order_refl] by blast
  have fut: "cells (q_future q1) r m = Some y \<Longrightarrow> (r = s \<longrightarrow> base \<le> m) \<and> (\<exists>x. cells (q_future q) r m = Some x \<and> to_hash y = to_hash x)" for r m y
    using q1(6) updated_Some by (auto split: if_splits)
  have "last_bounded q1" using lb q1(5) by (simp add: last_bounded_def)
  then have lb': "last_bounded q2" by (rule bounded_promoted [OF _ q1(2) q2(4,5)])
  have known: "known q h" if "known q2 h" for h
    using promoted_known [OF q2(4) that] fut unfolding known_def q1(4) by metis
  have above: "base \<le> m" if "cells (q_future q1) s m \<noteq> None" for m using fut that by blast
  then have above': "\<forall>m. cells (q_future q2) s m \<noteq> None \<longrightarrow> base \<le> m"
    using promotedD(3) [OF q2(4)] by (auto split: if_splits)
  have "nonces_apart q2" if "nonces_apart q"
  proof -
    have "nonces_apart q1" by (rule apart_mono [OF that _ _ q1(5)]) (use q1(4) fut in \<open>simp, blast\<close>)
    then show ?thesis by (rule apart_promoted [OF _ q2(4) _ q2(5)]) (rule above)
  qed
  then show ?thesis using q1(1) q2(1,2) frame_trans [OF q1(3) q2(3)] lb' known above' by blast
qed

lemma future_apart:
  assumes A: "nonces_apart q" and "q_last_nonces q' = q_last_nonces q" and "q_current q' = q_current q"
    and fut: "\<forall>r m. cells (q_future q') r m \<noteq> None \<longrightarrow> r = s \<and> m = n \<or> cells (q_future q) r m \<noteq> None"
    and n: "\<And>l. q_last_nonces q s = Some l \<Longrightarrow> l < n"
  shows "nonces_apart q'"
  unfolding nonces_apart_def assms(2,3)
proof
  fix r
  have "sender_apart (cells (q_current q) r) (cells (q_future q) r) (q_last_nonces q r)"
    using A by (simp add: nonces_apart_def)
  then show "sender_apart (cells (q_current q) r) (cells (q_future q') r) (q_last_nonces q r)"
    using fut n unfolding sender_apart_def by metis
qed

lemma import_tx_ok:
  assumes ok: "queue_ok W q" and b: "tx_bounded tx" and W: "W + tx_weight heap_size tx \<le> usize_max" and lb: "last_bounded q"
  shows "\<exists>q' r. import_tx heap_size tx base q = Some (q', r) \<and> r \<noteq> Panic \<and> queue_ok (W + tx_weight heap_size tx) q' \<and>
    frame q q' \<and> last_bounded q' \<and> (\<forall>h. known q' h \<longrightarrow> known q h \<or> h = vt_hash tx) \<and>
    (W + tx_weight heap_size tx \<le> ts_memory_limit (q_current q) \<longrightarrow> nonces_apart q \<longrightarrow> nonces_apart q')"
proof (cases "map_of (q_by_hash q) (vt_hash tx) \<noteq> None \<or> vt_nonce tx < base")
  case True
  then have "\<exists>e. import_tx heap_size tx base q = Some (q, Err e)" by (auto simp: import_tx_def)
  then show ?thesis using queue_ok_mono [OF ok _ W] lb by auto
next
  case False
  let ?s = "vt_sender tx" and ?n = "vt_nonce tx"
  obtain q1 q2 where R: "update_future ?s base q = Some q1" "move_matching_future_to_current ?s base base q1 = Some q2"
      "queue_ok W q2" "frame q q2" "last_bounded q2" "\<forall>h. known q2 h \<longrightarrow> known q h"
      "\<forall>m. cells (q_future q2) ?s m \<noteq> None \<longrightarrow> base \<le> m" "nonces_apart q \<longrightarrow> nonces_apart q2"
    using refresh_ok [OF ok lb] by blast
  let ?next = "case q_last_nonces q2 ?s of None \<Rightarrow> base | Some n \<Rightarrow> Suc n"
  have nxt: "(case q_last_nonces q2 ?s of None \<Rightarrow> Some base | Some n \<Rightarrow> u256_add n 1) = Some ?next"
    using last_bounded_next [OF R(5), of ?s] by (cases "q_last_nonces q2 ?s") simp_all
  have "\<exists>q3. (if is_local (vt_origin tx) then mark_transactions_local ?s q2 else Some q2) = Some q3 \<and> queue_ok W q3 \<and>
      frame q2 q3 \<and> q_last_nonces q3 = q_last_nonces q2 \<and> q_by_hash q3 = q_by_hash q2 \<and>
      (\<forall>r m. (cells (q_current q3) r m = None) = (cells (q_current q2) r m = None)) \<and>
      (\<forall>r m. (cells (q_future q3) r m = None) = (cells (q_future q2) r m = None))"
    using mark_transactions_local_ok [OF R(3), of ?s] R(3) by (cases "is_local (vt_origin tx)") simp_all
  then obtain q3 where q3: "(if is_local (vt_origin tx) then mark_transactions_local ?s q2 else Some q2) = Some q3"
      "queue_ok W q3" "frame q2 q3" "q_last_nonces q3 = q_last_nonces q2" "q_by_hash q3 = q_by_hash q2"
      "\<forall>r m. (cells (q_current q3) r m = None) = (cells (q_current q2) r m = None)"
      "\<forall>r m. (cells (q_future q3) r m = None) = (cells (q_future q2) r m = None)" by blast
  have h: "map_of (q_by_hash q3) (vt_hash tx) = None"
    using known_iff [OF ok] known_iff [OF R(3)] R(6) False q3(5) by auto
  have known3: "known q h" if "known q3 h" for h using that R(6) known_iff [OF q3(2)] known_iff [OF R(3)] q3(5) by simp
  have base: "base \<le> ?n" using False by simp
  have fr: "frame q q3" using frame_trans [OF R(4) q3(3)] .
  have lb3: "last_bounded q3" using R(5) q3(4) by (simp add: last_bounded_def)
  have A3: "nonces_apart q3" if "nonces_apart q"
    by (rule apart_mono [OF _ _ _ q3(4)]) (use R(8) that q3(6,7) in auto)
  show ?thesis
  proof (cases "?next < ?n")
    case True
    obtain q' r where q': "import_future heap_size tx base q3 = Some (q', r)" "r \<noteq> Panic"
        "queue_ok (W + tx_weight heap_size tx) q'" "frame q3 q'" "q_last_nonces q' = q_last_nonces q3" "q_current q' = q_current q3"
        "\<forall>r m. cells (q_future q') r m \<noteq> None \<longrightarrow> r = ?s \<and> m = ?n \<or> cells (q_future q3) r m \<noteq> None"
        "\<forall>h. known q' h \<longrightarrow> known q3 h \<or> h = vt_hash tx"
      using import_future_ok [OF q3(2) h base b W] by blast
    have "l < ?n" if "q_last_nonces q3 ?s = Some l" for l using True that q3(4) by simp
    then have "nonces_apart q'" if "nonces_apart q3" using future_apart [OF that q'(5-7)] by blast
    moreover have "import_tx heap_size tx base q = Some (q', r)"
      using True False R(1,2) nxt q3(1) q'(1) by (simp add: import_tx_def)
    moreover have "last_bounded q'" using lb3 q'(5) by (simp add: last_bounded_def)
    ultimately show ?thesis using q'(2,3,8) A3 known3 frame_trans [OF fr q'(4)] by blast
  next
    case less: False
    have "?n \<le> m" if A: "nonces_apart q3" and m: "cells (q_future q3) ?s m \<noteq> None" for m
    proof (cases "q_last_nonces q2 ?s")
      case None
      moreover have "base \<le> m" using R(7) q3(7) m by metis
      ultimately show ?thesis using less by simp
    next
      case (Some l)
      have "sender_apart (cells (q_current q3) ?s) (cells (q_future q3) ?s) (Some l)"
        using A Some q3(4) unfolding nonces_apart_def by metis
      then have "l < m" using m by (simp add: sender_apart_def)
      then show ?thesis using less Some by simp
    qed
    moreover obtain q' r where q': "import_current heap_size tx base q3 = Some (q', r)" "r \<noteq> Panic"
        "queue_ok (W + tx_weight heap_size tx) q'" "frame q3 q'" "last_bounded q'"
        "W + tx_weight heap_size tx \<le> ts_memory_limit (q_current q3) \<longrightarrow> nonces_apart q3 \<longrightarrow>
          (\<forall>m. cells (q_future q3) ?s m \<noteq> None \<longrightarrow> ?n \<le> m) \<longrightarrow> nonces_apart q'"
        "\<forall>h. known q' h \<longrightarrow> known q3 h \<or> h = vt_hash tx"
      using import_current_ok [OF q3(2) h base b W lb3] by blast
    ultimately have "W + tx_weight heap_size tx \<le> ts_memory_limit (q_current q) \<longrightarrow> nonces_apart q \<longrightarrow> nonces_apart q'"
      using A3 fr by (auto simp: frame_def)
    moreover have "import_tx heap_size tx base q = Some (q', r)"
      using less False R(1,2) nxt q3(1) q'(1) by (simp add: import_tx_def)
    ultimately show ?thesis using q'(2,3,5,7) known3 frame_trans [OF fr q'(4)] by blast
  qed
qed

lemma set_local_ok:
  assumes "queue_ok W q" and "local_ok l"
  shows "queue_ok W (q\<lparr>q_local := l\<rparr>)" "frame q (q\<lparr>q_local := l\<rparr>)"
    "last_bounded (q\<lparr>q_local := l\<rparr>) = last_bounded q" "nonces_apart (q\<lparr>q_local := l\<rparr>) = nonces_apart q"
    "known (q\<lparr>q_local := l\<rparr>) h = known q h"
  using assms by (simp_all add: queue_ok_def frame_def last_bounded_def nonces_apart_def known_def)

lemma add_marks:
  assumes "local_ok loc" and "r \<noteq> Panic"
  shows "\<exists>l. (case r of
            Ok ImportCurrent \<Rightarrow> Some (mark_pending h loc)
          | Ok ImportFuture \<Rightarrow> Some (mark_future h loc)
          | Err e \<Rightarrow> if \<not> local_contains h loc then mark_rejected h e loc else Some loc
          | Panic \<Rightarrow> None) = Some l \<and> local_ok l"
proof (cases r)
  case (Ok i)
  then show ?thesis using assms(1) local_ok_upd by (cases i) simp_all
next
  case (Err e)
  then show ?thesis using assms(1) marks_ok(1) [OF assms(1)] by simp
qed (use assms in simp)

lemma queue_add_ok:
  assumes ok: "queue_ok W q" and b: "tx_bounded tx" and W: "W + tx_weight heap_size tx \<le> usize_max" and lb: "last_bounded q"
  shows "\<exists>q' r. queue_add heap_size fetch_account tx q = Some (q', r) \<and> queue_ok (W + tx_weight heap_size tx) q' \<and>
    frame q q' \<and> last_bounded q' \<and> (\<forall>h. known q' h \<longrightarrow> known q h \<or> h = vt_hash tx) \<and>
    (W + tx_weight heap_size tx \<le> ts_memory_limit (q_current q) \<longrightarrow> nonces_apart q \<longrightarrow> nonces_apart q')"
proof -
  obtain q1 r where q1: "import_tx heap_size tx (ad_nonce (fetch_account (vt_sender tx))) q = Some (q1, r)" "r \<noteq> Panic"
      "queue_ok (W + tx_weight heap_size tx) q1" "frame q q1" "last_bounded q1"
      "W + tx_weight heap_size tx \<le> ts_memory_limit (q_current q) \<longrightarrow> nonces_apart q \<longrightarrow> nonces_apart q1"
      "\<forall>h. known q1 h \<longrightarrow> known q h \<or> h = vt_hash tx"
    using import_tx_ok [OF ok b W lb] by blast
  have add: "add_internal heap_size fetch_account tx q = Some (q1, r)"
    using q1(1) queue_ok_assert [OF q1(3)] by (simp add: add_internal_def)
  show ?thesis
  proof (cases "vt_origin tx = Local")
    case True
    obtain l where l: "(case r of
            Ok ImportCurrent \<Rightarrow> Some (mark_pending (vt_hash tx) (q_local q1))
          | Ok ImportFuture \<Rightarrow> Some (mark_future (vt_hash tx) (q_local q1))
          | Err e \<Rightarrow> if \<not> local_contains (vt_hash tx) (q_local q1) then mark_rejected (vt_hash tx) e (q_local q1)
                     else Some (q_local q1)
          | Panic \<Rightarrow> None) = Some l" "local_ok l"
      using add_marks [OF queue_okD(3) [OF q1(3)] q1(2)] by blast
    have "queue_add heap_size fetch_account tx q = Some (q1\<lparr>q_local := l\<rparr>, r)"
      using True add l(1) by (simp add: queue_add_def)
    then show ?thesis
      using set_local_ok [OF q1(3) l(2)] q1(5-7) frame_trans [OF q1(4)] by (intro exI conjI) (assumption | simp | blast)+
  next
    case False
    then show ?thesis using add q1 by (simp add: queue_add_def)
  qed
qed

subsection \<open>Culling\<close>

text \<open>What a cull leaves of the sender it is about.\<close>

definition culled :: "address \<Rightarrow> nat \<Rightarrow> nat \<Rightarrow> tx_queue \<Rightarrow> tx_queue \<Rightarrow> bool" where
  "culled s c k q q' \<longleftrightarrow>
     (\<forall>m. cells (q_current q') s m \<noteq> None \<longleftrightarrow> c \<le> m \<and> m < c + k) \<and>
     (\<forall>m. cells (q_future q') s m \<noteq> None \<longrightarrow> c + k < m) \<and>
     q_last_nonces q' s = (if k = 0 then None else Some (c + k - 1)) \<and>
     (\<forall>m. cells (q_current q') s m \<noteq> None \<or> cells (q_future q') s m \<noteq> None \<longrightarrow>
        c \<le> m \<and> (cells (q_current q) s m \<noteq> None \<or> cells (q_future q) s m \<noteq> None)) \<and>
     (\<forall>r m. r \<noteq> s \<longrightarrow> cells (q_current q') r m = cells (q_current q) r m)"

lemma cull_internal_ok:
  assumes ok: "queue_ok W q" and lb: "last_bounded q"
  shows "\<exists>k q'. cull_internal s c q = Some q' \<and> queue_ok W q' \<and> frame q q' \<and> last_bounded q' \<and> culled s c k q q' \<and>
    (\<forall>h. known q' h \<longrightarrow> known q h) \<and> (nonces_apart q \<longrightarrow> nonces_apart q') \<and>
    (W \<le> ts_memory_limit (q_future q) \<longrightarrow> (\<forall>m. c \<le> m \<longrightarrow>
      cells (q_current q) s m \<noteq> None \<or> cells (q_future q) s m \<noteq> None \<longrightarrow>
      cells (q_current q') s m \<noteq> None \<or> cells (q_future q') s m \<noteq> None))"
proof -
  let ?q = "q\<lparr>q_last_nonces := (q_last_nonces q)(s := None)\<rparr>"
  have "queue_ok W ?q" using ok by (simp add: queue_ok_def)
  from update_future_ok [OF this, of s c] obtain q1 where q1: "update_future s c ?q = Some q1" "queue_ok W q1" "frame ?q q1"
      "q_current q1 = q_current q" "q_last_nonces q1 = (q_last_nonces q)(s := None)"
      "\<And>r m. cells (q_future q1) r m = (if r = s then updated c m (cells (q_future q) s m) else cells (q_future q) r m)"
    by (auto cong: if_cong)
  let ?moved = "\<lambda>r m. if r = s \<and> cells (q_current q1) s m \<noteq> None \<and> c \<le> m
        then Some (merged (reheight c m (the (cells (q_current q1) s m))) (cells (q_future q1) s m))
        else cells (q_future q1) r m"
  obtain q2 where q2: "move_all_to_future s c q1 = Some q2" "queue_ok W q2" "frame q1 q2" "q_last_nonces q2 = q_last_nonces q1"
      "\<And>r m. cells (q_current q2) r m = (if r = s then None else cells (q_current q1) r m)"
      "\<And>r m. cells (q_future q2) r m = None \<or> cells (q_future q2) r m = ?moved r m"
      "W \<le> ts_memory_limit (q_future q1) \<longrightarrow> (\<forall>r m. cells (q_future q2) r m = ?moved r m)"
    using move_all_to_future_ok [OF q1(2)] by blast
  obtain k q3 where q3: "move_matching_future_to_current s c c q2 = Some q3" "queue_ok W q3" "frame q2 q3"
      "promoted s c c k q2 q3"
      "q_last_nonces q3 = (if k = 0 then q_last_nonces q2 else (q_last_nonces q2)(s \<mapsto> c + k - 1))"
    using move_matching_ok [OF q2(2) order_refl] by blast
  have fr: "frame q q3" using q1(3) frame_trans [OF q2(3) q3(3)] by (simp add: frame_def)
  have run: "cull_internal s c q = Some q3"
    using q1(1) q2(1) q3(1) queue_ok_assert [OF q3(2)] by (simp add: cull_internal_def)
  have fut2: "c \<le> m \<and> (cells (q_current q) s m \<noteq> None \<or> cells (q_future q) s m \<noteq> None)" if "cells (q_future q2) s m \<noteq> None" for m
    using q2(6) [of s m] that q1(4,6) by (auto simp: updated_def split: if_splits)
  have fut2': "cells (q_future q) r m \<noteq> None" if "cells (q_future q2) r m \<noteq> None" "r \<noteq> s" for r m
    using q2(6) [of r m] that q1(6) by auto
  note P = promotedD [OF q3(4)]
  have known1: "known q h" if "known q1 h" for h
    using that q1(6) updated_Some unfolding known_def q1(4) by (metis (lifting))
  have known2: "known q1 h" if h: "known q2 h" for h
  proof -
    have "known q1 (to_hash x)" if x: "?moved r m = Some x" for r m x
      using x merged_hash [of "reheight c m (the (cells (q_current q1) s m))" "cells (q_future q1) s m"]
      unfolding known_def by (auto split: if_splits) metis+
    moreover have "known q1 (to_hash x)" if "cells (q_current q2) r m = Some x" for r m x
      using that q2(5) unfolding known_def by (auto split: if_splits)
    moreover obtain r m x where "cells (q_current q2) r m = Some x \<or> cells (q_future q2) r m = Some x" "to_hash x = h"
      using h by (auto simp: known_def)
    ultimately show ?thesis using q2(6) [of r m] by (metis option.discI)
  qed
  have known: "known q h" if "known q3 h" for h using known1 known2 promoted_known [OF q3(4) that] by blast
  have "last_bounded q2" using lb q1(5) q2(4) by (simp add: last_bounded_def)
  then have lb': "last_bounded q3" by (rule bounded_promoted [OF _ q2(2) q3(4,5)])
  have "nonces_apart q3" if A: "nonces_apart q"
  proof -
    have "nonces_apart q2"
      unfolding nonces_apart_def
    proof
      fix r
      have "sender_apart (cells (q_current q) r) (cells (q_future q) r) (q_last_nonces q r)"
        using A by (simp add: nonces_apart_def)
      then show "sender_apart (cells (q_current q2) r) (cells (q_future q2) r) (q_last_nonces q2 r)"
        using q1(4,5) q2(4,5) fut2' by (cases "r = s") (auto simp: sender_apart_def)
    qed
    then show ?thesis by (rule apart_promoted [OF _ q3(4) _ q3(5)]) (use fut2 in blast)
  qed
  moreover have "culled s c k q q3"
  proof -
    have cur: "cells (q_current q3) s m \<noteq> None \<longleftrightarrow> c \<le> m \<and> m < c + k" for m using P(4) q2(5) by (simp add: fun_eq_iff)
    have fut: "cells (q_future q3) s m \<noteq> None \<longleftrightarrow> \<not> (c \<le> m \<and> m < c + k) \<and> cells (q_future q2) s m \<noteq> None" for m
      using P(3) by (simp add: fun_eq_iff)
    have "c + k < m" if "cells (q_future q3) s m \<noteq> None" for m
      using that fut [of m] fut2 [of m] P(2) by (cases "m = c + k") auto
    moreover have "q_last_nonces q3 s = (if k = 0 then None else Some (c + k - 1))" using q3(5) q2(4) q1(5) by simp
    moreover have "c \<le> m \<and> (cells (q_current q) s m \<noteq> None \<or> cells (q_future q) s m \<noteq> None)"
      if "cells (q_current q3) s m \<noteq> None \<or> cells (q_future q3) s m \<noteq> None" for m
      using that cur [of m] fut [of m] P(1) [of m] fut2 [of m] by blast
    moreover have "cells (q_current q3) r m = cells (q_current q) r m" if "r \<noteq> s" for r m
      using P(6) [OF that] q2(5) that q1(4) by simp
    ultimately show ?thesis unfolding culled_def using cur by blast
  qed
  moreover have "cells (q_current q3) s m \<noteq> None \<or> cells (q_future q3) s m \<noteq> None"
    if "W \<le> ts_memory_limit (q_future q)" "c \<le> m" "cells (q_current q) s m \<noteq> None \<or> cells (q_future q) s m \<noteq> None" for m
  proof -
    have "cells (q_future q2) s m = ?moved s m" using q2(7) that(1) q1(3) by (simp add: frame_def)
    then have "cells (q_future q2) s m \<noteq> None" using that(2,3) q1(4,6) by (auto simp: updated_def)
    then show ?thesis using P(3,4) by (simp add: fun_eq_iff)
  qed
  ultimately show ?thesis using run q3(2) fr lb' known by blast
qed

subsection \<open>Removing\<close>

text \<open>What every operation without eviction keeps; the index is the bound on the memory.\<close>

definition queue_inv :: "nat \<Rightarrow> tx_queue \<Rightarrow> bool" where
  "queue_inv W q \<longleftrightarrow> queue_ok W q \<and> last_bounded q \<and> nonces_apart q"

lemma queue_cull_ok:
  assumes "queue_ok W q" and "last_bounded q"
  shows "\<exists>q'. queue_cull s c q = Some q' \<and> queue_ok W q' \<and> frame q q' \<and> last_bounded q' \<and>
    (\<forall>h. known q' h \<longrightarrow> known q h) \<and> (nonces_apart q \<longrightarrow> nonces_apart q')"
  using cull_internal_ok [OF assms, of s c] assms by (auto simp: queue_cull_def Let_def)

lemma apart_not_both: "nonces_apart q \<Longrightarrow> cells (q_future q) s n \<noteq> None \<Longrightarrow> cells (q_current q) s n = None"
  unfolding nonces_apart_def sender_apart_def by (metis leD)

lemma mark_removed_ok: "local_ok l \<Longrightarrow> \<exists>l'. mark_removed h reason l = Some l' \<and> local_ok l'"
  using marks_ok(3,4) [of l h] by (cases reason) (simp_all add: mark_removed_def)

text \<open>Taking one order out of a set and its transaction out of the index.\<close>

lemma forget_order:
  assumes C: "consistent st W by_hash S T {#}" and x: "cells S s n = Some x"
  shows "\<exists>S'. set_drop s n S = Some (S', Some x) \<and> consistent st W (AList.delete (to_hash x) by_hash) S' T {#} \<and>
    one_cell S S' s n None"
  using drop_move [OF C x] forget_move by blast

lemma queue_remove_ok:
  assumes I: "queue_inv W q"
  shows "\<exists>q'. queue_remove fetch_account reason h q = Some q' \<and> queue_inv W q' \<and> frame q q' \<and> \<not> known q' h \<and>
    (\<forall>h'. known q' h' \<longrightarrow> known q h')"
proof (cases "map_of (q_by_hash q) h")
  case None
  then have "\<not> known q h" using I known_iff by (auto simp: queue_inv_def)
  then show ?thesis using None I queue_ok_assert by (auto simp: queue_remove_def queue_inv_def)
next
  case (Some tx)
  let ?s = "vt_sender tx" and ?n = "vt_nonce tx" and ?c = "ad_nonce (fetch_account (vt_sender tx))"
  have ok: "queue_ok W q" and lb: "last_bounded q" and A: "nonces_apart q" using I by (simp_all add: queue_inv_def)
  note Q = queue_okD [OF ok]
  obtain l where l: "mark_removed h reason (q_local q) = Some l" "local_ok l" using mark_removed_ok [OF Q(3)] by blast
  obtain x where x: "cells (q_current q) ?s ?n = Some x \<or> cells (q_future q) ?s ?n = Some x" "to_hash x = h"
    using queue_tx(2) [OF ok Some] by blast
  let ?q = "\<lambda>S T. q\<lparr>q_by_hash := AList.delete h (q_by_hash q), q_local := l, q_future := S, q_current := T\<rparr>"
  have gone: "\<not> known (?q S T) h" if "queue_ok W (?q S T)" for S T
    using known_iff [OF that, of h] by (simp add: delete_conv')
  have old: "known q h'" if "\<And>r m. cells S r m = None \<or> cells S r m = cells (q_future q) r m"
      "\<And>r m. cells T r m = None \<or> cells T r m = cells (q_current q) r m" "known (?q S T) h'" for S T h'
    using that(3) unfolding known_def by simp (metis that(1,2) option.discI)
  have apart: "nonces_apart (?q S T)" if "\<And>r m. cells S r m = None \<or> cells S r m = cells (q_future q) r m"
      "\<And>r m. cells T r m = None \<or> cells T r m = cells (q_current q) r m" for S T
  proof (rule apart_mono [OF A])
    show "cells (q_current (?q S T)) r m \<noteq> None \<Longrightarrow> cells (q_current q) r m \<noteq> None" for r m using that(2) [of r m] by auto
    show "cells (q_future (?q S T)) r m \<noteq> None \<Longrightarrow> cells (q_future q) r m \<noteq> None" for r m using that(1) [of r m] by auto
  qed simp
  have lb': "last_bounded (?q S T)" for S T using lb by (simp add: last_bounded_def)
  show ?thesis
  proof (cases "cells (q_future q) ?s ?n")
    case (Some y)
    then have "cells (q_current q) ?s ?n = None" using apart_not_both [OF A] by simp
    then have "to_hash y = h" using x Some by simp
    then obtain S where S: "set_drop ?s ?n (q_future q) = Some (S, Some y)" "one_cell (q_future q) S ?s ?n None"
        "consistent (q_strategy q) W (AList.delete h (q_by_hash q)) S (q_current q) {#}"
      using forget_order [OF Q(2) Some] by blast
    let ?q2 = "?q S (q_current q)"
    have ok2: "queue_ok W ?q2" using consistent_sym [OF S(3)] l(2) by (simp add: queue_ok_def)
    obtain q3 q4 where R: "update_future ?s ?c ?q2 = Some q3" "move_matching_future_to_current ?s ?c ?c q3 = Some q4"
        "queue_ok W q4" "frame ?q2 q4" "last_bounded q4" "\<forall>h. known q4 h \<longrightarrow> known ?q2 h" "nonces_apart ?q2 \<longrightarrow> nonces_apart q4"
      using refresh_ok [OF ok2 lb'] by blast
    have sub: "cells S r m = None \<or> cells S r m = cells (q_future q) r m" for r m using S(2) by (auto simp: one_cell_def)
    have "queue_remove fetch_account reason h q = Some q4"
      using \<open>map_of (q_by_hash q) h = Some tx\<close> queue_ok_assert [OF ok] queue_ok_assert [OF R(3)] l(1) S(1) R(1,2)
      by (simp add: queue_remove_def Let_def)
    moreover have "frame q q4" using R(4) S(2) by (simp add: frame_def one_cell_def)
    moreover have "nonces_apart q4" using R(7) apart [OF sub, of "q_current q"] by blast
    moreover have "\<not> known q4 h" using R(6) gone [OF ok2] by blast
    moreover have "known q h'" if "known q4 h'" for h' using old [OF sub, of "q_current q" h'] R(6) that by blast
    ultimately show ?thesis using R(3,5) by (auto simp: queue_inv_def)
  next
    case None
    then have cur: "cells (q_current q) ?s ?n = Some x" using x(1) by simp
    obtain S where S: "set_drop ?s ?n (q_future q) = Some (S, None)" "one_cell (q_future q) S ?s ?n None"
        "consistent (q_strategy q) W (q_by_hash q) S (q_current q) {#}"
      using drop_none [OF Q(2) None] by blast
    obtain T where T: "set_drop ?s ?n (q_current q) = Some (T, Some x)" "one_cell (q_current q) T ?s ?n None"
        "consistent (q_strategy q) W (AList.delete h (q_by_hash q)) T S {#}"
      using forget_order [OF consistent_sym [OF S(3)] cur] x(2) by blast
    let ?q2 = "?q S T"
    have ok2: "queue_ok W ?q2" using T(3) l(2) by (simp add: queue_ok_def)
    obtain q4 where R: "cull_internal ?s ?c ?q2 = Some q4" "queue_ok W q4" "frame ?q2 q4" "last_bounded q4"
        "\<forall>h. known q4 h \<longrightarrow> known ?q2 h" "nonces_apart ?q2 \<longrightarrow> nonces_apart q4"
      using cull_internal_ok [OF ok2 lb'] by blast
    have sub: "cells S r m = None \<or> cells S r m = cells (q_future q) r m"
        "cells T r m = None \<or> cells T r m = cells (q_current q) r m" for r m
      using S(2) T(2) by (auto simp: one_cell_def)
    have "queue_remove fetch_account reason h q = Some q4"
      using \<open>map_of (q_by_hash q) h = Some tx\<close> queue_ok_assert [OF ok] queue_ok_assert [OF R(2)] l(1) S(1) T(1) R(1)
      by (simp add: queue_remove_def Let_def)
    moreover have "frame q q4" using R(3) S(2) T(2) by (simp add: frame_def one_cell_def)
    moreover have "nonces_apart q4" using R(6) apart [OF sub] by simp
    moreover have "\<not> known q4 h" using R(5) gone [OF ok2] by blast
    moreover have "known q h'" if "known q4 h'" for h' using old [OF sub, of h'] R(5) that by blast
    ultimately show ?thesis using R(2,4) by (auto simp: queue_inv_def)
  qed
qed

lemma fold_queue_ok:
  assumes "\<forall>x q. P q \<longrightarrow> (\<exists>q'. f x q = Some q' \<and> P q')" and "P q"
  shows "\<exists>q'. fold_queue f xs q = Some q' \<and> P q'"
  using assms(2)
proof (induction xs arbitrary: q)
  case (Cons x xs)
  then obtain q1 where "f x q = Some q1" "P q1" using assms(1) by blast
  then show ?case using Cons.IH by simp
qed simp

lemma expired_ok: "(\<And>tx. tx \<in> snd ` set m \<Longrightarrow> tx_bounded tx) \<Longrightarrow> \<exists>hs. expired senders max_time now m = Some hs"
proof (induction m)
  case (Cons p m)
  obtain h tx where p: "p = (h, tx)" by fastforce
  have "tx_bounded tx" using Cons.prems p by simp
  then have "vt_gas_price tx * vt_gas_limit tx \<le> 2 ^ 128 * 2 ^ 64" "t_value (ut_unsigned (st_transaction (vt_transaction tx))) < 2 ^ 128"
    using mult_le_mono [of "vt_gas_price tx" "2 ^ 128" "vt_gas_limit tx" "2 ^ 64"] by (simp_all add: tx_bounded_def)
  then have "\<exists>v. vt_cost tx = Some v" by (simp add: vt_cost_def u256_mul_def u256_add_def)
  moreover obtain hs where "expired senders max_time now m = Some hs" using Cons by auto
  ultimately show ?case using p by (auto simp: Let_def split: option.splits)
qed simp

lemma queue_remove_old_ok:
  assumes "queue_inv W q"
  shows "\<exists>q'. queue_remove_old fetch_account now q = Some q' \<and> queue_inv W q' \<and> frame q q'"
proof -
  let ?P = "\<lambda>q'. queue_inv W q' \<and> frame q q'"
  have P: "?P q" using assms by simp
  let ?cull = "\<lambda>(sender, details :: account_details). queue_cull sender (ad_nonce details)"
  have "\<forall>x q1. ?P q1 \<longrightarrow> (\<exists>q2. ?cull x q1 = Some q2 \<and> ?P q2)"
  proof (intro allI impI)
    fix x :: "address \<times> account_details" and q1
    assume "?P q1"
    then show "\<exists>q2. ?cull x q1 = Some q2 \<and> ?P q2"
      using queue_cull_ok [of W q1 "fst x" "ad_nonce (snd x)"] frame_trans by (fastforce simp: queue_inv_def split: prod.splits)
  qed
  from fold_queue_ok [of ?P ?cull, OF this P] obtain q1 where
      q1: "fold_queue ?cull (queue_senders fetch_account q) q = Some q1" "?P q1"
    by blast
  have "tx_bounded tx" if t: "tx \<in> snd ` set (q_by_hash q1)" for tx
  proof -
    have ok: "queue_ok W q1" using q1(2) by (simp add: queue_inv_def)
    obtain h where "(h, tx) \<in> set (q_by_hash q1)" using t by auto
    then have "map_of (q_by_hash q1) h = Some tx" using consistentD(3) [OF queue_okD(1) [OF ok]] by simp
    then show ?thesis by (rule queue_tx(1) [OF ok])
  qed
  then obtain hs where hs: "expired (queue_senders fetch_account q) (q_max_time_in_queue q1) now (q_by_hash q1) = Some hs"
    using expired_ok by blast
  have "\<forall>h q1. ?P q1 \<longrightarrow> (\<exists>q2. queue_remove fetch_account RemInvalid h q1 = Some q2 \<and> ?P q2)"
    using queue_remove_ok [of W] frame_trans by blast
  from fold_queue_ok [of ?P "queue_remove fetch_account RemInvalid", OF this q1(2)] obtain q2 where
      "fold_queue (queue_remove fetch_account RemInvalid) hs q1 = Some q2" "?P q2" by blast
  then show ?thesis using q1(1) hs by (simp add: queue_remove_old_def Let_def)
qed

lemma queue_penalize_inv:
  assumes "queue_ok W q"
  shows "\<exists>q'. queue_penalize h q = Some q' \<and> queue_ok W q' \<and> frame q q' \<and> (last_bounded q \<longrightarrow> last_bounded q') \<and>
    (nonces_apart q \<longrightarrow> nonces_apart q') \<and> q_by_hash q' = q_by_hash q"
proof -
  obtain q' where q': "queue_penalize h q = Some q'" "queue_ok W q'" "frame q q'" "q_last_nonces q' = q_last_nonces q"
      "q_by_hash q' = q_by_hash q"
      "\<forall>r m. (cells (q_current q') r m = None) = (cells (q_current q) r m = None)"
      "\<forall>r m. (cells (q_future q') r m = None) = (cells (q_future q) r m = None)"
    using queue_penalize_ok [OF assms] by blast
  have "nonces_apart q'" if "nonces_apart q" by (rule apart_mono [OF that _ _ q'(4)]) (use q'(6,7) in auto)
  then show ?thesis using q' by (auto simp: last_bounded_def)
qed

lemma queue_clear_ok:
  assumes "queue_ok W q"
  shows "queue_ok W (queue_clear q)" "frame q (queue_clear q)" "last_bounded (queue_clear q)" "nonces_apart (queue_clear q)"
proof -
  have cells: "cells (set_clear S) r m = None" for S r m
    by (simp add: cells_def set_clear_def table_clear_def table_get_def)
  show "nonces_apart (queue_clear q)" "last_bounded (queue_clear q)" "frame q (queue_clear q)"
    using cells by (simp_all add: queue_clear_def nonces_apart_def sender_apart_def last_bounded_def frame_def set_clear_def)
  have "set_bag (set_clear S) = {#}" "ts_memory_usage (set_clear S) = 0" for S by (simp_all add: set_bag_def set_clear_def)
  then show "queue_ok W (queue_clear q)"
    using queue_okD [OF assms] set_ok_clear cells by (simp add: queue_ok_def consistent_def queue_clear_def)
qed

end
