(* ===== verification/Queue_Runs.thy ===== *)
theory Queue_Runs
  imports Queue_Invariant "HOL-Library.Code_Target_Nat"
begin

text \<open>
  Histories of the transaction queue and what holds in every state they reach.

  \<^item> \<open>queue_do\<close> is one call of the queue, \<open>queue_reachable\<close> the states that calls lead to from an empty
    queue. A transaction that is added has passed \<open>verify_basic\<close>, as the callers of the queue ensure.
  \<^item> Without eviction the transactions added fit into the memory limit; with eviction they need not,
    and nothing is removed by its hash. The last theorem shows why removing has to be excluded there.
\<close>

subsection \<open>Histories\<close>

datatype queue_op =
    AddOp "address \<Rightarrow> account_details" verified_transaction
  | CullOp address nat
  | RemoveOp "address \<Rightarrow> account_details" removal_reason bytes
  | RemoveOldOp "address \<Rightarrow> account_details" nat
  | PenalizeOp bytes
  | ClearOp

fun queue_do :: "(bytes \<Rightarrow> nat) \<Rightarrow> queue_op \<Rightarrow> tx_queue \<Rightarrow> tx_queue option" where
  "queue_do heap_size (AddOp fetch_account tx) q = map_option fst (queue_add heap_size fetch_account tx q)"
| "queue_do heap_size (CullOp sender nonce) q = queue_cull sender nonce q"
| "queue_do heap_size (RemoveOp fetch_account reason hash) q = queue_remove fetch_account reason hash q"
| "queue_do heap_size (RemoveOldOp fetch_account now) q = queue_remove_old fetch_account now q"
| "queue_do heap_size (PenalizeOp hash) q = queue_penalize hash q"
| "queue_do heap_size ClearOp q = Some (queue_clear q)"

definition queue_usage :: "tx_queue \<Rightarrow> nat" where
  "queue_usage q = ts_memory_usage (q_current q) + ts_memory_usage (q_future q)"

fun admitted :: "(bytes \<Rightarrow> nat) \<Rightarrow> bool \<Rightarrow> queue_op \<Rightarrow> tx_queue \<Rightarrow> bool" where
  "admitted heap_size evicting (AddOp fetch_account tx) q \<longleftrightarrow>
     verify_basic (st_transaction (vt_transaction tx)) = Ok () \<and>
     queue_usage q + tx_weight heap_size tx \<le> (if evicting then usize_max else ts_memory_limit (q_current q))"
| "admitted heap_size evicting (RemoveOp fetch_account reason hash) q \<longleftrightarrow> \<not> evicting"
| "admitted heap_size evicting (RemoveOldOp fetch_account now) q \<longleftrightarrow> \<not> evicting"
| "admitted heap_size evicting op q \<longleftrightarrow> True"

inductive queue_reachable :: "(bytes \<Rightarrow> nat) \<Rightarrow> bool \<Rightarrow> tx_queue \<Rightarrow> bool" for heap_size evicting where
  new: "limit \<le> usize_max \<Longrightarrow> queue_reachable heap_size evicting (queue_with_limits st limit)"
| step: "queue_reachable heap_size evicting q \<Longrightarrow> admitted heap_size evicting op q \<Longrightarrow>
    queue_do heap_size op q = Some q' \<Longrightarrow> queue_reachable heap_size evicting q'"

subsection \<open>One step\<close>

lemma verified_bounded:
  assumes "verify_basic (st_transaction (vt_transaction tx)) = Ok ()"
  shows "tx_bounded tx"
proof -
  have "vt_gas_limit tx \<le> 5000000"
    using assms by (auto simp: verify_basic_Ok is_gas_limit_valid_def max_gas_limit_def gas_constants vt_gas_limit_def
        split: action.splits)
  then show ?thesis using assms by (simp add: verify_basic_Ok tx_bounded_def vt_nonce_def vt_gas_price_def)
qed

definition run_inv :: "bool \<Rightarrow> tx_queue \<Rightarrow> bool" where
  "run_inv evicting q \<longleftrightarrow> queue_ok (if evicting then usize_max else ts_memory_limit (q_current q)) q \<and> last_bounded q \<and>
     (\<not> evicting \<longrightarrow> nonces_apart q \<and> ts_memory_limit (q_future q) = ts_memory_limit (q_current q))"

lemma queue_ok_usage: "queue_ok W q \<Longrightarrow> queue_ok (queue_usage q) q"
  unfolding queue_ok_def consistent_def queue_usage_def by simp

lemma run_inv_new: "limit \<le> usize_max \<Longrightarrow> run_inv evicting (queue_with_limits st limit)"
proof -
  assume "limit \<le> usize_max"
  moreover have "cells (tx_set_new limit) s n = None" "set_bag (tx_set_new limit) = {#}"
      "ts_memory_usage (tx_set_new limit) = 0" "ts_memory_limit (tx_set_new limit) = limit" for s n
    by (simp_all add: cells_def set_bag_def tx_set_new_def table_new_def table_get_def)
  ultimately show ?thesis
    by (simp add: run_inv_def queue_ok_def consistent_def set_ok_new queue_with_limits_def local_ok_default last_bounded_def
        nonces_apart_def sender_apart_def)
qed

lemma run_inv_frame:
  assumes "run_inv evicting q" and "frame q q'" and "queue_ok W q'" and "last_bounded q'"
    and "W \<le> (if evicting then usize_max else ts_memory_limit (q_current q))" and "\<not> evicting \<Longrightarrow> nonces_apart q'"
  shows "run_inv evicting q'"
proof -
  let ?W = "if evicting then usize_max else ts_memory_limit (q_current q)"
  have "?W \<le> usize_max" using assms(1) queue_okD(6) unfolding run_inv_def by blast
  then have "queue_ok ?W q'" using queue_ok_mono [OF assms(3,5)] by blast
  then show ?thesis using assms(1,2,4,6) by (cases evicting) (simp_all add: run_inv_def frame_def)
qed

lemma run_step:
  assumes I: "run_inv evicting q" and "admitted heap_size evicting op q"
  shows "\<exists>q'. queue_do heap_size op q = Some q' \<and> run_inv evicting q'"
proof -
  let ?W = "if evicting then usize_max else ts_memory_limit (q_current q)"
  have ok: "queue_ok ?W q" and lb: "last_bounded q" and A: "\<not> evicting \<Longrightarrow> nonces_apart q"
    using I unfolding run_inv_def by blast+
  have W: "?W \<le> usize_max" using queue_okD(6) [OF ok] .
  have inv: "\<not> evicting \<Longrightarrow> queue_inv ?W q" using ok lb A by (simp add: queue_inv_def)
  show ?thesis
  proof (cases op)
    case (AddOp fetch_account tx)
    then have b: "tx_bounded tx" and w: "queue_usage q + tx_weight heap_size tx \<le> ?W"
      using assms(2) verified_bounded by simp_all
    then obtain q' r where q': "queue_add heap_size fetch_account tx q = Some (q', r)"
        "queue_ok (queue_usage q + tx_weight heap_size tx) q'" "frame q q'" "last_bounded q'"
        "queue_usage q + tx_weight heap_size tx \<le> ts_memory_limit (q_current q) \<longrightarrow> nonces_apart q \<longrightarrow> nonces_apart q'"
      using queue_add_ok [OF queue_ok_usage [OF ok] b _ lb] W by (meson order_trans)
    have "run_inv evicting q'" by (rule run_inv_frame [OF I q'(3,2,4) w]) (use q'(5) w A in simp)
    then show ?thesis using AddOp q'(1) by simp
  next
    case (CullOp sender nonce)
    then show ?thesis using queue_cull_ok [OF ok lb, of sender nonce] run_inv_frame [OF I _ _ _ order_refl] A by auto
  next
    case (RemoveOp fetch_account reason hash)
    then have "\<not> evicting" using assms(2) by simp
    then show ?thesis
      using queue_remove_ok [OF inv, of fetch_account reason hash] RemoveOp run_inv_frame [OF I _ _ _ order_refl]
      unfolding queue_inv_def by auto
  next
    case (RemoveOldOp fetch_account now)
    then have "\<not> evicting" using assms(2) by simp
    then show ?thesis
      using queue_remove_old_ok [OF inv, of fetch_account now] RemoveOldOp run_inv_frame [OF I _ _ _ order_refl]
      unfolding queue_inv_def by auto
  next
    case (PenalizeOp hash)
    then show ?thesis using queue_penalize_inv [OF ok, of hash] lb run_inv_frame [OF I _ _ _ order_refl] A by auto
  next
    case ClearOp
    then show ?thesis using queue_clear_ok [OF ok] run_inv_frame [OF I _ _ _ order_refl] by simp
  qed
qed

lemma reachable_run_inv: "queue_reachable heap_size evicting q \<Longrightarrow> run_inv evicting q"
proof (induction rule: queue_reachable.induct)
  case (new limit st)
  then show ?case by (rule run_inv_new)
next
  case (step q op q')
  then show ?case using run_step [OF step.IH step.hyps(2)] by simp
qed

subsection \<open>Listing\<close>

text \<open>The transactions that no earlier delayed transaction of their sender holds back.\<close>

definition released :: "nat \<Rightarrow> nat \<Rightarrow> verified_transaction list \<Rightarrow> verified_transaction list" where
  "released best_block best_timestamp txs =
     map (nth txs) (filter (\<lambda>i. \<forall>j \<le> i. vt_sender (txs ! j) = vt_sender (txs ! i) \<longrightarrow>
       \<not> delayed_until best_block best_timestamp (txs ! j)) [0..<length txs])"

lemma all_le_Suc_split: "(\<forall>j \<le> Suc i. P j) \<longleftrightarrow> P 0 \<and> (\<forall>j \<le> i. P (Suc j))"
  by (metis Suc_le_mono le0 not0_implies_Suc)

definition unheld :: "nat \<Rightarrow> nat \<Rightarrow> address list \<Rightarrow> verified_transaction list \<Rightarrow> nat \<Rightarrow> bool" where
  "unheld b t delayed txs i \<longleftrightarrow> vt_sender (txs ! i) \<notin> set delayed \<and>
     (\<forall>j \<le> i. vt_sender (txs ! j) = vt_sender (txs ! i) \<longrightarrow> \<not> delayed_until b t (txs ! j))"

lemma unheld_Cons:
  "unheld b t delayed (tx # txs) 0 \<longleftrightarrow> vt_sender tx \<notin> set delayed \<and> \<not> delayed_until b t tx"
  "unheld b t delayed (tx # txs) (Suc i) \<longleftrightarrow>
     unheld b t (if delayed_until b t tx then vt_sender tx # delayed else delayed) txs i"
  unfolding unheld_def all_le_Suc_split by auto

lemma unheld_again: "s \<in> set delayed \<Longrightarrow> unheld b t (s # delayed) txs = unheld b t delayed txs"
  unfolding unheld_def by (auto simp: insert_absorb)

lemma filter_pending_held:
  assumes "list_all2 (\<lambda>t tx. map_of by_hash (to_hash t) = Some tx) ts txs"
  shows "filter_pending b t by_hash delayed ts = Some (map (nth txs) (filter (unheld b t delayed txs) [0..<length txs]))"
  using assms
proof (induction arbitrary: delayed rule: list_all2_induct)
  case (Cons x ts tx txs)
  have "[0..<length (tx # txs)] = 0 # map Suc [0..<length txs]" by (simp add: upt_conv_Cons map_Suc_upt del: upt_Suc)
  then have "map (nth (tx # txs)) (filter (unheld b t delayed (tx # txs)) [0..<length (tx # txs)]) =
      (if unheld b t delayed (tx # txs) 0 then [tx] else []) @
      map (nth txs) (filter (\<lambda>i. unheld b t delayed (tx # txs) (Suc i)) [0..<length txs])"
    by (simp add: filter_map comp_def del: upt_Suc)
  then show ?case using Cons by (simp add: unheld_Cons unheld_again del: upt_Suc)
qed simp

lemma queue_listed:
  assumes "queue_ok W q"
  shows "\<exists>txs. list_all2 (\<lambda>t tx. map_of (q_by_hash q) (to_hash t) = Some tx) (ts_by_priority (q_current q)) txs"
    "\<exists>txs. list_all2 (\<lambda>t tx. map_of (q_by_hash q) (to_hash t) = Some tx) (ts_by_priority (q_future q)) txs"
proof -
  have list: "\<exists>txs. list_all2 (\<lambda>t tx. f t = Some tx) ts txs" if "\<forall>t \<in> set ts. f t \<noteq> None" for f :: "tx_order \<Rightarrow> verified_transaction option" and ts
    using that by (intro exI [of _ "map (the \<circ> f) ts"]) (auto simp: list_all2_conv_all_nth)
  note Q = queue_okD [OF assms]
  show "\<exists>txs. list_all2 (\<lambda>t tx. map_of (q_by_hash q) (to_hash t) = Some tx) (ts_by_priority (q_current q)) txs"
    by (rule list) (use priority_cell [OF Q(4)] queue_backed(1) [OF assms] in \<open>fastforce simp: backed_def\<close>)
  show "\<exists>txs. list_all2 (\<lambda>t tx. map_of (q_by_hash q) (to_hash t) = Some tx) (ts_by_priority (q_future q)) txs"
    by (rule list) (use priority_cell [OF Q(5)] queue_backed(2) [OF assms] in \<open>fastforce simp: backed_def\<close>)
qed

lemma those_listed: "list_all2 (\<lambda>t tx. f t = Some tx) ts txs \<Longrightarrow> those (map f ts) = Some txs"
  by (induction rule: list_all2_induct) auto

lemma listing_ok:
  assumes "queue_ok W q" and txs: "list_all2 (\<lambda>t tx. map_of (q_by_hash q) (to_hash t) = Some tx) (ts_by_priority (q_current q)) txs"
  shows "top_transactions_at b t q = Some (map vt_transaction (released b t txs))"
    "pending_transactions b t q = Some (map pending_of (released b t txs))"
proof -
  have "unheld b t [] txs = (\<lambda>i. \<forall>j \<le> i. vt_sender (txs ! j) = vt_sender (txs ! i) \<longrightarrow> \<not> delayed_until b t (txs ! j))"
    by (simp add: unheld_def fun_eq_iff)
  then have "filter_pending_transaction b t q = Some (released b t txs)"
    using filter_pending_held [OF txs, of b t "[]"] by (simp add: filter_pending_transaction_def released_def)
  then show "top_transactions_at b t q = Some (map vt_transaction (released b t txs))"
    "pending_transactions b t q = Some (map pending_of (released b t txs))"
    by (simp_all add: top_transactions_at_def pending_transactions_def)
qed

subsection \<open>A hash has one place\<close>

lemma one_place:
  assumes "queue_ok W q" and "cells (q_current q) s n = Some x" and "cells (q_future q) r m = Some y"
  shows "to_hash x \<noteq> to_hash y"
proof
  assume same: "to_hash x = to_hash y"
  note C = consistentD(3,4) [OF queue_okD(1) [OF assms(1)]]
  have "x \<in># set_bag (q_current q)" "y \<in># set_bag (q_future q)"
    using priority_cell queue_okD(4,5) [OF assms(1)] assms(2,3) by (auto simp: set_bag_def)
  then have "to_hash x \<in># image_mset to_hash (set_bag (q_current q))" "to_hash x \<in># image_mset to_hash (set_bag (q_future q))"
    using same by (metis imageI set_image_mset)+
  then have "0 < count (image_mset to_hash (set_bag (q_current q))) (to_hash x)"
      "0 < count (image_mset to_hash (set_bag (q_future q))) (to_hash x)"
    by (simp_all only: count_greater_zero_iff)
  moreover have "count (mset (map fst (q_by_hash q))) (to_hash x) =
      count (image_mset to_hash (set_bag (q_current q))) (to_hash x) + count (image_mset to_hash (set_bag (q_future q))) (to_hash x)"
    unfolding C(2) by simp
  moreover have "count (mset (map fst (q_by_hash q))) (to_hash x) \<le> 1" using C(1) by (simp only: distinct_count_atmost_1 split: if_splits) simp
  ultimately show False by linarith
qed

text \<open>The hash of the order that a set holds for a sender and a nonce.\<close>

definition hash_at :: "tx_set \<Rightarrow> address \<Rightarrow> nat \<Rightarrow> bytes option" where
  "hash_at S s n = map_option to_hash (table_get (ts_by_address S) s n)"

lemma hash_at_cells: "hash_at S s n = map_option to_hash (cells S s n)"
  by (simp add: hash_at_def cells_def)

lemma queue_place:
  assumes "queue_ok W q"
  shows "(\<exists>tx. map_of (q_by_hash q) h = Some tx \<and> vt_sender tx = s \<and> vt_nonce tx = n) \<longleftrightarrow>
    hash_at (q_current q) s n = Some h \<or> hash_at (q_future q) s n = Some h"
proof
  assume "\<exists>tx. map_of (q_by_hash q) h = Some tx \<and> vt_sender tx = s \<and> vt_nonce tx = n"
  then obtain tx where tx: "map_of (q_by_hash q) h = Some tx" "vt_sender tx = s" "vt_nonce tx = n" by blast
  then obtain x where "cells (q_current q) s n = Some x \<or> cells (q_future q) s n = Some x" "to_hash x = h"
    using queue_tx(2) [OF assms tx(1)] by blast
  then show "hash_at (q_current q) s n = Some h \<or> hash_at (q_future q) s n = Some h"
    by (auto simp: hash_at_cells)
next
  assume "hash_at (q_current q) s n = Some h \<or> hash_at (q_future q) s n = Some h"
  then obtain x where "cells (q_current q) s n = Some x \<or> cells (q_future q) s n = Some x" "to_hash x = h"
    by (auto simp: hash_at_cells)
  then show "\<exists>tx. map_of (q_by_hash q) h = Some tx \<and> vt_sender tx = s \<and> vt_nonce tx = n"
    using queue_backed [OF assms] unfolding backed_def by blast
qed

subsection \<open>Properties\<close>

text \<open>
  C3 (the transaction queue does not panic). In every state that a history reaches, the next call
  returns, and so does every listing: no assertion on the sizes of the indexes fails, no transaction is
  missing from the hash index, no counter and no number overflows. The transactions added have passed
  the basic checks; without eviction the calls include removing by hash and expiring, with eviction
  the memory limit may be exceeded by any of the transactions.
\<close>

theorem queue_never_panics:
  assumes "queue_reachable heap_size evicting q" and "admitted heap_size evicting op q"
  shows "(\<exists>q'. queue_do heap_size op q = Some q') \<and> (\<exists>txs. top_transactions_at best_block best_timestamp q = Some txs) \<and>
    (\<exists>txs. pending_transactions best_block best_timestamp q = Some txs) \<and> (\<exists>txs. future_transactions q = Some txs)"
proof -
  have I: "run_inv evicting q" by (rule reachable_run_inv [OF assms(1)])
  then obtain W where ok: "queue_ok W q" unfolding run_inv_def by blast
  obtain cur where "list_all2 (\<lambda>t tx. map_of (q_by_hash q) (to_hash t) = Some tx) (ts_by_priority (q_current q)) cur"
    using queue_listed(1) [OF ok] by blast
  note cur = listing_ok [OF ok this]
  obtain fut where "list_all2 (\<lambda>t tx. map_of (q_by_hash q) (to_hash t) = Some tx) (ts_by_priority (q_future q)) fut"
    using queue_listed(2) [OF ok] by blast
  from those_listed [OF this] have "future_transactions q = Some (map pending_of fut)" by (simp add: future_transactions_def)
  then show ?thesis using run_step [OF I assms(2)] cur by blast
qed

text \<open>
  C6 (the indexes of the queue agree). In every reachable state a hash is known with a sender and a
  nonce exactly when the current or the waiting set holds it there, and never both; without eviction
  the waiting nonces of a sender are above all of its current ones, and the two sets together stay
  within the memory limit.
\<close>

theorem queue_indexes_agree:
  assumes "queue_reachable heap_size evicting q"
  shows "((\<exists>tx. map_of (q_by_hash q) h = Some tx \<and> vt_sender tx = s \<and> vt_nonce tx = n) \<longleftrightarrow>
      hash_at (q_current q) s n = Some h \<or> hash_at (q_future q) s n = Some h) \<and>
    \<not> (hash_at (q_current q) s n = Some h \<and> hash_at (q_future q) r m = Some h) \<and>
    (\<not> evicting \<longrightarrow> hash_at (q_current q) s n \<noteq> None \<longrightarrow> hash_at (q_future q) s m \<noteq> None \<longrightarrow> n < m) \<and>
    (\<not> evicting \<longrightarrow> queue_usage q \<le> ts_memory_limit (q_current q))"
proof -
  have I: "run_inv evicting q" by (rule reachable_run_inv [OF assms])
  then obtain W where ok: "queue_ok W q" unfolding run_inv_def by blast
  have "\<not> (hash_at (q_current q) s n = Some h \<and> hash_at (q_future q) r m = Some h)"
    using one_place [OF ok] by (auto simp: hash_at_cells)
  moreover have "n < m" if e: "\<not> evicting" and c: "hash_at (q_current q) s n \<noteq> None" and f: "hash_at (q_future q) s m \<noteq> None"
  proof -
    have "sender_apart (cells (q_current q) s) (cells (q_future q) s) (q_last_nonces q s)"
      using I e by (simp add: run_inv_def nonces_apart_def)
    then obtain l where "n \<le> l" "l < m" using c f unfolding sender_apart_def hash_at_cells by fastforce
    then show ?thesis by simp
  qed
  moreover have "queue_usage q \<le> ts_memory_limit (q_current q)" if "\<not> evicting"
    using I that consistentD(5) [OF queue_okD(1)] by (fastforce simp: run_inv_def queue_usage_def)
  ultimately show ?thesis using queue_place [OF ok] by blast
qed

definition held :: "tx_set \<Rightarrow> address \<Rightarrow> nat set" where
  "held S s = {n. hash_at S s n \<noteq> None}"

lemma held_cells: "n \<in> held S s \<longleftrightarrow> cells S s n \<noteq> None"
  by (simp add: held_def hash_at_cells)



lemma victims_prefix: "\<exists>ys. filter (\<lambda>x. \<not> protected_order x) xs = victims limit usage xs @ ys"
  by (induction xs arbitrary: usage) auto

lemma split_distinct: "distinct xs \<Longrightarrow> mset xs = mset ys + mset zs \<Longrightarrow> y \<in> set ys \<Longrightarrow> y \<notin> set zs"
proof -
  assume "distinct xs" and "mset xs = mset ys + mset zs" and y: "y \<in> set ys"
  then have "distinct (ys @ zs)" using mset_eq_imp_distinct_iff [of xs "ys @ zs"] by simp
  then show ?thesis using y by auto
qed

lemma victims_last:
  assumes "sorted_wrt (\<lambda>a b. order_cmp a b = Less) xs" and "distinct xs"
    and xs: "mset xs = mset ys + mset (victims limit usage (rev xs))"
    and "x \<in> set (victims limit usage (rev xs))" and y: "y \<in> set ys" "\<not> protected_order y"
  shows "order_cmp y x = Less"
proof -
  obtain rest where rest: "filter (\<lambda>x. \<not> protected_order x) (rev xs) = victims limit usage (rev xs) @ rest"
    using victims_prefix by blast
  have "y \<in> set xs" using xs y(1) by (metis UnCI mset_append set_append set_mset_mset)
  then have "y \<in> set (victims limit usage (rev xs) @ rest)" using y(2) by (simp flip: rest)
  then have "y \<in> set rest" using split_distinct [OF assms(2) xs y(1)] by simp
  moreover have "sorted_wrt (\<lambda>a b. order_cmp b a = Less) (victims limit usage (rev xs) @ rest)"
    unfolding rest [symmetric] using assms(1) by (intro sorted_wrt_filter) (simp add: sorted_wrt_rev)
  ultimately show ?thesis using assms(4) by (simp add: sorted_wrt_append)
qed

lemma victims_fit:
  assumes usage: "usage = sum_list (map to_memory_usage xs)" and "limit < usage" and "distinct xs"
    and bag: "mset xs = mset ys + mset (victims limit usage (rev xs))"
  shows "sum_list (map to_memory_usage ys) \<le> limit \<or> (\<forall>y \<in> set ys. protected_order y)"
proof -
  let ?vs = "victims limit usage (rev xs)"
  have "(\<Sum>x \<in># mset xs. to_memory_usage x) = (\<Sum>x \<in># mset ys. to_memory_usage x) + (\<Sum>x \<in># mset ?vs. to_memory_usage x)"
    unfolding bag by (simp only: image_mset_union sum_mset.union)
  then have sum: "usage = sum_list (map to_memory_usage ys) + sum_list (map to_memory_usage ?vs)"
    unfolding usage by (simp only: mset_map [symmetric] sum_mset_sum_list)
  have "sum_list (map to_memory_usage (rev xs)) \<le> usage" unfolding usage by (simp add: rev_map [symmetric])
  from victims_usage [OF this assms(2)]
  consider "usage - sum_list (map to_memory_usage ?vs) \<le> limit" | "?vs = filter (\<lambda>x. \<not> protected_order x) (rev xs)" by blast
  then show ?thesis
  proof cases
    case 1
    then show ?thesis using sum by linarith
  next
    case 2
    have "protected_order y" if y: "y \<in> set ys" for y
    proof (rule ccontr)
      assume "\<not> protected_order y"
      moreover have "y \<in># mset xs" unfolding bag using y by simp
      ultimately have "y \<in> set ?vs" unfolding 2 by simp
      then show False using split_distinct [OF assms(3) bag y] by blast
    qed
    then show ?thesis by blast
  qed
qed


text \<open>
  C20 (the list of pending transactions). The list for a block is the current transactions in the order
  of priority, without every transaction that is delayed beyond the block or comes after a delayed one
  of the same sender.
\<close>

theorem pending_listed:
  assumes "queue_reachable heap_size evicting q"
  shows "\<exists>txs. list_all2 (\<lambda>t tx. map_of (q_by_hash q) (to_hash t) = Some tx) (ts_by_priority (q_current q)) txs \<and>
    sorted_wrt (\<lambda>a b. order_cmp a b = Less) (ts_by_priority (q_current q)) \<and>
    top_transactions_at best_block best_timestamp q = Some (map vt_transaction (released best_block best_timestamp txs))"
proof -
  obtain W where ok: "queue_ok W q" using reachable_run_inv [OF assms] unfolding run_inv_def by blast
  obtain txs where "list_all2 (\<lambda>t tx. map_of (q_by_hash q) (to_hash t) = Some tx) (ts_by_priority (q_current q)) txs"
    using queue_listed(1) [OF ok] by blast
  then show ?thesis using listing_ok(1) [OF ok] set_okD(3) [OF queue_okD(4) [OF ok]] by blast
qed

text \<open>
  C40 (the order of a verified transaction stays in range). For two transactions that passed the basic
  checks the orders are built without an overflow, and the sums of price and factor that the comparison
  forms fit into 256 bits, whatever heights, penalties and origins are.
\<close>

theorem order_sums_fit:
  assumes "verify_basic (st_transaction (vt_transaction tx)) = Ok ()" and "verify_basic (st_transaction (vt_transaction tx')) = Ok ()"
    and "base \<le> vt_nonce tx" and "base' \<le> vt_nonce tx'"
  shows "\<exists>a b. for_transaction heap_size tx base st = Some a \<and> for_transaction heap_size tx' base' st = Some b \<and>
    u256_add (to_gas_price a) (to_gas_factor b) = Some (to_gas_price a + to_gas_factor b) \<and>
    u256_add (to_gas_price b) (to_gas_factor a) = Some (to_gas_price b + to_gas_factor a) \<and>
    to_nonce_height a < 2 ^ 128 \<and> to_gas a < 2 ^ 64 \<and> to_gas_price a < 2 ^ 128"
proof -
  note b = verified_bounded [OF assms(1)] verified_bounded [OF assms(2)]
  have factor: "to_gas_factor (new_order heap_size t n st) < 2 ^ 128" if "tx_bounded t" for t n
  proof -
    have "vt_gas_limit t div 2 ^ 15 < 2 ^ 64"
      using that div_le_dividend [of "vt_gas_limit t" "2 ^ 15"] unfolding tx_bounded_def by linarith
    then show ?thesis by (simp add: new_order_def)
  qed
  have price: "to_gas_price (new_order heap_size t n st) < 2 ^ 128" if "tx_bounded t" for t n
    using that by (simp add: tx_bounded_def new_order_def)
  have sum: "u256_add x y = Some (x + y)" if "x < 2 ^ 128" "y < 2 ^ 128" for x y
    using that by (simp add: u256_add_def)
  have "to_nonce_height (new_order heap_size tx base st) < 2 ^ 128" "to_gas (new_order heap_size tx base st) < 2 ^ 64"
    using b(1) less_imp_diff_less by (simp_all add: new_order_def tx_bounded_def)
  then show ?thesis
    using for_transaction_ok [OF b(1) assms(3), of heap_size st] for_transaction_ok [OF b(2) assms(4), of heap_size st]
      sum [OF price [OF b(1)] factor [OF b(2)]] sum [OF price [OF b(2)] factor [OF b(1)]] price [OF b(1)]
    by (intro exI conjI) (assumption | blast)+
qed

text \<open>The powers of two of the machine integers, written out for evaluation.\<close>

lemma literals_code [code]:
  "usize_max = 18446744073709551615"
  "u256_add a b = (if a + b < 115792089237316195423570985008687907853269984665640564039457584007913129639936 then Some (a + b) else None)"
  "u256_mul a b = (if a * b < 115792089237316195423570985008687907853269984665640564039457584007913129639936 then Some (a * b) else None)"
  by (simp_all add: usize_max_def u256_add_def u256_mul_def)

lemma for_transaction_code [code]:
  "for_transaction heap_size tx base st = do {
     factor \<leftarrow> u256_mul (vt_gas_limit tx div 32768) 10000000000;
     height \<leftarrow> u256_sub (vt_nonce tx) base;
     Some \<lparr>to_nonce_height = height, to_gas_price = vt_gas_price tx, to_gas_factor = factor,
           to_gas = vt_gas_limit tx, to_memory_usage = tx_weight heap_size tx,
           to_strategy = st, to_hash = vt_hash tx, to_insertion_id = vt_insertion_id tx,
           to_origin = vt_origin tx, to_penalties = 0\<rparr>
   }"
  by (simp add: for_transaction_def tx_weight_def)

subsection \<open>Examples\<close>

definition sample_tx :: "u8 \<Rightarrow> u8 \<Rightarrow> nat \<Rightarrow> nat \<Rightarrow> verified_transaction" where
  "sample_tx hash sender nonce price =
     \<lparr>vt_transaction = \<lparr>st_transaction =
        \<lparr>ut_unsigned = transaction_new nonce price 22000 (Call [9]) 0 [0, 0, 0] 1 None,
         ut_sig = replicate 96 1, ut_hash = [hash], ut_timestamp = []\<rparr>,
        st_sender = [sender], st_public = None\<rparr>,
      vt_origin = External, vt_condition = None, vt_insertion_time = 0, vt_insertion_id = unat hash\<rparr>"

definition fresh_account :: "address \<Rightarrow> account_details" where
  "fresh_account addr = \<lparr>ad_nonce = 0, ad_balance = 0\<rparr>"

text \<open>A queue that holds two transactions in its current set and one in its waiting set.\<close>

definition sample_ops :: "queue_op list" where
  "sample_ops = [AddOp fresh_account (sample_tx 1 7 0 10), AddOp fresh_account (sample_tx 2 7 1 10),
     AddOp fresh_account (sample_tx 3 7 5 10)]"

definition sample_queue :: "tx_queue option" where
  "sample_queue = fold_queue (queue_do length) sample_ops (queue_with_limits GasPriceOnly 100)"

text \<open>
  Under a limit of ten bytes: two transactions of sender 7, which is then penalised; a third of the
  same sender, now without penalties; one of sender 8, which makes the queue drop the second; and a
  fourth of sender 7 with the nonce of the third.
\<close>

definition evicting_ops :: "queue_op list" where
  "evicting_ops = [AddOp fresh_account (sample_tx 1 7 0 10), AddOp fresh_account (sample_tx 2 7 1 10), PenalizeOp [1],
     AddOp fresh_account (sample_tx 3 7 2 10), AddOp fresh_account (sample_tx 4 8 0 10), AddOp fresh_account (sample_tx 5 7 2 20)]"

definition evicting_queue :: "tx_queue option" where
  "evicting_queue = fold_queue (queue_do length) evicting_ops (queue_with_limits GasPriceOnly 10)"

lemma evicting_run:
  "map_option (\<lambda>q. (hash_at (q_current q) [7] 2, hash_at (q_future q) [7] 2)) evicting_queue = Some (Some [3], Some [5])"
  "map_option (\<lambda>q. (pending_hashes q, map_of (q_by_hash q) [3], top_transactions q))
       (evicting_queue \<bind> queue_remove fresh_account RemInvalid [3]) =
     Some ([[4], [3], [1]], None, None)"
  "map_option pending_hashes (fold_queue (queue_do length) (take 4 evicting_ops) (queue_with_limits GasPriceOnly 100)) =
     Some [[3], [1], [2]]"
  by code_simp+

text \<open>
  C21 (removing after an eviction breaks the index). Once the memory limit has dropped a lower nonce of a
  penalised sender, both sets can hold the same sender and nonce. Removing the hash of the current one
  then takes the waiting one out of its set: the order of the removed transaction stays in the current
  set without a transaction, and listing the pending transactions panics.
\<close>

theorem remove_breaks_index:
  "\<exists>q q'. fold_queue (queue_do length) evicting_ops (queue_with_limits GasPriceOnly 10) = Some q \<and>
     hash_at (q_current q) [7] 2 = Some [3] \<and> hash_at (q_future q) [7] 2 = Some [5] \<and>
     queue_remove fresh_account RemInvalid [3] q = Some q' \<and>
     [3] \<in> set (pending_hashes q') \<and> map_of (q_by_hash q') [3] = None \<and> top_transactions q' = None"
proof -
  obtain q where q: "evicting_queue = Some q" "hash_at (q_current q) [7] 2 = Some [3]" "hash_at (q_future q) [7] 2 = Some [5]"
    using evicting_run(1) by auto
  obtain q' where "queue_remove fresh_account RemInvalid [3] q = Some q'" "pending_hashes q' = [[4], [3], [1]]"
      "map_of (q_by_hash q') [3] = None" "top_transactions q' = None"
    using evicting_run(2) unfolding q(1) by auto
  then show ?thesis using q by (auto simp: evicting_queue_def)
qed

text \<open>
  A transaction that a penalised sender adds later has no penalties and comes before the lower nonces of
  the same sender: the third of the four calls above penalises the nonces 0 and 1, the fourth adds the nonce 2.
\<close>

lemma penalised_sender_reordered:
  "\<exists>q. fold_queue (queue_do length) (take 4 evicting_ops) (queue_with_limits GasPriceOnly 100) = Some q \<and>
     pending_hashes q = [[3], [1], [2]]"
  using evicting_run(3) by auto

subsection \<open>Witnesses\<close>

fun admitted_run :: "(bytes \<Rightarrow> nat) \<Rightarrow> bool \<Rightarrow> queue_op list \<Rightarrow> tx_queue \<Rightarrow> bool" where
  "admitted_run heap_size evicting [] q \<longleftrightarrow> True"
| "admitted_run heap_size evicting (op # ops) q \<longleftrightarrow> admitted heap_size evicting op q \<and>
     (case queue_do heap_size op q of None \<Rightarrow> False | Some q' \<Rightarrow> admitted_run heap_size evicting ops q')"

lemma reachable_run:
  "queue_reachable heap_size evicting q \<Longrightarrow> admitted_run heap_size evicting ops q \<Longrightarrow>
    fold_queue (queue_do heap_size) ops q = Some q' \<Longrightarrow> queue_reachable heap_size evicting q'"
proof (induction ops arbitrary: q)
  case (Cons op ops)
  then obtain q1 where q1: "queue_do heap_size op q = Some q1" by (auto split: option.splits)
  then have "queue_reachable heap_size evicting q1" using Cons.prems(1,2) by (auto intro: queue_reachable.step)
  then show ?case by (rule Cons.IH) (use Cons.prems(2,3) q1 in simp_all)
qed simp

lemma sample_run:
  "admitted_run length False sample_ops (queue_with_limits GasPriceOnly 100)"
  "map_option (\<lambda>q. (queue_usage q, hash_at (q_current q) [7] 1, hash_at (q_future q) [7] 5, map_of (q_by_hash q) [6],
     map_option vt_gas_price (map_of (q_by_hash q) [2]))) sample_queue = Some (9, Some [2], Some [3], None, Some 10)"
  by code_simp+

lemma sample_reached:
  "\<exists>q. sample_queue = Some q \<and> queue_reachable length False q \<and> queue_usage q = 9 \<and> hash_at (q_current q) [7] 1 = Some [2] \<and>
     hash_at (q_future q) [7] 5 = Some [3] \<and> map_of (q_by_hash q) [6] = None \<and>
     (\<exists>old. map_of (q_by_hash q) [2] = Some old \<and> vt_gas_price old = 10)"
proof -
  obtain q where q: "sample_queue = Some q" "queue_usage q = 9" "hash_at (q_current q) [7] 1 = Some [2]"
      "hash_at (q_future q) [7] 5 = Some [3]" "map_of (q_by_hash q) [6] = None" "map_option vt_gas_price (map_of (q_by_hash q) [2]) = Some 10"
    using sample_run(2) by auto
  have "queue_reachable length False (queue_with_limits GasPriceOnly 100)" by (rule queue_reachable.new) (simp add: usize_max_def)
  then have "queue_reachable length False q"
    by (rule reachable_run [OF _ sample_run(1)]) (use q(1) in \<open>simp add: sample_queue_def\<close>)
  then show ?thesis using q by auto
qed

theorem queue_never_panics_witness:
  "\<exists>q. sample_queue = Some q \<and> (\<exists>q'. queue_do length (RemoveOp fresh_account RemInvalid [1]) q = Some q') \<and>
     (\<exists>txs. top_transactions_at 0 0 q = Some txs)"
proof -
  obtain q where q: "sample_queue = Some q" "queue_reachable length False q" using sample_reached by blast
  have "admitted length False (RemoveOp fresh_account RemInvalid [1]) q" by simp
  then show ?thesis using queue_never_panics [OF q(2), of _ 0 0] q(1) by blast
qed

theorem queue_indexes_agree_witness:
  "\<exists>q. sample_queue = Some q \<and> (\<exists>tx. map_of (q_by_hash q) [3] = Some tx \<and> vt_sender tx = [7] \<and> vt_nonce tx = 5) \<and>
     hash_at (q_current q) [7] 5 \<noteq> Some [3] \<and> queue_usage q \<le> ts_memory_limit (q_current q)"
proof -
  obtain q where q: "sample_queue = Some q" "queue_reachable length False q" "hash_at (q_future q) [7] 5 = Some [3]"
    using sample_reached by blast
  then show ?thesis using queue_indexes_agree [OF q(2), of "[3]" "[7]" 5 "[7]" 5] by auto
qed


lemma sample_tx_basic:
  "verify_basic (st_transaction (vt_transaction (sample_tx 6 7 1 12))) = Ok ()"
  "verify_basic (st_transaction (vt_transaction (sample_tx 3 7 5 10))) = Ok ()"
  "vt_hash (sample_tx 6 7 1 12) = [6]" "vt_sender (sample_tx 6 7 1 12) = [7]" "vt_nonce (sample_tx 6 7 1 12) = 1"
  "vt_gas_price (sample_tx 6 7 1 12) = 12" "tx_weight length (sample_tx 6 7 1 12) = 3" "vt_nonce (sample_tx 3 7 5 10) = 5"
  by code_simp+



theorem pending_listed_witness:
  "\<exists>q txs. sample_queue = Some q \<and> top_transactions_at 5 5 q = Some (map vt_transaction (released 5 5 txs)) \<and>
     list_all2 (\<lambda>t tx. map_of (q_by_hash q) (to_hash t) = Some tx) (ts_by_priority (q_current q)) txs"
proof -
  obtain q where q: "sample_queue = Some q" "queue_reachable length False q" using sample_reached by blast
  then show ?thesis using pending_listed [OF q(2), of 5 5] by blast
qed

theorem order_sums_fit_witness:
  "\<exists>a b. for_transaction length (sample_tx 6 7 1 12) 0 GasPriceOnly = Some a \<and>
     for_transaction length (sample_tx 3 7 5 10) 2 GasPriceOnly = Some b \<and>
     u256_add (to_gas_price a) (to_gas_factor b) = Some (to_gas_price a + to_gas_factor b)"
  using order_sums_fit [OF sample_tx_basic(1,2), of 0 2 length GasPriceOnly] sample_tx_basic(8) by auto

end
