(* ===== verification/Transaction_Pool.thy ===== *)
theory Transaction_Pool
  imports Queue_Runs
begin

text \<open>
  The transaction pool, \<^verbatim>\<open>src/core/src/transaction/transaction_pool.rs\<close>, over the queue with a ban list,
  \<^verbatim>\<open>src/core/src/transaction/banning_queue.rs\<close>.

  \<^item> The ban counters are in a \<^verbatim>\<open>TransientHashMap\<close> of a library, whose entries expire. What a map has
    forgotten when an entry is taken is the parameter \<open>expire\<close>, about which nothing is assumed.
  \<^item> \<open>None\<close> is a panic, as in the queue. The locks of the pool serialise the calls and have no counterpart.
\<close>

subsection \<open>The queue with a ban list\<close>

datatype threshold = BanAfter nat | NeverBan

definition threshold_default :: threshold where
  "threshold_default = NeverBan"

type_synonym bans = "bytes \<Rightarrow> nat option"

record banning_queue =
  bq_queue :: tx_queue
  bq_ban_threshold :: threshold
  bq_senders_bans :: bans
  bq_recipients_bans :: bans
  bq_codes_bans :: bans

definition banning_queue_new :: "tx_queue \<Rightarrow> threshold \<Rightarrow> nat \<Rightarrow> banning_queue option" where
  "banning_queue_new queue ban_threshold ban_lifetime =
     (let ban_lifetime_sec = ban_lifetime mod 2 ^ 32 in
      if ban_lifetime_sec > 0
      then Some \<lparr>bq_queue = queue, bq_ban_threshold = ban_threshold, bq_senders_bans = (\<lambda>_. None),
                 bq_recipients_bans = (\<lambda>_. None), bq_codes_bans = (\<lambda>_. None)\<rparr>
      else None)"

definition ban_count :: "bans \<Rightarrow> bytes \<Rightarrow> nat" where
  "ban_count m k = (case m k of None \<Rightarrow> 0 | Some c \<Rightarrow> c)"

definition tx_action :: "signed_transaction \<Rightarrow> action" where
  "tx_action st = t_action (ut_unsigned (st_transaction st))"

definition tx_data :: "signed_transaction \<Rightarrow> bytes" where
  "tx_data st = t_data (ut_unsigned (st_transaction st))"

definition ban_check :: "(bytes \<Rightarrow> bytes) \<Rightarrow> verified_transaction \<Rightarrow> banning_queue \<Rightarrow> tx_error option" where
  "ban_check blake2b tx bq =
     (case bq_ban_threshold bq of
        NeverBan \<Rightarrow> None
      | BanAfter t \<Rightarrow>
          if ban_count (bq_senders_bans bq) (vt_sender tx) > t then Some SenderBanned
          else (case tx_action (vt_transaction tx) of
              Call recipient \<Rightarrow> if ban_count (bq_recipients_bans bq) recipient > t then Some RecipientBanned else None
            | Create \<Rightarrow>
                if ban_count (bq_codes_bans bq) (blake2b (tx_data (vt_transaction tx))) > t then Some CodeBanned else None))"

definition add_with_banlist :: "(bytes \<Rightarrow> bytes) \<Rightarrow> (bytes \<Rightarrow> nat) \<Rightarrow> (address \<Rightarrow> account_details) \<Rightarrow> verified_transaction \<Rightarrow>
    banning_queue \<Rightarrow> (banning_queue \<times> (tx_error, import_result) outcome) option" where
  "add_with_banlist blake2b heap_size fetch_account tx bq =
     (case ban_check blake2b tx bq of
        Some e \<Rightarrow> Some (bq, Err e)
      | None \<Rightarrow> do {
          (q, result) \<leftarrow> queue_add heap_size fetch_account tx (bq_queue bq);
          Some (bq\<lparr>bq_queue := q\<rparr>, result)
        })"

text \<open>An entry of a ban map is created with 0 and counts up to the maximum of a \<^verbatim>\<open>u16\<close>.\<close>

definition ban_entry :: "(bans \<Rightarrow> bans) \<Rightarrow> bytes \<Rightarrow> bans \<Rightarrow> bans \<times> nat" where
  "ban_entry expire k m =
     (let m' = expire m; count = min (ban_count m' k + 1) (2 ^ 16 - 1) in (m'(k \<mapsto> count), count))"

definition ban_reached :: "threshold \<Rightarrow> nat \<Rightarrow> bool" where
  "ban_reached ban_threshold c = (case ban_threshold of BanAfter t \<Rightarrow> c > t | NeverBan \<Rightarrow> False)"

definition ban_sender :: "(bans \<Rightarrow> bans) \<Rightarrow> address \<Rightarrow> banning_queue \<Rightarrow> (banning_queue \<times> bool) option" where
  "ban_sender expire addr bq =
     (let (m, count) = ban_entry expire addr (bq_senders_bans bq); bq1 = bq\<lparr>bq_senders_bans := m\<rparr> in
      if ban_reached (bq_ban_threshold bq) count
      then do {
        q \<leftarrow> queue_cull addr (2 ^ 256 - 1) (bq_queue bq1);
        Some (bq1\<lparr>bq_queue := q\<rparr>, True)
      } else Some (bq1, False))"

definition ban_recipient :: "(bans \<Rightarrow> bans) \<Rightarrow> address \<Rightarrow> banning_queue \<Rightarrow> banning_queue \<times> bool" where
  "ban_recipient expire addr bq =
     (let (m, count) = ban_entry expire addr (bq_recipients_bans bq)
      in (bq\<lparr>bq_recipients_bans := m\<rparr>, ban_reached (bq_ban_threshold bq) count))"

definition ban_codehash :: "(bans \<Rightarrow> bans) \<Rightarrow> bytes \<Rightarrow> banning_queue \<Rightarrow> banning_queue \<times> bool" where
  "ban_codehash expire code_hash bq =
     (let (m, count) = ban_entry expire code_hash (bq_codes_bans bq)
      in (bq\<lparr>bq_codes_bans := m\<rparr>, ban_reached (bq_ban_threshold bq) count))"

definition ban_transaction :: "(bytes \<Rightarrow> bytes) \<Rightarrow> (bans \<Rightarrow> bans) \<Rightarrow> bytes \<Rightarrow> banning_queue \<Rightarrow> (banning_queue \<times> bool) option" where
  "ban_transaction blake2b expire hash bq =
     (case queue_find hash (bq_queue bq) of
        None \<Rightarrow> Some (bq, False)
      | Some p \<Rightarrow> do {
          let st = pt_transaction p;
          (bq1, sender_banned) \<leftarrow> ban_sender expire (st_sender st) bq;
          let (bq2, other_banned) = (case tx_action st of
              Call recipient \<Rightarrow> ban_recipient expire recipient bq1
            | Create \<Rightarrow> ban_codehash expire (blake2b (tx_data st)) bq1);
          Some (bq2, sender_banned \<or> other_banned)
        })"

subsection \<open>The pool\<close>

record tx_pool =
  tp_transaction_queue :: banning_queue
  tp_waiting_transactions :: "verified_transaction list"
  tp_is_transaction_sealed :: bool
  tp_transactions_to_remove :: "(bytes \<times> removal_reason) list"
  tp_transaction_index :: nat

definition pool_new :: "banning_queue \<Rightarrow> tx_pool" where
  "pool_new transaction_queue =
     \<lparr>tp_transaction_queue = transaction_queue, tp_waiting_transactions = [], tp_is_transaction_sealed = False,
      tp_transactions_to_remove = [], tp_transaction_index = 0\<rparr>"

definition pool_queue :: "tx_pool \<Rightarrow> tx_queue" where
  "pool_queue pool = bq_queue (tp_transaction_queue pool)"

definition set_pool_queue :: "tx_queue \<Rightarrow> tx_pool \<Rightarrow> tx_pool" where
  "set_pool_queue q pool = pool\<lparr>tp_transaction_queue := (tp_transaction_queue pool)\<lparr>bq_queue := q\<rparr>\<rparr>"

definition pool_clear :: "tx_pool \<Rightarrow> tx_pool" where
  "pool_clear pool =
     (set_pool_queue (queue_clear (pool_queue pool)) pool)
       \<lparr>tp_waiting_transactions := [], tp_is_transaction_sealed := False, tp_transactions_to_remove := [],
        tp_transaction_index := 0\<rparr>"

text \<open>The three parts of an update: expiring, removing, importing.\<close>

definition update_sealed :: "(address \<Rightarrow> account_details) \<Rightarrow> nat \<Rightarrow> tx_pool \<Rightarrow> tx_pool option" where
  "update_sealed fetch_account best_block pool =
     (if tp_is_transaction_sealed pool then do {
        q \<leftarrow> queue_remove_old fetch_account best_block (pool_queue pool);
        Some ((set_pool_queue q pool)\<lparr>tp_is_transaction_sealed := False\<rparr>)
      } else Some pool)"

definition update_removed :: "(address \<Rightarrow> account_details) \<Rightarrow> tx_pool \<Rightarrow> tx_pool option" where
  "update_removed fetch_account pool = do {
     q \<leftarrow> fold_queue (\<lambda>(hash, reason). queue_remove fetch_account reason hash) (tp_transactions_to_remove pool) (pool_queue pool);
     Some ((set_pool_queue q pool)\<lparr>tp_transactions_to_remove := []\<rparr>)
   }"

fun import_waiting :: "(bytes \<Rightarrow> bytes) \<Rightarrow> (bytes \<Rightarrow> nat) \<Rightarrow> (address \<Rightarrow> account_details) \<Rightarrow> verified_transaction list \<Rightarrow>
    banning_queue \<Rightarrow> banning_queue option" where
  "import_waiting blake2b heap_size fetch_account [] bq = Some bq"
| "import_waiting blake2b heap_size fetch_account (tx # txs) bq = do {
     bq' \<leftarrow> (case vt_origin tx of
         External \<Rightarrow> map_option fst (add_with_banlist blake2b heap_size fetch_account tx bq)
       | _ \<Rightarrow> map_option (\<lambda>(q, _). bq\<lparr>bq_queue := q\<rparr>) (queue_add heap_size fetch_account tx (bq_queue bq)));
     import_waiting blake2b heap_size fetch_account txs bq'
   }"

definition update_imported :: "(bytes \<Rightarrow> bytes) \<Rightarrow> (bytes \<Rightarrow> nat) \<Rightarrow> (address \<Rightarrow> account_details) \<Rightarrow> tx_pool \<Rightarrow> tx_pool option" where
  "update_imported blake2b heap_size fetch_account pool = do {
     bq \<leftarrow> import_waiting blake2b heap_size fetch_account (tp_waiting_transactions pool) (tp_transaction_queue pool);
     Some (pool\<lparr>tp_transaction_queue := bq, tp_waiting_transactions := []\<rparr>)
   }"

definition pool_update :: "(bytes \<Rightarrow> bytes) \<Rightarrow> (bytes \<Rightarrow> nat) \<Rightarrow> (address \<Rightarrow> account_details) \<Rightarrow> nat \<Rightarrow> tx_pool \<Rightarrow> tx_pool option" where
  "pool_update blake2b heap_size fetch_account best_block pool = do {
     pool1 \<leftarrow> update_sealed fetch_account best_block pool;
     pool2 \<leftarrow> update_removed fetch_account pool1;
     update_imported blake2b heap_size fetch_account pool2
   }"

definition next_transaction_index :: "tx_pool \<Rightarrow> (tx_pool \<times> nat) option" where
  "next_transaction_index pool = do {
     index \<leftarrow> u64_add (tp_transaction_index pool) 1;
     Some (pool\<lparr>tp_transaction_index := index\<rparr>, tp_transaction_index pool)
   }"

definition add_transaction :: "signed_transaction \<Rightarrow> tx_origin \<Rightarrow> condition option \<Rightarrow> nat \<Rightarrow> tx_pool \<Rightarrow>
    (tx_pool \<times> (tx_error, unit) outcome) option" where
  "add_transaction transaction origin condition insertion_block pool =
     (if queue_find (ut_hash (st_transaction transaction)) (pool_queue pool) \<noteq> None then Some (pool, Err AlreadyImported)
      else do {
        (pool1, index) \<leftarrow> next_transaction_index pool;
        let tx = \<lparr>vt_transaction = transaction, vt_origin = origin, vt_condition = condition,
                  vt_insertion_time = insertion_block, vt_insertion_id = index\<rparr>;
        Some (pool1\<lparr>tp_waiting_transactions := tp_waiting_transactions pool1 @ [tx]\<rparr>, Ok ())
      })"

definition record_transaction_sealed :: "tx_pool \<Rightarrow> tx_pool" where
  "record_transaction_sealed pool = pool\<lparr>tp_is_transaction_sealed := True\<rparr>"

definition remove_transaction :: "bytes \<Rightarrow> removal_reason \<Rightarrow> tx_pool \<Rightarrow> tx_pool" where
  "remove_transaction hash reason pool =
     pool\<lparr>tp_transactions_to_remove := AList.update hash reason (tp_transactions_to_remove pool)\<rparr>"

definition pool_ban_transaction :: "(bytes \<Rightarrow> bytes) \<Rightarrow> (bans \<Rightarrow> bans) \<Rightarrow> bytes \<Rightarrow> tx_pool \<Rightarrow> (tx_pool \<times> bool) option" where
  "pool_ban_transaction blake2b expire hash pool = do {
     (bq, banned) \<leftarrow> ban_transaction blake2b expire hash (tp_transaction_queue pool);
     Some (pool\<lparr>tp_transaction_queue := bq\<rparr>, banned)
   }"

definition pool_penalize :: "bytes \<Rightarrow> tx_pool \<Rightarrow> tx_pool option" where
  "pool_penalize hash pool = map_option (\<lambda>q. set_pool_queue q pool) (queue_penalize hash (pool_queue pool))"

definition find_transaction :: "bytes \<Rightarrow> tx_pool \<Rightarrow> pending_transaction option" where
  "find_transaction hash pool = queue_find hash (pool_queue pool)"

definition pool_top_transactions :: "nat \<Rightarrow> nat \<Rightarrow> tx_pool \<Rightarrow> signed_transaction list option" where
  "pool_top_transactions best_block best_timestamp pool = top_transactions_at best_block best_timestamp (pool_queue pool)"

definition pool_pending_transactions :: "nat \<Rightarrow> nat \<Rightarrow> tx_pool \<Rightarrow> pending_transaction list option" where
  "pool_pending_transactions best_block best_timestamp pool = pending_transactions best_block best_timestamp (pool_queue pool)"

definition pool_future_transactions :: "tx_pool \<Rightarrow> pending_transaction list option" where
  "pool_future_transactions pool = future_transactions (pool_queue pool)"

definition pool_pending_hashes :: "tx_pool \<Rightarrow> bytes list" where
  "pool_pending_hashes pool = pending_hashes (pool_queue pool)"

definition pool_last_nonce :: "address \<Rightarrow> tx_pool \<Rightarrow> nat option" where
  "pool_last_nonce addr pool = last_nonce addr (pool_queue pool)"

definition pool_has_local_pending_transactions :: "tx_pool \<Rightarrow> bool" where
  "pool_has_local_pending_transactions pool = has_local_pending_transactions (pool_queue pool)"

definition pool_status :: "tx_pool \<Rightarrow> nat \<times> nat" where
  "pool_status pool = queue_status (pool_queue pool)"

subsection \<open>The parts of an update\<close>

definition waiting_weight :: "(bytes \<Rightarrow> nat) \<Rightarrow> verified_transaction list \<Rightarrow> nat" where
  "waiting_weight heap_size txs = sum_list (map (tx_weight heap_size) txs)"

lemma queue_ok_bound: "queue_ok W q \<Longrightarrow> queue_usage q \<le> W"
  using consistentD(5) [OF queue_okD(1)] by (simp add: queue_usage_def)

lemma run_inv_queue_inv: "run_inv False q \<Longrightarrow> queue_inv (queue_usage q) q"
  using queue_ok_usage by (auto simp: run_inv_def queue_inv_def)

lemma run_shrink:
  assumes "run_inv False q" and "queue_inv W q'" and "frame q q'" and "W \<le> ts_memory_limit (q_current q)"
  shows "run_inv False q'" "queue_usage q' \<le> W"
  using run_inv_frame [OF assms(1,3), of W] assms(2,4) queue_ok_bound by (auto simp: queue_inv_def)

lemma run_inv_usage: "run_inv False q \<Longrightarrow> queue_usage q \<le> ts_memory_limit (q_current q)"
  using queue_ok_bound by (auto simp: run_inv_def)

lemma fold_remove_ok:
  assumes "queue_inv W q"
  shows "\<exists>q'. fold_queue (\<lambda>(h, reason). queue_remove fetch_account reason h) rs q = Some q' \<and> queue_inv W q' \<and> frame q q' \<and>
    (\<forall>h. known q' h \<longrightarrow> known q h \<and> h \<notin> fst ` set rs)"
  using assms
proof (induction rs arbitrary: q)
  case (Cons p rs)
  obtain h reason where p: "p = (h, reason)" by fastforce
  obtain q1 where q1: "queue_remove fetch_account reason h q = Some q1" "queue_inv W q1" "frame q q1" "\<not> known q1 h"
      "\<forall>h'. known q1 h' \<longrightarrow> known q h'"
    using queue_remove_ok [OF Cons.prems] by blast
  obtain q' where q': "fold_queue (\<lambda>(h, reason). queue_remove fetch_account reason h) rs q1 = Some q'" "queue_inv W q'"
      "frame q1 q'" "\<forall>h. known q' h \<longrightarrow> known q1 h \<and> h \<notin> fst ` set rs"
    using Cons.IH [OF q1(2)] by blast
  have "known q h' \<and> h' \<notin> fst ` set (p # rs)" if "known q' h'" for h' using q'(4) q1(4,5) that p by auto
  then show ?case using q1(1) q'(1,2) frame_trans [OF q1(3) q'(3)] p by auto
qed simp

lemma import_one_ok:
  assumes I: "run_inv False q" and "verify_basic (st_transaction (vt_transaction tx)) = Ok ()"
    and w: "queue_usage q + tx_weight heap_size tx \<le> ts_memory_limit (q_current q)"
  shows "\<exists>q' r. queue_add heap_size fetch_account tx q = Some (q', r) \<and> run_inv False q' \<and> frame q q' \<and>
    queue_usage q' \<le> queue_usage q + tx_weight heap_size tx \<and> (\<forall>h. known q' h \<longrightarrow> known q h \<or> h = vt_hash tx)"
proof -
  have inv: "queue_ok (queue_usage q) q" "last_bounded q" "nonces_apart q"
    using run_inv_queue_inv [OF I] by (simp_all add: queue_inv_def)
  have "ts_memory_limit (q_current q) \<le> usize_max" using I queue_okD(6) by (auto simp: run_inv_def)
  then obtain q' r where q': "queue_add heap_size fetch_account tx q = Some (q', r)"
      "queue_ok (queue_usage q + tx_weight heap_size tx) q'" "frame q q'" "last_bounded q'" "nonces_apart q'"
      "\<forall>h. known q' h \<longrightarrow> known q h \<or> h = vt_hash tx"
    using queue_add_ok [OF inv(1) verified_bounded [OF assms(2)] _ inv(2)] w inv(3) by (meson order_trans)
  have "queue_inv (queue_usage q + tx_weight heap_size tx) q'" using q' by (simp add: queue_inv_def)
  from run_shrink [OF I this q'(3) w] show ?thesis using q' by blast
qed

lemma import_waiting_ok:
  assumes "run_inv False (bq_queue bq)" and "\<forall>tx \<in> set txs. verify_basic (st_transaction (vt_transaction tx)) = Ok ()"
    and "queue_usage (bq_queue bq) + waiting_weight heap_size txs \<le> ts_memory_limit (q_current (bq_queue bq))"
  shows "\<exists>q'. import_waiting blake2b heap_size fetch_account txs bq = Some (bq\<lparr>bq_queue := q'\<rparr>) \<and> run_inv False q' \<and>
    frame (bq_queue bq) q' \<and> (\<forall>h. known q' h \<longrightarrow> known (bq_queue bq) h \<or> h \<in> vt_hash ` set txs)"
  using assms
proof (induction txs arbitrary: bq)
  case Nil
  then show ?case by (intro exI [of _ "bq_queue bq"]) simp
next
  case (Cons tx txs)
  let ?q = "bq_queue bq"
  let ?one = "case vt_origin tx of
         External \<Rightarrow> map_option fst (add_with_banlist blake2b heap_size fetch_account tx bq)
       | _ \<Rightarrow> map_option (\<lambda>(q, _). bq\<lparr>bq_queue := q\<rparr>) (queue_add heap_size fetch_account tx (bq_queue bq))"
  have w: "queue_usage ?q + tx_weight heap_size tx \<le> ts_memory_limit (q_current ?q)"
    and "verify_basic (st_transaction (vt_transaction tx)) = Ok ()"
    using Cons.prems(2,3) by (simp_all add: waiting_weight_def)
  then obtain q1 r where q1: "queue_add heap_size fetch_account tx ?q = Some (q1, r)" "run_inv False q1" "frame ?q q1"
      "queue_usage q1 \<le> queue_usage ?q + tx_weight heap_size tx" "\<forall>h. known q1 h \<longrightarrow> known ?q h \<or> h = vt_hash tx"
    using import_one_ok [OF Cons.prems(1)] by blast
  have "?one = Some bq \<or> ?one = Some (bq\<lparr>bq_queue := q1\<rparr>)"
    using q1(1) by (auto simp: add_with_banlist_def split: tx_origin.splits option.splits)
  then obtain q2 where q2: "?one = Some (bq\<lparr>bq_queue := q2\<rparr>)" "run_inv False q2" "frame ?q q2"
      "queue_usage q2 \<le> queue_usage ?q + tx_weight heap_size tx" "\<forall>h. known q2 h \<longrightarrow> known ?q h \<or> h = vt_hash tx"
  proof
    assume "?one = Some bq"
    then show ?thesis by (intro that [of ?q]) (use Cons.prems(1) in auto)
  next
    assume "?one = Some (bq\<lparr>bq_queue := q1\<rparr>)"
    then show ?thesis using that q1 by blast
  qed
  let ?bq = "bq\<lparr>bq_queue := q2\<rparr>"
  have "queue_usage q2 + waiting_weight heap_size txs \<le> ts_memory_limit (q_current q2)"
    using q2(3,4) Cons.prems(3) by (simp add: waiting_weight_def frame_def)
  then obtain q' where q': "import_waiting blake2b heap_size fetch_account txs ?bq = Some (?bq\<lparr>bq_queue := q'\<rparr>)"
      "run_inv False q'" "frame q2 q'" "\<forall>h. known q' h \<longrightarrow> known q2 h \<or> h \<in> vt_hash ` set txs"
    using Cons.IH [of ?bq] q2(2) Cons.prems(2) by auto
  have "import_waiting blake2b heap_size fetch_account (tx # txs) bq = Some (bq\<lparr>bq_queue := q'\<rparr>)"
    using q2(1) q'(1) by simp
  then show ?case using q'(2,4) q2(5) frame_trans [OF q2(3) q'(3)] by auto
qed

definition pool_inv :: "(bytes \<Rightarrow> nat) \<Rightarrow> tx_pool \<Rightarrow> bool" where
  "pool_inv heap_size pool \<longleftrightarrow> run_inv False (pool_queue pool) \<and>
     (\<forall>tx \<in> set (tp_waiting_transactions pool). verify_basic (st_transaction (vt_transaction tx)) = Ok ()) \<and>
     queue_usage (pool_queue pool) + waiting_weight heap_size (tp_waiting_transactions pool) \<le>
       ts_memory_limit (q_current (pool_queue pool))"

lemma pool_queue_set [simp]:
  "pool_queue (set_pool_queue q pool) = q" "pool_queue (pool\<lparr>tp_waiting_transactions := txs\<rparr>) = pool_queue pool"
  "pool_queue (pool\<lparr>tp_is_transaction_sealed := b\<rparr>) = pool_queue pool"
  "pool_queue (pool\<lparr>tp_transactions_to_remove := rs\<rparr>) = pool_queue pool"
  "pool_queue (pool\<lparr>tp_transaction_index := i\<rparr>) = pool_queue pool"
  "tp_waiting_transactions (set_pool_queue q pool) = tp_waiting_transactions pool"
  "tp_transactions_to_remove (set_pool_queue q pool) = tp_transactions_to_remove pool"
  "tp_is_transaction_sealed (set_pool_queue q pool) = tp_is_transaction_sealed pool"
  by (simp_all add: pool_queue_def set_pool_queue_def)

text \<open>A call that only shrinks the queue keeps the invariant of the pool.\<close>

lemma pool_shrink:
  assumes "pool_inv heap_size pool" and "queue_inv (queue_usage (pool_queue pool)) q" and "frame (pool_queue pool) q"
  shows "pool_inv heap_size (set_pool_queue q pool)"
proof -
  have I: "run_inv False (pool_queue pool)" using assms(1) by (simp add: pool_inv_def)
  from run_shrink [OF I assms(2,3) run_inv_usage [OF I]] show ?thesis using assms(1,3) by (auto simp: pool_inv_def frame_def)
qed

lemma pool_update_ok:
  assumes I: "pool_inv heap_size pool"
  shows "\<exists>pool'. pool_update blake2b heap_size fetch_account best_block pool = Some pool' \<and> pool_inv heap_size pool' \<and>
    tp_waiting_transactions pool' = [] \<and> tp_transactions_to_remove pool' = [] \<and> \<not> tp_is_transaction_sealed pool' \<and>
    (\<forall>h. known (pool_queue pool') h \<longrightarrow> h \<in> vt_hash ` set (tp_waiting_transactions pool) \<or>
      h \<notin> fst ` set (tp_transactions_to_remove pool))"
proof -
  have inv: "queue_inv (queue_usage (pool_queue pool)) (pool_queue pool)"
    using I run_inv_queue_inv by (simp add: pool_inv_def)
  obtain pool1 where p1: "update_sealed fetch_account best_block pool = Some pool1" "pool_inv heap_size pool1"
      "tp_waiting_transactions pool1 = tp_waiting_transactions pool" "tp_transactions_to_remove pool1 = tp_transactions_to_remove pool"
      "\<not> tp_is_transaction_sealed pool1"
  proof (cases "tp_is_transaction_sealed pool")
    case True
    obtain q where q: "queue_remove_old fetch_account best_block (pool_queue pool) = Some q"
        "queue_inv (queue_usage (pool_queue pool)) q" "frame (pool_queue pool) q"
      using queue_remove_old_ok [OF inv] by blast
    show ?thesis
      by (rule that [of "(set_pool_queue q pool)\<lparr>tp_is_transaction_sealed := False\<rparr>"])
        (use True q pool_shrink [OF I q(2,3)] in \<open>simp_all add: update_sealed_def pool_inv_def\<close>)
  qed (use I that in \<open>auto simp: update_sealed_def\<close>)
  have "queue_inv (queue_usage (pool_queue pool1)) (pool_queue pool1)"
    using p1(2) run_inv_queue_inv by (simp add: pool_inv_def)
  from fold_remove_ok [OF this] obtain q where q: "fold_queue (\<lambda>(h, reason). queue_remove fetch_account reason h)
        (tp_transactions_to_remove pool) (pool_queue pool1) = Some q" "queue_inv (queue_usage (pool_queue pool1)) q"
      "frame (pool_queue pool1) q" "\<forall>h. known q h \<longrightarrow> known (pool_queue pool1) h \<and> h \<notin> fst ` set (tp_transactions_to_remove pool)"
    by blast
  let ?pool2 = "(set_pool_queue q pool1)\<lparr>tp_transactions_to_remove := []\<rparr>"
  have p2: "update_removed fetch_account pool1 = Some ?pool2" "pool_inv heap_size ?pool2"
    using q(1) p1(4) pool_shrink [OF p1(2) q(2,3)] by (simp_all add: update_removed_def pool_inv_def)
  let ?bq = "tp_transaction_queue ?pool2"
  obtain q' where q': "import_waiting blake2b heap_size fetch_account (tp_waiting_transactions ?pool2) ?bq = Some (?bq\<lparr>bq_queue := q'\<rparr>)"
      "run_inv False q'" "\<forall>h. known q' h \<longrightarrow> known (bq_queue ?bq) h \<or> h \<in> vt_hash ` set (tp_waiting_transactions ?pool2)"
    using import_waiting_ok [of ?bq "tp_waiting_transactions ?pool2"] p2(2) unfolding pool_inv_def pool_queue_def by blast
  let ?pool3 = "?pool2\<lparr>tp_transaction_queue := ?bq\<lparr>bq_queue := q'\<rparr>, tp_waiting_transactions := []\<rparr>"
  have queue: "pool_queue ?pool3 = q'" "bq_queue ?bq = q" by (simp_all add: pool_queue_def set_pool_queue_def)
  have "pool_update blake2b heap_size fetch_account best_block pool = Some ?pool3"
    using p1(1) p2(1) q'(1) by (simp add: pool_update_def update_imported_def)
  moreover have "pool_inv heap_size ?pool3" using q'(2) run_inv_usage queue(1) by (simp add: pool_inv_def waiting_weight_def)
  moreover have "h \<in> vt_hash ` set (tp_waiting_transactions pool) \<or> h \<notin> fst ` set (tp_transactions_to_remove pool)"
    if "known (pool_queue ?pool3) h" for h
    using that q'(3) q(4) p1(3) unfolding queue by auto
  ultimately show ?thesis using p1(5) by (intro exI [of _ ?pool3]) simp
qed

subsection \<open>Bans\<close>

text \<open>Culling at a nonce above all others leaves nothing of the sender.\<close>

lemma cull_all_ok:
  assumes ok: "queue_ok W q" and lb: "last_bounded q" and c: "2 ^ 128 \<le> c"
  shows "\<exists>q'. queue_cull s c q = Some q' \<and> queue_ok W q' \<and> frame q q' \<and> last_bounded q' \<and> (nonces_apart q \<longrightarrow> nonces_apart q') \<and>
    (\<forall>n. cells (q_current q') s n = None \<and> cells (q_future q') s n = None)"
proof -
  have below: "n < c" if "cells (q_current p) s n \<noteq> None \<or> cells (q_future p) s n \<noteq> None" "queue_ok W p" for p n
    using queue_nonce [OF that(2), of s n] that(1) c by linarith
  show ?thesis
  proof (cases "List.find (\<lambda>n. n < c) (row_nonces (q_current q) s) = None \<and> List.find (\<lambda>n. n \<le> c) (row_nonces (q_future q) s) = None")
    case True
    have "cells (q_current q) s n = None" for n
      using True below [OF _ ok, of n] row_nonces_mem [OF queue_okD(4) [OF ok], of n s] by (auto simp: find_None_iff)
    moreover have "cells (q_future q) s n = None" for n
      using True below [OF _ ok, of n] row_nonces_mem [OF queue_okD(5) [OF ok], of n s] by (auto simp: find_None_iff)
    moreover have "queue_cull s c q = Some q" using True by (simp add: queue_cull_def)
    ultimately show ?thesis using ok lb by simp
  next
    case False
    obtain k q' where q': "cull_internal s c q = Some q'" "queue_ok W q'" "frame q q'" "last_bounded q'" "culled s c k q q'"
        "nonces_apart q \<longrightarrow> nonces_apart q'"
      using cull_internal_ok [OF ok lb] by blast
    have "\<not> (cells (q_current q') s n \<noteq> None \<or> cells (q_future q') s n \<noteq> None)" for n
    proof
      assume n: "cells (q_current q') s n \<noteq> None \<or> cells (q_future q') s n \<noteq> None"
      have "cells (q_current q') s n \<noteq> None \<or> cells (q_future q') s n \<noteq> None \<longrightarrow>
          c \<le> n \<and> (cells (q_current q) s n \<noteq> None \<or> cells (q_future q) s n \<noteq> None)"
        using q'(5) unfolding culled_def by (elim conjE) (erule spec)
      then show False using n below [OF n q'(2)] by linarith
    qed
    moreover have "queue_cull s c q = Some q'" using False q'(1) unfolding queue_cull_def Let_def by (simp only: if_False)
    ultimately show ?thesis using q' by auto
  qed
qed

lemma ban_sender_ok:
  assumes "run_inv False (bq_queue bq)"
  shows "\<exists>q m. ban_sender expire s bq = Some (bq\<lparr>bq_senders_bans := m, bq_queue := q\<rparr>,
      ban_reached (bq_ban_threshold bq) (ban_count m s)) \<and> m = fst (ban_entry expire s (bq_senders_bans bq)) \<and>
    queue_inv (queue_usage (bq_queue bq)) q \<and> frame (bq_queue bq) q \<and>
    (ban_reached (bq_ban_threshold bq) (ban_count m s) \<longrightarrow> (\<forall>n. cells (q_current q) s n = None \<and> cells (q_future q) s n = None))"
proof -
  have inv: "queue_ok (queue_usage (bq_queue bq)) (bq_queue bq)" "last_bounded (bq_queue bq)" "nonces_apart (bq_queue bq)"
    using run_inv_queue_inv [OF assms] by (simp_all add: queue_inv_def)
  have "(2 :: nat) ^ 128 \<le> 2 ^ 256 - 1" by simp
  from cull_all_ok [OF inv(1,2) this, of s] obtain q where q: "queue_cull s (2 ^ 256 - 1) (bq_queue bq) = Some q"
      "queue_inv (queue_usage (bq_queue bq)) q" "frame (bq_queue bq) q"
      "\<forall>n. cells (q_current q) s n = None \<and> cells (q_future q) s n = None"
    using inv(3) unfolding queue_inv_def by blast
  obtain m c where m: "ban_entry expire s (bq_senders_bans bq) = (m, c)" by fastforce
  then have c: "ban_count m s = c" by (auto simp: ban_entry_def ban_count_def Let_def)
  show ?thesis
  proof (cases "ban_reached (bq_ban_threshold bq) c")
    case True
    then show ?thesis using q m c by (intro exI [of _ q] exI [of _ m]) (simp add: ban_sender_def)
  next
    case False
    then show ?thesis using m c run_inv_queue_inv [OF assms]
      by (intro exI [of _ "bq_queue bq"] exI [of _ m]) (simp add: ban_sender_def)
  qed
qed

lemma ban_other:
  "bq_queue (fst (ban_recipient expire r bq)) = bq_queue bq" "bq_queue (fst (ban_codehash expire r bq)) = bq_queue bq"
  "bq_senders_bans (fst (ban_recipient expire r bq)) = bq_senders_bans bq" "bq_senders_bans (fst (ban_codehash expire r bq)) = bq_senders_bans bq"
  "bq_ban_threshold (fst (ban_recipient expire r bq)) = bq_ban_threshold bq" "bq_ban_threshold (fst (ban_codehash expire r bq)) = bq_ban_threshold bq"
  by (simp_all add: ban_recipient_def ban_codehash_def split: prod.splits)

lemma ban_transaction_ok:
  assumes I: "run_inv False (bq_queue bq)"
  shows "\<exists>bq' b. ban_transaction blake2b expire h bq = Some (bq', b) \<and> queue_inv (queue_usage (bq_queue bq)) (bq_queue bq') \<and>
    frame (bq_queue bq) (bq_queue bq') \<and> bq_ban_threshold bq' = bq_ban_threshold bq \<and>
    (\<forall>p. queue_find h (bq_queue bq) = Some p \<longrightarrow>
      (let s = st_sender (pt_transaction p) in
        bq_senders_bans bq' = fst (ban_entry expire s (bq_senders_bans bq)) \<and>
        (ban_reached (bq_ban_threshold bq) (ban_count (bq_senders_bans bq') s) \<longrightarrow>
          b \<and> (\<forall>n. cells (q_current (bq_queue bq')) s n = None \<and> cells (q_future (bq_queue bq')) s n = None))))"
proof (cases "queue_find h (bq_queue bq)")
  case None
  then show ?thesis using run_inv_queue_inv [OF I] by (auto simp: ban_transaction_def)
next
  case (Some p)
  let ?st = "pt_transaction p" and ?s = "st_sender (pt_transaction p)"
  obtain q m where s: "ban_sender expire ?s bq = Some (bq\<lparr>bq_senders_bans := m, bq_queue := q\<rparr>,
      ban_reached (bq_ban_threshold bq) (ban_count m ?s))" "m = fst (ban_entry expire ?s (bq_senders_bans bq))"
      "queue_inv (queue_usage (bq_queue bq)) q" "frame (bq_queue bq) q"
      "ban_reached (bq_ban_threshold bq) (ban_count m ?s) \<longrightarrow> (\<forall>n. cells (q_current q) ?s n = None \<and> cells (q_future q) ?s n = None)"
    using ban_sender_ok [OF I, of expire ?s] by blast
  let ?bq1 = "bq\<lparr>bq_senders_bans := m, bq_queue := q\<rparr>"
  obtain bq2 b where bq2: "(case tx_action ?st of
              Call recipient \<Rightarrow> ban_recipient expire recipient ?bq1
            | Create \<Rightarrow> ban_codehash expire (blake2b (tx_data ?st)) ?bq1) = (bq2, b)" by fastforce
  then have "bq_queue bq2 = q" "bq_senders_bans bq2 = m" "bq_ban_threshold bq2 = bq_ban_threshold bq"
    using ban_other by (auto split: action.splits dest: arg_cong [where f = fst])
      (metis banning_queue.select_convs(1,2,3) banning_queue.surjective banning_queue.update_convs(1,3) fst_conv)+
  moreover have "ban_transaction blake2b expire h bq = Some (bq2, ban_reached (bq_ban_threshold bq) (ban_count m ?s) \<or> b)"
    using Some s(1) bq2 by (simp add: ban_transaction_def Let_def)
  ultimately show ?thesis
    using Some s(2-5) by (intro exI [of _ bq2] exI [of _ "ban_reached (bq_ban_threshold bq) (ban_count m ?s) \<or> b"]) simp
qed

subsection \<open>Histories of the pool\<close>

datatype pool_op =
    UpdateOp "address \<Rightarrow> account_details" nat
  | ReceiveOp signed_transaction tx_origin "condition option" nat
  | SealedOp
  | DiscardOp bytes removal_reason
  | BanOp "bans \<Rightarrow> bans" bytes
  | PunishOp bytes
  | ResetOp

fun pool_do :: "(bytes \<Rightarrow> bytes) \<Rightarrow> (bytes \<Rightarrow> nat) \<Rightarrow> pool_op \<Rightarrow> tx_pool \<Rightarrow> tx_pool option" where
  "pool_do blake2b heap_size (UpdateOp fetch_account best_block) pool = pool_update blake2b heap_size fetch_account best_block pool"
| "pool_do blake2b heap_size (ReceiveOp transaction origin condition block) pool =
     map_option fst (add_transaction transaction origin condition block pool)"
| "pool_do blake2b heap_size SealedOp pool = Some (record_transaction_sealed pool)"
| "pool_do blake2b heap_size (DiscardOp hash reason) pool = Some (remove_transaction hash reason pool)"
| "pool_do blake2b heap_size (BanOp expire hash) pool = map_option fst (pool_ban_transaction blake2b expire hash pool)"
| "pool_do blake2b heap_size (PunishOp hash) pool = pool_penalize hash pool"
| "pool_do blake2b heap_size ResetOp pool = Some (pool_clear pool)"

text \<open>
  What the callers of the pool ensure: a transaction that is received has passed the basic checks, it
  fits with everything that is waiting, and the running index has not reached its maximum.
\<close>

fun receivable :: "(bytes \<Rightarrow> nat) \<Rightarrow> pool_op \<Rightarrow> tx_pool \<Rightarrow> bool" where
  "receivable heap_size (ReceiveOp transaction origin condition block) pool \<longleftrightarrow>
     verify_basic (st_transaction transaction) = Ok () \<and> tp_transaction_index pool + 1 < 2 ^ 64 \<and>
     queue_usage (pool_queue pool) + waiting_weight heap_size (tp_waiting_transactions pool) + heap_size (tx_data transaction) \<le>
       ts_memory_limit (q_current (pool_queue pool))"
| "receivable heap_size op pool \<longleftrightarrow> True"

inductive pool_reachable :: "(bytes \<Rightarrow> bytes) \<Rightarrow> (bytes \<Rightarrow> nat) \<Rightarrow> tx_pool \<Rightarrow> bool" for blake2b heap_size where
  start: "limit \<le> usize_max \<Longrightarrow> banning_queue_new (queue_with_limits st limit) ban_threshold ban_lifetime = Some bq \<Longrightarrow>
    pool_reachable blake2b heap_size (pool_new bq)"
| call: "pool_reachable blake2b heap_size pool \<Longrightarrow> receivable heap_size op pool \<Longrightarrow>
    pool_do blake2b heap_size op pool = Some pool' \<Longrightarrow> pool_reachable blake2b heap_size pool'"

lemma pool_inv_new:
  assumes "limit \<le> usize_max" and "banning_queue_new (queue_with_limits st limit) ban_threshold ban_lifetime = Some bq"
  shows "pool_inv heap_size (pool_new bq)"
proof -
  have "bq_queue bq = queue_with_limits st limit"
    using assms(2) by (auto simp: banning_queue_new_def Let_def split: if_splits)
  then have "run_inv False (pool_queue (pool_new bq))" using run_inv_new [OF assms(1)] by (simp add: pool_queue_def pool_new_def)
  then show ?thesis using run_inv_usage by (simp add: pool_inv_def waiting_weight_def pool_new_def)
qed

lemma pool_inv_received:
  assumes "pool_inv heap_size pool" and "receivable heap_size (ReceiveOp transaction origin condition block) pool"
  shows "\<exists>pool' r. add_transaction transaction origin condition block pool = Some (pool', r) \<and> pool_inv heap_size pool'"
proof (cases "queue_find (ut_hash (st_transaction transaction)) (pool_queue pool)")
  case None
  have "next_transaction_index pool = Some (pool\<lparr>tp_transaction_index := tp_transaction_index pool + 1\<rparr>, tp_transaction_index pool)"
    using assms(2) by (simp add: next_transaction_index_def u64_add_def)
  then show ?thesis
    using None assms by (simp add: add_transaction_def pool_inv_def waiting_weight_def tx_weight_def tx_data_def)
qed (use assms in \<open>simp add: add_transaction_def\<close>)

lemma pool_step:
  assumes I: "pool_inv heap_size pool" and "receivable heap_size op pool"
  shows "\<exists>pool'. pool_do blake2b heap_size op pool = Some pool' \<and> pool_inv heap_size pool'"
proof (cases op)
  case (UpdateOp fetch_account best_block)
  then show ?thesis using pool_update_ok [OF I, of blake2b fetch_account best_block] by auto
next
  case (ReceiveOp transaction origin condition block)
  then show ?thesis using pool_inv_received [OF I] assms(2) by fastforce
next
  case SealedOp
  then show ?thesis using I by (simp add: record_transaction_sealed_def pool_inv_def)
next
  case (DiscardOp hash reason)
  then show ?thesis using I by (simp add: remove_transaction_def pool_inv_def)
next
  case (BanOp expire hash)
  let ?bq = "tp_transaction_queue pool"
  have "run_inv False (bq_queue ?bq)" using I by (simp add: pool_inv_def pool_queue_def)
  then obtain bq' b where b: "ban_transaction blake2b expire hash ?bq = Some (bq', b)"
      "queue_inv (queue_usage (bq_queue ?bq)) (bq_queue bq')" "frame (bq_queue ?bq) (bq_queue bq')"
    using ban_transaction_ok by blast
  then have "pool_inv heap_size (pool\<lparr>tp_transaction_queue := bq'\<rparr>)"
    using pool_shrink [OF I, of "bq_queue bq'"] by (simp add: pool_inv_def pool_queue_def set_pool_queue_def)
  then show ?thesis using BanOp b(1) by (simp add: pool_ban_transaction_def)
next
  case (PunishOp hash)
  have "queue_inv (queue_usage (pool_queue pool)) (pool_queue pool)" using I run_inv_queue_inv by (simp add: pool_inv_def)
  then obtain q where "queue_penalize hash (pool_queue pool) = Some q" "queue_inv (queue_usage (pool_queue pool)) q" "frame (pool_queue pool) q"
    using queue_penalize_inv [of "queue_usage (pool_queue pool)" "pool_queue pool" hash] unfolding queue_inv_def by blast
  then show ?thesis using PunishOp pool_shrink [OF I] by (simp add: pool_penalize_def)
next
  case ResetOp
  have ok: "queue_ok (queue_usage (pool_queue pool)) (pool_queue pool)"
    using I run_inv_queue_inv by (simp add: pool_inv_def queue_inv_def)
  have "pool_inv heap_size (set_pool_queue (queue_clear (pool_queue pool)) pool)"
    by (rule pool_shrink [OF I]) (use queue_clear_ok [OF ok] in \<open>simp_all add: queue_inv_def\<close>)
  then have "pool_inv heap_size (pool_clear pool)"
    using run_inv_usage by (simp add: pool_clear_def pool_inv_def waiting_weight_def)
  then show ?thesis using ResetOp by simp
qed

lemma reachable_pool_inv: "pool_reachable blake2b heap_size pool \<Longrightarrow> pool_inv heap_size pool"
proof (induction rule: pool_reachable.induct)
  case (start limit st ban_threshold ban_lifetime bq)
  then show ?case by (rule pool_inv_new)
next
  case (call pool op pool')
  then show ?case using pool_step [OF call.IH call.hyps(2), of blake2b] by simp
qed

subsection \<open>Properties\<close>


text \<open>
  C18 (an update takes effect). An update returns with nothing left to do: no transaction waits, none is
  left to remove, the sealed flag is down, and a transaction recorded for removal is no longer found
  unless it was also waiting to enter.
\<close>

theorem update_takes_effect:
  assumes "pool_reachable blake2b heap_size pool"
  shows "\<exists>pool'. pool_update blake2b heap_size fetch_account best_block pool = Some pool' \<and>
    tp_waiting_transactions pool' = [] \<and> tp_transactions_to_remove pool' = [] \<and> \<not> tp_is_transaction_sealed pool' \<and>
    (\<forall>h \<in> fst ` set (tp_transactions_to_remove pool) - vt_hash ` set (tp_waiting_transactions pool).
      find_transaction h pool' = None)"
proof -
  have I: "pool_inv heap_size pool" by (rule reachable_pool_inv [OF assms])
  obtain pool' where p: "pool_update blake2b heap_size fetch_account best_block pool = Some pool'" "pool_inv heap_size pool'"
      "tp_waiting_transactions pool' = []" "tp_transactions_to_remove pool' = []" "\<not> tp_is_transaction_sealed pool'"
      "\<forall>h. known (pool_queue pool') h \<longrightarrow> h \<in> vt_hash ` set (tp_waiting_transactions pool) \<or>
        h \<notin> fst ` set (tp_transactions_to_remove pool)"
    using pool_update_ok [OF I, of blake2b fetch_account best_block] by blast
  obtain W where "queue_ok W (pool_queue pool')" using p(2) unfolding pool_inv_def run_inv_def by blast
  then have "find_transaction h pool' = None" if "\<not> known (pool_queue pool') h" for h
    using known_iff that by (simp add: find_transaction_def queue_find_def)
  then have "find_transaction h pool' = None"
    if "h \<in> fst ` set (tp_transactions_to_remove pool) - vt_hash ` set (tp_waiting_transactions pool)" for h
    using p(6) that by (metis DiffE)
  then show ?thesis using p(1,3-5) by (intro exI conjI ballI)
qed

text \<open>
  C19 (a ban takes effect). When the reports about a sender exceed the threshold, banning one of its
  transactions reports a ban, leaves no transaction of the sender in the queue, current or waiting, and
  every transaction of the sender that comes from outside is then refused without a change of the queue.
\<close>

theorem ban_takes_effect:
  assumes "pool_reachable blake2b heap_size pool" and p: "find_transaction h pool = Some p"
    and t: "bq_ban_threshold (tp_transaction_queue pool) = BanAfter t" "t < 2 ^ 16 - 1"
    and reports: "t \<le> ban_count (expire (bq_senders_bans (tp_transaction_queue pool))) (st_sender (pt_transaction p))"
  shows "\<exists>pool'. pool_ban_transaction blake2b expire h pool = Some (pool', True) \<and>
    (\<forall>n. hash_at (q_current (pool_queue pool')) (st_sender (pt_transaction p)) n = None \<and>
      hash_at (q_future (pool_queue pool')) (st_sender (pt_transaction p)) n = None) \<and>
    (\<forall>tx. vt_sender tx = st_sender (pt_transaction p) \<longrightarrow>
      add_with_banlist blake2b heap_size fetch_account tx (tp_transaction_queue pool') =
        Some (tp_transaction_queue pool', Err SenderBanned))"
proof -
  let ?bq = "tp_transaction_queue pool" and ?s = "st_sender (pt_transaction p)"
  have "run_inv False (bq_queue ?bq)" using reachable_pool_inv [OF assms(1)] by (simp add: pool_inv_def pool_queue_def)
  moreover have "queue_find h (bq_queue ?bq) = Some p" using p by (simp add: find_transaction_def pool_queue_def)
  ultimately obtain bq' b where b: "ban_transaction blake2b expire h ?bq = Some (bq', b)" "bq_ban_threshold bq' = bq_ban_threshold ?bq"
      "bq_senders_bans bq' = fst (ban_entry expire ?s (bq_senders_bans ?bq))"
      "ban_reached (bq_ban_threshold ?bq) (ban_count (bq_senders_bans bq') ?s) \<longrightarrow>
        b \<and> (\<forall>n. cells (q_current (bq_queue bq')) ?s n = None \<and> cells (q_future (bq_queue bq')) ?s n = None)"
    using ban_transaction_ok [of ?bq blake2b expire h] by (auto simp: Let_def)
  have over: "t < ban_count (bq_senders_bans bq') ?s"
    using b(3) reports t(2) by (simp add: ban_entry_def ban_count_def Let_def split: option.splits)
  then have "ban_check blake2b tx bq' = Some SenderBanned" if "vt_sender tx = ?s" for tx
    using b(2) t(1) that by (simp add: ban_check_def)
  then have "add_with_banlist blake2b heap_size fetch_account tx bq' = Some (bq', Err SenderBanned)" if "vt_sender tx = ?s" for tx
    using that by (simp add: add_with_banlist_def)
  moreover have "b \<and> (\<forall>n. cells (q_current (bq_queue bq')) ?s n = None \<and> cells (q_future (bq_queue bq')) ?s n = None)"
    using b(4) over t(1) by (simp add: ban_reached_def)
  ultimately show ?thesis
    using b(1) by (intro exI [of _ "pool\<lparr>tp_transaction_queue := bq'\<rparr>"])
      (simp add: pool_ban_transaction_def pool_queue_def hash_at_cells)
qed

subsection \<open>Witnesses\<close>

definition sample_pool :: "tx_pool option" where
  "sample_pool = do {
     bq \<leftarrow> banning_queue_new (queue_with_limits GasPriceOnly 100) (BanAfter 0) 60;
     p1 \<leftarrow> pool_do id length (ReceiveOp (vt_transaction (sample_tx 1 7 0 10)) External None 0) (pool_new bq);
     p2 \<leftarrow> pool_do id length (UpdateOp fresh_account 0) p1;
     pool_do id length (DiscardOp [1] RemInvalid) p2
   }"

lemma sample_pool_run:
  "map_option (\<lambda>bq. receivable length (ReceiveOp (vt_transaction (sample_tx 1 7 0 10)) External None 0) (pool_new bq))
     (banning_queue_new (queue_with_limits GasPriceOnly 100) (BanAfter 0) 60) = Some True"
  "map_option (\<lambda>pool. (map_option (st_sender \<circ> pt_transaction) (find_transaction [1] pool), bq_ban_threshold (tp_transaction_queue pool),
     tp_transactions_to_remove pool, tp_waiting_transactions pool)) sample_pool = Some (Some [7], BanAfter 0, [([1], RemInvalid)], [])"
  by code_simp+

lemma sample_pool_reached:
  "\<exists>pool p. sample_pool = Some pool \<and> pool_reachable id length pool \<and> find_transaction [1] pool = Some p \<and>
     st_sender (pt_transaction p) = [7] \<and> bq_ban_threshold (tp_transaction_queue pool) = BanAfter 0 \<and>
     tp_transactions_to_remove pool = [([1], RemInvalid)] \<and> tp_waiting_transactions pool = []"
proof -
  obtain pool p where pool: "sample_pool = Some pool" "find_transaction [1] pool = Some p" "st_sender (pt_transaction p) = [7]"
      "bq_ban_threshold (tp_transaction_queue pool) = BanAfter 0" "tp_transactions_to_remove pool = [([1], RemInvalid)]"
      "tp_waiting_transactions pool = []"
    using sample_pool_run(2) by auto
  obtain bq p1 p2 where steps: "banning_queue_new (queue_with_limits GasPriceOnly 100) (BanAfter 0) 60 = Some bq"
      "pool_do id length (ReceiveOp (vt_transaction (sample_tx 1 7 0 10)) External None 0) (pool_new bq) = Some p1"
      "pool_do id length (UpdateOp fresh_account 0) p1 = Some p2" "pool_do id length (DiscardOp [1] RemInvalid) p2 = Some pool"
    using pool(1) unfolding sample_pool_def by (auto simp del: pool_do.simps split: bind_splits)
  have "pool_reachable id length (pool_new bq)" by (rule start [OF _ steps(1)]) (simp add: usize_max_def)
  then have "pool_reachable id length p1"
    by (rule call [OF _ _ steps(2)]) (use sample_pool_run(1) steps(1) in \<open>simp del: receivable.simps\<close>)
  then have "pool_reachable id length p2" by (rule call [OF _ _ steps(3)]) simp
  then have "pool_reachable id length pool" by (rule call [OF _ _ steps(4)]) simp
  then show ?thesis using pool by blast
qed


theorem update_takes_effect_witness:
  "\<exists>pool pool'. sample_pool = Some pool \<and> pool_update id length fresh_account 1 pool = Some pool' \<and> find_transaction [1] pool' = None"
proof -
  obtain pool where pool: "sample_pool = Some pool" "pool_reachable id length pool" "tp_transactions_to_remove pool = [([1], RemInvalid)]"
      "tp_waiting_transactions pool = []"
    using sample_pool_reached by blast
  from update_takes_effect [OF pool(2), of fresh_account 1] show ?thesis using pool(1,3,4) by auto
qed

theorem ban_takes_effect_witness:
  "\<exists>pool pool'. sample_pool = Some pool \<and> pool_ban_transaction id (\<lambda>m. m) [1] pool = Some (pool', True) \<and>
     hash_at (q_current (pool_queue pool')) [7] 0 = None"
proof -
  obtain pool p where pool: "sample_pool = Some pool" "pool_reachable id length pool" "find_transaction [1] pool = Some p"
      "st_sender (pt_transaction p) = [7]" "bq_ban_threshold (tp_transaction_queue pool) = BanAfter 0"
    using sample_pool_reached by blast
  then obtain pool' where "pool_ban_transaction id (\<lambda>m. m) [1] pool = Some (pool', True)"
      "\<forall>n. hash_at (q_current (pool_queue pool')) [7] n = None \<and> hash_at (q_future (pool_queue pool')) [7] n = None"
    using ban_takes_effect [OF pool(2,3,5), of "\<lambda>m. m" fresh_account] by auto
  then show ?thesis using pool(1) by blast
qed

end
