(* ===== verification/Spec2Isabelle.thy ===== *)
theory Spec2Isabelle
  imports Rlp_Impls Fixed_Point Block_Verification Block_Chain Transaction_Pool
begin

text \<open>
  Verification of parts of the Aion Rust kernel, a block chain node with hybrid consensus (proof of work
  and proof of stake blocks alternate). All paths below are under \<^verbatim>\<open>src/\<close>.

  \<^bold>\<open>The program and how its parts interact.\<close> Blocks, headers and transactions travel and are stored as RLP,
  a nested encoding of byte strings and lists (\<^verbatim>\<open>util/rlp\<close>). A transaction that arrives is decoded, its
  signature and its gas rules are checked (\<^verbatim>\<open>core/src/transaction/transaction.rs\<close>) and it enters the
  transaction pool, which keeps it in a queue ordered by price and nonce until a block includes it. A block
  that arrives is checked by the verification functions (\<^verbatim>\<open>core/src/verification\<close>), which call the
  validators of the Unity engine (\<^verbatim>\<open>core/src/engine/unity_engine\<close>); the engine computes difficulties with
  exact and with fixed-point arithmetic (\<^verbatim>\<open>util/fixed_point\<close>, \<^verbatim>\<open>util/delta-calc\<close>). An accepted block is
  written to the block chain store (\<^verbatim>\<open>core/src/blockchain\<close>), which keeps block details, the index of
  the canonical chain, the addresses of transactions and a hierarchy of bloom filters for log queries
  (\<^verbatim>\<open>util/ethbloom\<close>, \<^verbatim>\<open>util/bloomchain\<close>).

  \<^bold>\<open>Conventions.\<close> A struct is a record whose fields keep their names behind a prefix, an enum is a datatype
  with the constructors of the source. A byte is \<open>8 word\<close>; machine integers and the 128, 256 and 512 bit
  integers are naturals, and wherever the code can leave the range the check, the panic or the wrap-around
  is written out. A function that can panic returns an \<open>option\<close> with \<open>None\<close> for the panic; one that also
  returns a \<^verbatim>\<open>Result\<close> returns an \<open>outcome\<close> (\<open>Ok\<close>, \<open>Err\<close>, \<open>Panic\<close>). A \<^verbatim>\<open>HashMap\<close> that is only looked up is a
  partial function, one that is iterated over an association list; a \<^verbatim>\<open>BTreeSet\<close> is an ascending list.
  Locks serialise the calls and do not appear.

  \<^bold>\<open>Theories and the code they model.\<close>

  \<^item> \<open>Prelude\<close>: outcomes, checked arithmetic, big-endian numbers, generic lemmas on lists and maps, and the
    collections of facts shared by the components.
  \<^item> \<open>Rlp_Stream\<close>: \<^verbatim>\<open>util/rlp/src/stream.rs\<close>, \<^verbatim>\<open>RlpStream\<close> with its stack of unfinished lists and
    \<^verbatim>\<open>BasicEncoder\<close>. Shows that a stream that is fed a tree ends with the encoding of the tree.
  \<^item> \<open>Rlp_Decode\<close>: \<^verbatim>\<open>util/rlp/src/untrusted_rlp.rs\<close>. Shows that reading back an encoded tree gives the tree,
    that the reader never panics, and that its offset and count caches are invisible.
  \<^item> \<open>Rlp_Impls\<close>: \<^verbatim>\<open>util/rlp/src/impls.rs\<close> and the trusted view \<^verbatim>\<open>rlpin.rs\<close>. The locales \<open>rlp_encodable\<close>
    and \<open>rlp_codec\<close> state what an \<^verbatim>\<open>Encodable\<close> and \<^verbatim>\<open>Decodable\<close> pair promises and are interpreted for every
    implementation; lists of encodable values are proved once inside them.
  \<^item> \<open>Fixed_Point\<close>: \<^verbatim>\<open>util/fixed_point\<close> and \<^verbatim>\<open>util/delta-calc\<close>. Shows where the logarithm and the delay of a
    proof-of-stake block are defined and what value the delay has.
  \<^item> \<open>Header\<close>: \<^verbatim>\<open>core/src/header.rs\<close>. Shows that no setter leaves a stale memoised hash and that a header
    survives encoding and decoding.
  \<^item> \<open>Unity_Engine\<close>: difficulty and reward calculation of \<^verbatim>\<open>core/src/engine/unity_engine/mod.rs\<close>. Shows the
    direction of difficulty changes and that the reward cache is invisible.
  \<^item> \<open>Engine_Validators\<close>: the header validators of \<^verbatim>\<open>core/src/engine/unity_engine\<close> and the verification
    functions that run them. Shows what every chain of accepted headers satisfies.
  \<^item> \<open>Beacon\<close>: the check of the beacon hashes of transactions in \<^verbatim>\<open>core/src/verification/mod.rs\<close>. Shows that it
    decides ancestry, and where it ends with an error instead.
  \<^item> \<open>Bloom_Chain\<close>: \<^verbatim>\<open>util/ethbloom\<close>, \<^verbatim>\<open>util/bloomchain\<close> and the bloom groups of
    \<^verbatim>\<open>core/src/blockchain/blockchain.rs\<close>. The locale \<open>bloom_db\<close> is the interface between the searching code
    and the store, interpreted for the cached store of the block chain. Shows that the hierarchical search
    returns exactly the matching blocks.
  \<^item> \<open>Block_Chain\<close>: block details, number index, transaction addresses, best block, tree routes and the import
    of a block, \<^verbatim>\<open>core/src/blockchain/blockchain.rs\<close>. Shows that every history of imports keeps the index of
    the canonical chain, that imports of valid blocks succeed and that log queries see the canonical blocks.
  \<^item> \<open>Transaction\<close>: \<^verbatim>\<open>core/src/transaction/transaction.rs\<close> and the signatures of \<^verbatim>\<open>keystore/key\<close>. Shows round
    trips, that a signature binds the fields, and where prices are truncated.
  \<^item> \<open>Hash_Table\<close> (\<^verbatim>\<open>util/table\<close>), \<open>Local_Transactions\<close> (\<^verbatim>\<open>local_transactions.rs\<close>) and \<open>Transaction_Set\<close> (the
    first half of \<^verbatim>\<open>transaction_queue.rs\<close>: order, price index, set). The locale \<open>total_cmp\<close> is the contract
    of a comparison that a \<^verbatim>\<open>BTreeSet\<close> relies on, the locale \<open>keyed_store\<close> the contract of a set that the queue
    relies on; both are interpreted on the code's order and set.
  \<^item> \<open>Transaction_Queue\<close>: the operations of \<^verbatim>\<open>TransactionQueue\<close>; \<open>Queue_Safety\<close>: the relation between the two sets and
    the hash index, kept by every small move of an order; \<open>Queue_Invariant\<close>: every whole operation keeps it and
    returns; \<open>Queue_Runs\<close>: histories of calls and the properties of every state they reach.
  \<^item> \<open>Transaction_Pool\<close>: \<^verbatim>\<open>banning_queue.rs\<close> and \<^verbatim>\<open>transaction_pool.rs\<close> over the queue, with histories of the pool's
    calls.

  \<^bold>\<open>Parameters.\<close> Code outside the repository, and cryptography, is an argument of the definitions that use
  it: the hash function, Ed25519 signing and verification, the Equihash solver check, the clock, the heap size
  that the memory accounting of transactions reads, the account lookup of the queue, and what a transient
  map has forgotten. What a theorem needs of them is a hypothesis of the theorem.

  \<^bold>\<open>Termination and bounds.\<close> The loops of the code are recursive functions with a termination proof. Three
  may not end: the two walks of a tree route (\<open>climb\<close>, \<open>meet\<close>) and the eviction of old local transactions
  (\<open>clear_old\<close>) are \<open>partial_function (option)\<close>, and theorems state that they return. The RLP iterator
  \<open>iter_from\<close> takes fuel, called with the number of bytes, which is enough since an item takes a byte
  (\<open>iter_from_items\<close>).

  \<^bold>\<open>Not modelled.\<close> Execution of transactions (executor, virtual machines, precompiled contracts), the account
  state, tries and the database, the client, the miner and the synchronisation: they are glue over the
  state layer, the database, the network or foreign code (the virtual machines are a C++ and a
  Java library). Networking, RPC, key files, configuration and the command line are input and output. The
  cryptographic primitives of \<^verbatim>\<open>util/crypto\<close> appear as parameters only.
\<close>

end
